(* ===== verification/Prelude.thy ===== *)
theory Prelude
  imports Main "HOL-Library.Word" "HOL-Library.AList"
begin

text \<open>
  The vocabulary every component shares.

  A Go string or byte slice is a HOL \<^typ>\<open>string\<close>: a list of \<^typ>\<open>char\<close>, one element per
  byte, so \<open>length\<close> is Go's \<open>len\<close>. Sequence numbers are \<open>uint64\<close>, hence \<open>64 word\<close>. A Go
  \<open>int\<close> or \<open>int64\<close> whose overflow cannot be provoked is a HOL \<^typ>\<open>int\<close>. An operation that
  may return an error returns a sum, \<open>Inl\<close> for the error.

  The locale \<open>codec\<close> is the interface of every encoder and decoder pair of the program
  (hexadecimal, base64, JSON strings, headers, shush references): the client code relies on
  nothing but the round trip, and what follows from it is proved here once.
\<close>

type_synonym u64 = "64 word"

abbreviation byte :: "char \<Rightarrow> nat" where
  "byte c \<equiv> of_char c"

abbreviation newline_byte :: char where
  "newline_byte \<equiv> CHR 0x0A"

named_theorems inv_intros \<open>operations that keep an invariant\<close>

section \<open>Characters as bytes\<close>

lemma byte_less_256 [simp]: "byte c < 256"
  by simp

lemma byte_char_of [simp]: "n < 256 \<Longrightarrow> byte (char_of n) = n"
  by simp

lemma byte_eq_iff: "byte c = byte d \<longleftrightarrow> c = d"
  by (simp add: of_char_eq_iff)

lemma char_of_eqI: "byte c = n \<Longrightarrow> char_of n = c"
  by (metis char_of_char)

lemma unat_u64 [simp]: "unat (w :: u64) < 2 ^ 64" "unat (w :: u64) < 18446744073709551616"
  using unsigned_less [of w, where ?'a = nat] by simp_all

section \<open>Lists\<close>

lemma takeWhile_append_stop:
  "\<forall>x\<in>set xs. P x \<Longrightarrow> \<not> P y \<Longrightarrow> takeWhile P (xs @ y # ys) = xs"
  by (induction xs) auto

lemma dropWhile_append_stop:
  "\<forall>x\<in>set xs. P x \<Longrightarrow> \<not> P y \<Longrightarrow> dropWhile P (xs @ y # ys) = y # ys"
  by (induction xs) auto

lemma length_dropWhile_Cons_less: "dropWhile P (x # xs) = y # ys \<Longrightarrow> length ys < length (x # xs)"
  using length_dropWhile_le [of P "x # xs"] by simp

lemma sorted_wrt_filter_append:
  "sorted_wrt P (xs @ ys) \<Longrightarrow> sorted_wrt P (filter Q xs @ filter Q ys)"
  by (metis filter_append sorted_wrt_filter)

section \<open>Codecs\<close>

locale codec =
  fixes enc :: "'a \<Rightarrow> 'b"
    and dec :: "'b \<Rightarrow> 'a option"
    and ok :: "'a \<Rightarrow> bool"
  assumes dec_enc: "ok x \<Longrightarrow> dec (enc x) = Some x"
begin

lemma enc_inj: "ok x \<Longrightarrow> ok y \<Longrightarrow> enc x = enc y \<Longrightarrow> x = y"
  by (metis dec_enc option.inject)

lemma enc_inj_on: "inj_on enc (Collect ok)"
  by (rule inj_onI) (auto intro: enc_inj)

lemma map_dec_enc: "\<forall>x\<in>set xs. ok x \<Longrightarrow> map dec (map enc xs) = map Some xs"
  by (induction xs) (auto simp: dec_enc)

end

section \<open>Invariants of step relations\<close>

text \<open>The interface of every state machine below: start states, steps, and an invariant that the
  start states have and the steps keep.\<close>

locale invariant_machine =
  fixes start :: "'s \<Rightarrow> bool"
    and step :: "'s \<Rightarrow> 's \<Rightarrow> bool"
    and inv :: "'s \<Rightarrow> bool"
  assumes inv_start: "start s \<Longrightarrow> inv s"
    and inv_step: "inv s \<Longrightarrow> step s t \<Longrightarrow> inv t"
begin

lemma inv_steps: "step\<^sup>*\<^sup>* s t \<Longrightarrow> inv s \<Longrightarrow> inv t"
  by (induction rule: rtranclp_induct) (auto intro: inv_step)

lemma reach_inv: "start s \<Longrightarrow> step\<^sup>*\<^sup>* s t \<Longrightarrow> inv t"
  by (blast intro: inv_start inv_steps)

end

end
