(* ===== verification/Client.thy ===== *)
theory Client
  imports Prelude "HOL-Library.Sublist"
begin

text \<open>
  \<^verbatim>\<open>internal/hub/client.go\<close>: one connection's outbound queue and its lifecycle. The queue is a
  buffered channel, \<open>closed\<close> a channel that is closed once. Go's \<open>select\<close> picks at random among
  the cases that are ready: where two are, the pick is an argument. The step relation runs a client
  against senders, killers and the reader of its queue, and remembers what was handed to \<open>send\<close> and
  what the reader took out.
\<close>

section \<open>The client\<close>

definition close_slow_consumer :: int where
  "close_slow_consumer = 4001"

definition close_server_error :: int where
  "close_server_error = 4002"

definition close_protocol_error :: int where
  "close_protocol_error = 4003"

record client =
  cl_cap :: nat
  cl_out :: "string list"
  cl_closed :: bool
  cl_once :: bool
  cl_code :: int
  cl_reason :: string

definition new_client :: "int \<Rightarrow> client" where
  "new_client buffer =
     (let buffer = (if buffer < 1 then 1 else buffer)
      in \<lparr>cl_cap = nat buffer, cl_out = [], cl_closed = False, cl_once = False, cl_code = 0, cl_reason = []\<rparr>)"

definition close_info :: "client \<Rightarrow> int \<times> string" where
  "close_info c = (cl_code c, cl_reason c)"

definition kill :: "client \<Rightarrow> int \<Rightarrow> string \<Rightarrow> client" where
  "kill c code reason =
     (if cl_once c then c
      else c\<lparr>cl_once := True, cl_code := code, cl_reason := reason, cl_closed := True\<rparr>)"

text \<open>\<open>pick\<close> is what the \<open>select\<close> chooses when the client is closed and the queue has room.\<close>

definition client_send :: "bool \<Rightarrow> client \<Rightarrow> string \<Rightarrow> client" where
  "client_send pick c b =
     (let has_room = length (cl_out c) < cl_cap c
      in if cl_closed c \<and> has_room then (if pick then c else c\<lparr>cl_out := cl_out c @ [b]\<rparr>)
         else if cl_closed c then c
         else if has_room then c\<lparr>cl_out := cl_out c @ [b]\<rparr>
         else kill c close_slow_consumer ''outbound queue full'')"

definition client_recv :: "client \<Rightarrow> (string \<times> client) option" where
  "client_recv c = (case cl_out c of [] \<Rightarrow> None | b # bs \<Rightarrow> Some (b, c\<lparr>cl_out := bs\<rparr>))"

section \<open>A client among its senders and its reader\<close>

text \<open>The client, the frames handed to \<open>send\<close>, the frames taken from the queue.\<close>

type_synonym client_run = "client \<times> string list \<times> string list"

inductive client_step :: "client_run \<Rightarrow> client_run \<Rightarrow> bool" where
  send: "client_step (c, sent, got) (client_send pick c b, sent @ [b], got)"
| kill: "client_step (c, sent, got) (kill c code reason, sent, got)"
| recv: "client_recv c = Some (b, c') \<Longrightarrow> client_step (c, sent, got) (c', sent, got @ [b])"

inductive_cases client_stepE: "client_step (c, sent, got) s"

definition client_start :: "client_run \<Rightarrow> bool" where
  "client_start s \<longleftrightarrow> (\<exists>n. s = (new_client n, [], []))"

definition client_inv :: "client_run \<Rightarrow> bool" where
  "client_inv = (\<lambda>(c, sent, got). 0 < cl_cap c \<and> length (cl_out c) \<le> cl_cap c \<and>
     (cl_closed c \<longleftrightarrow> cl_once c) \<and> subseq (got @ cl_out c) sent \<and>
     (\<not> cl_closed c \<longrightarrow> got @ cl_out c = sent))"

lemma kill_simps [simp]:
  "cl_out (kill c k r) = cl_out c" "cl_cap (kill c k r) = cl_cap c"
  "cl_once (kill c k r)"
  by (simp_all add: kill_def)

lemma kill_closed [simp]: "cl_closed c \<longleftrightarrow> cl_once c \<Longrightarrow> cl_closed (kill c k r)"
  by (simp add: kill_def)

lemma subseq_snoc: "subseq xs ys \<Longrightarrow> subseq (xs @ zs) (ys @ zs)"
  by (rule list_emb_append_mono) auto

lemma subseq_later: "subseq xs ys \<Longrightarrow> subseq xs (ys @ zs)"
  by (rule subseq_rev_drop_many)

lemma client_inv_send:
  assumes "client_inv (c, sent, got)"
  shows "client_inv (client_send pick c b, sent @ [b], got)"
  using assms subseq_snoc [of "got @ cl_out c" sent "[b]"] subseq_later [of "got @ cl_out c" sent "[b]"]
  by (auto simp: client_inv_def client_send_def Let_def)

interpretation client_machine: invariant_machine client_start client_step client_inv
proof unfold_locales
  fix s assume "client_start s"
  then show "client_inv s" by (auto simp: client_start_def client_inv_def new_client_def)
next
  fix s t assume "client_inv s" "client_step s t"
  from this(2,1) show "client_inv t"
  proof cases
    case (send c sent got pick b)
    with \<open>client_inv s\<close> show ?thesis by (simp add: client_inv_send)
  next
    case (kill c sent got code reason)
    with \<open>client_inv s\<close> show ?thesis by (auto simp: client_inv_def)
  next
    case (recv c b c' sent got)
    with \<open>client_inv s\<close> show ?thesis
      by (auto simp: client_inv_def client_recv_def split: list.splits)
  qed
qed

lemma closed_step:
  assumes "client_step (c, sent, got) (c', sent', got')" "cl_once c"
  shows "cl_once c' \<and> close_info c' = close_info c"
  using assms
  by (elim client_stepE)
    (auto simp: client_send_def kill_def client_recv_def close_info_def Let_def split: list.splits if_splits)

section \<open>Properties\<close>

text \<open>C27: nothing is skipped while the connection lives. However sends, kills and reads interleave
  from a new client, the queue keeps within its capacity and what was read and what is queued are in
  the order sent; and as long as the client has not been killed they are everything that was sent.\<close>

theorem live_client_skips_nothing:
  assumes "client_step\<^sup>*\<^sup>* (new_client n, [], []) (c, sent, got)"
  shows "length (cl_out c) \<le> cl_cap c \<and> subseq (got @ cl_out c) sent \<and>
    (\<not> cl_closed c \<longrightarrow> got @ cl_out c = sent)"
proof -
  have "client_start (new_client n, [], [])" by (auto simp: client_start_def)
  then have "client_inv (c, sent, got)" using assms by (rule client_machine.reach_inv)
  then show ?thesis by (simp add: client_inv_def)
qed

theorem live_client_skips_nothing_witness:
  "client_step\<^sup>*\<^sup>* (new_client 2, [], []) (client_send False (new_client 2) ''a'', [''a''], []) \<and>
    cl_out (client_send False (new_client 2) ''a'') = [''a'']"
proof -
  have s: "client_step\<^sup>*\<^sup>* (new_client 2, [], []) (client_send False (new_client 2) ''a'', [''a''], [])"
    using client_step.send [of "new_client 2" "[]" "[]" False "''a''"] by simp
  moreover have "\<not> cl_closed (client_send False (new_client 2) ''a'')"
    by (simp add: client_send_def new_client_def)
  ultimately show ?thesis using live_client_skips_nothing [OF s] by simp
qed

text \<open>The first kill decides. Once a client has been killed, no later kill, send or read changes
  its close code and reason, nor reopens it.\<close>

theorem first_kill_wins:
  assumes "client_step\<^sup>*\<^sup>* (kill c code reason, sent, got) (c', sent', got')" "\<not> cl_once c"
  shows "cl_once c' \<and> close_info c' = (code, reason)"
proof -
  have "client_step\<^sup>*\<^sup>* s t \<Longrightarrow> cl_once (fst s) \<Longrightarrow>
      cl_once (fst t) \<and> close_info (fst t) = close_info (fst s)" for s t
    by (induction rule: rtranclp_induct) (metis closed_step prod.collapse)+
  from this [OF assms(1)] assms(2) show ?thesis
    by (simp add: kill_def close_info_def)
qed

theorem first_kill_wins_witness:
  "close_info (kill (kill (new_client 1) 4001 ''slow'') 4002 ''shutdown'') = (4001, ''slow'')"
proof -
  have "client_step\<^sup>*\<^sup>* (kill (new_client 1) 4001 ''slow'', [], [])
      (kill (kill (new_client 1) 4001 ''slow'') 4002 ''shutdown'', [], [])"
    by (intro r_into_rtranclp client_step.kill)
  moreover have "\<not> cl_once (new_client 1)" by (simp add: new_client_def)
  ultimately show ?thesis using first_kill_wins by blast
qed

text \<open>A killed connection can skip a frame. The frame that overflows a queue is dropped and the
  client killed, but a later send may still be queued and, if the reader does not look at \<open>Closed\<close>
  first, read: the client then sees the frames around the missing one.\<close>

theorem overflow_skips_a_frame:
  "\<exists>c. client_step\<^sup>*\<^sup>* (new_client 1, [], []) (c, [b1, b2, b3], [b1, b3]) \<and>
    close_info c = (close_slow_consumer, ''outbound queue full'')"
proof -
  let ?c1 = "(new_client 1)\<lparr>cl_out := [b1]\<rparr>"
  let ?k = "kill (new_client 1) close_slow_consumer ''outbound queue full''"
  have "client_step (new_client 1, [], []) (?c1, [b1], [])"
    using client_step.send [of "new_client 1" "[]" "[]" False b1]
    by (simp add: client_send_def new_client_def)
  moreover have "client_step (?c1, [b1], []) (?k\<lparr>cl_out := [b1]\<rparr>, [b1, b2], [])"
    using client_step.send [of ?c1 "[b1]" "[]" False b2]
    by (simp add: client_send_def new_client_def kill_def)
  moreover have "client_step (?k\<lparr>cl_out := [b1]\<rparr>, [b1, b2], []) (?k, [b1, b2], [b1])"
    using client_step.recv [of "?k\<lparr>cl_out := [b1]\<rparr>" b1 ?k "[b1, b2]" "[]"]
    by (simp add: client_recv_def new_client_def kill_def)
  moreover have "client_step (?k, [b1, b2], [b1]) (?k\<lparr>cl_out := [b3]\<rparr>, [b1, b2, b3], [b1])"
    using client_step.send [of ?k "[b1, b2]" "[b1]" False b3]
    by (simp add: client_send_def new_client_def kill_def)
  moreover have "client_step (?k\<lparr>cl_out := [b3]\<rparr>, [b1, b2, b3], [b1]) (?k, [b1, b2, b3], [b1, b3])"
    using client_step.recv [of "?k\<lparr>cl_out := [b3]\<rparr>" b3 ?k "[b1, b2, b3]" "[b1]"]
    by (simp add: client_recv_def new_client_def kill_def)
  ultimately have "client_step\<^sup>*\<^sup>* (new_client 1, [], []) (?k, [b1, b2, b3], [b1, b3])"
    by (meson converse_rtranclp_into_rtranclp rtranclp.rtrancl_refl)
  then show ?thesis by (auto simp: close_info_def kill_def new_client_def)
qed

end
