(* ===== verification/Utf8.thy ===== *)
theory Utf8
  imports Prelude
begin

text \<open>
  What the program uses of Go's packages \<open>unicode/utf8\<close> and \<open>unicode/utf16\<close>: decoding the
  first rune of a string, encoding a rune, validity of a whole string, and the replacement
  of malformed bytes by U+FFFD that \<open>encoding/json\<close> performs. The decoder follows the
  acceptance table of the standard library (overlong forms, surrogates and code points above
  U+10FFFF are malformed and have width 1).
\<close>

definition rune_error :: nat where
  "rune_error = 0xFFFD"

definition rune_scalar :: "nat \<Rightarrow> bool" where
  "rune_scalar r \<longleftrightarrow> r < 0xD800 \<or> (0xDFFF < r \<and> r \<le> 0x10FFFF)"

definition cont_byte :: "char \<Rightarrow> bool" where
  "cont_byte c \<longleftrightarrow> 0x80 \<le> byte c \<and> byte c \<le> 0xBF"

text \<open>The lowest and highest second byte that may follow a lead byte of three or four.\<close>

definition second_ok :: "nat \<Rightarrow> char \<Rightarrow> bool" where
  "second_ok lead c \<longleftrightarrow>
     (if lead = 0xE0 then 0xA0 else if lead = 0xF0 then 0x90 else 0x80) \<le> byte c \<and>
     byte c \<le> (if lead = 0xED then 0x9F else if lead = 0xF4 then 0x8F else 0xBF)"

fun decode_rune :: "string \<Rightarrow> nat \<times> nat" where
  "decode_rune [] = (rune_error, 0)"
| "decode_rune (c # s) =
     (if byte c < 0x80 then (byte c, 1)
      else if 0xC2 \<le> byte c \<and> byte c \<le> 0xDF then
        (case s of
           c1 # _ \<Rightarrow> if cont_byte c1 then ((byte c - 0xC0) * 64 + (byte c1 - 0x80), 2)
                      else (rune_error, 1)
         | [] \<Rightarrow> (rune_error, 1))
      else if 0xE0 \<le> byte c \<and> byte c \<le> 0xEF then
        (case s of
           c1 # c2 # _ \<Rightarrow>
             if second_ok (byte c) c1 \<and> cont_byte c2
             then ((byte c - 0xE0) * 4096 + (byte c1 - 0x80) * 64 + (byte c2 - 0x80), 3)
             else (rune_error, 1)
         | _ \<Rightarrow> (rune_error, 1))
      else if 0xF0 \<le> byte c \<and> byte c \<le> 0xF4 then
        (case s of
           c1 # c2 # c3 # _ \<Rightarrow>
             if second_ok (byte c) c1 \<and> cont_byte c2 \<and> cont_byte c3
             then ((byte c - 0xF0) * 262144 + (byte c1 - 0x80) * 4096 +
                   (byte c2 - 0x80) * 64 + (byte c3 - 0x80), 4)
             else (rune_error, 1)
         | _ \<Rightarrow> (rune_error, 1))
      else (rune_error, 1))"

text \<open>\<open>utf8.EncodeRune\<close>: a rune that is no scalar value is encoded as U+FFFD.\<close>

definition encode_scalar :: "nat \<Rightarrow> string" where
  "encode_scalar r =
     (if r < 0x80 then [char_of r]
      else if r < 0x800 then [char_of (0xC0 + r div 64), char_of (0x80 + r mod 64)]
      else if r < 0x10000 then
        [char_of (0xE0 + r div 4096), char_of (0x80 + r div 64 mod 64), char_of (0x80 + r mod 64)]
      else
        [char_of (0xF0 + r div 262144), char_of (0x80 + r div 4096 mod 64),
         char_of (0x80 + r div 64 mod 64), char_of (0x80 + r mod 64)])"

definition encode_rune :: "nat \<Rightarrow> string" where
  "encode_rune r = encode_scalar (if rune_scalar r then r else rune_error)"

text \<open>A malformed byte is the replacement rune at width 1: a genuine U+FFFD has width 3.\<close>

definition bad_rune :: "string \<Rightarrow> bool" where
  "bad_rune s \<longleftrightarrow> decode_rune s = (rune_error, 1)"

definition rune_width :: "string \<Rightarrow> nat" where
  "rune_width s = snd (decode_rune s)"

section \<open>Decoding and encoding are inverse\<close>

lemma rune_width_pos: "s \<noteq> [] \<Longrightarrow> 0 < rune_width s"
  by (cases s) (auto simp: rune_width_def split: list.splits)

lemma encode_scalar_length: "0 < length (encode_scalar r)"
  by (simp add: encode_scalar_def)

lemma rune_scalar_error [simp]: "rune_scalar rune_error"
  by (simp add: rune_scalar_def rune_error_def)

lemma decode_two:
  assumes "2 \<le> a" "a \<le> 31" "b \<le> 63"
  shows "decode_rune (char_of (0xC0 + a) # char_of (0x80 + b) # s) = (a * 64 + b, 2)"
  using assms by (simp add: cont_byte_def)

lemma decode_three:
  assumes "a \<le> 15" "b \<le> 63" "c \<le> 63" "a = 0 \<longrightarrow> 32 \<le> b" "a = 13 \<longrightarrow> b \<le> 31"
  shows "decode_rune (char_of (0xE0 + a) # char_of (0x80 + b) # char_of (0x80 + c) # s)
    = (a * 4096 + b * 64 + c, 3)"
  using assms by (simp add: cont_byte_def second_ok_def)

lemma decode_four:
  assumes "a \<le> 4" "b \<le> 63" "c \<le> 63" "d \<le> 63" "a = 0 \<longrightarrow> 16 \<le> b" "a = 4 \<longrightarrow> b \<le> 15"
  shows "decode_rune (char_of (0xF0 + a) # char_of (0x80 + b) # char_of (0x80 + c) #
      char_of (0x80 + d) # s) = (a * 262144 + b * 4096 + c * 64 + d, 4)"
  using assms by (simp add: cont_byte_def second_ok_def)

text \<open>Base-64 digits of a code point: the payload bits of the continuation bytes.\<close>

lemma divmod_64: "c \<le> 63 \<Longrightarrow> (x * 64 + c) div 64 = (x::nat) \<and> (x * 64 + c) mod 64 = c"
  by simp

lemma div_4096: "(n::nat) div 4096 = n div 64 div 64"
  by (simp flip: div_mult2_eq)

lemma div_262144: "(n::nat) div 262144 = n div 64 div 64 div 64"
  by (simp flip: div_mult2_eq)

lemma encode_two:
  assumes "2 \<le> a" "a \<le> 31" "b \<le> 63"
  shows "encode_scalar (a * 64 + b) = [char_of (0xC0 + a), char_of (0x80 + b)]"
  using assms divmod_64 [of b a] by (simp add: encode_scalar_def)

lemma encode_three:
  assumes "a \<le> 15" "b \<le> 63" "c \<le> 63" "a = 0 \<longrightarrow> 32 \<le> b"
  shows "encode_scalar (a * 4096 + b * 64 + c)
    = [char_of (0xE0 + a), char_of (0x80 + b), char_of (0x80 + c)]"
proof -
  have r: "a * 4096 + b * 64 + c = (a * 64 + b) * 64 + c" by simp
  have "\<not> a * 4096 + b * 64 + c < 0x800" using assms by (cases "a = 0") auto
  moreover have "a * 4096 + b * 64 + c < 0x10000" using assms by simp
  ultimately show ?thesis
    unfolding r encode_scalar_def div_4096
    using assms divmod_64 [of c "a * 64 + b"] divmod_64 [of b a] by simp
qed

lemma encode_four:
  assumes "a \<le> 4" "b \<le> 63" "c \<le> 63" "d \<le> 63" "a = 0 \<longrightarrow> 16 \<le> b"
  shows "encode_scalar (a * 262144 + b * 4096 + c * 64 + d)
    = [char_of (0xF0 + a), char_of (0x80 + b), char_of (0x80 + c), char_of (0x80 + d)]"
proof -
  have r: "a * 262144 + b * 4096 + c * 64 + d = ((a * 64 + b) * 64 + c) * 64 + d" by simp
  have "\<not> a * 262144 + b * 4096 + c * 64 + d < 0x10000" using assms by (cases "a = 0") auto
  then show ?thesis
    unfolding r encode_scalar_def div_262144 div_4096
    using assms divmod_64 [of d "(a * 64 + b) * 64 + c"] divmod_64 [of c "a * 64 + b"]
      divmod_64 [of b a] by simp
qed

lemma nat_base_64: "(n::nat) = n div 64 * 64 + n mod 64" "n mod 64 \<le> 63"
  by simp_all

lemma scalar_cases:
  assumes "rune_scalar r"
  obtains (one) "r < 0x80"
  | (two) a b where "r = a * 64 + b" "2 \<le> a" "a \<le> 31" "b \<le> 63"
  | (three) a b c where "r = a * 4096 + b * 64 + c" "a \<le> 15" "b \<le> 63" "c \<le> 63"
      "a = 0 \<longrightarrow> 32 \<le> b" "a = 13 \<longrightarrow> b \<le> 31"
  | (four) a b c d where "r = a * 262144 + b * 4096 + c * 64 + d" "a \<le> 4" "b \<le> 63" "c \<le> 63"
      "d \<le> 63" "a = 0 \<longrightarrow> 16 \<le> b" "a = 4 \<longrightarrow> b \<le> 15"
proof -
  define d c b a where "d = r mod 64" and "c = r div 64 mod 64" and "b = r div 64 div 64 mod 64"
    and "a = r div 64 div 64 div 64"
  have bnd: "b \<le> 63" "c \<le> 63" "d \<le> 63" by (simp_all add: b_def c_def d_def)
  have "r = ((a * 64 + b) * 64 + c) * 64 + d"
    unfolding a_def b_def c_def d_def using nat_base_64 by simp
  then have r: "r = a * 262144 + b * 4096 + c * 64 + d" by simp
  consider "r < 0x80" | "0x80 \<le> r" "r < 0x800" | "0x800 \<le> r" "r < 0x10000"
    | "0x10000 \<le> r" "r \<le> 0x10FFFF"
    using assms by (force simp: rune_scalar_def)
  then show thesis
  proof cases
    case 1
    then show thesis by (rule one)
  next
    case 2
    with r bnd have "a < 1" "b < 1" by linarith+
    with r bnd 2 show thesis by (intro two [of c d]) linarith+
  next
    case 3
    with r bnd have "a < 1" by linarith
    with r bnd 3 assms show thesis unfolding rune_scalar_def by (intro three [of b c d]) linarith+
  next
    case 4
    with r bnd show thesis by (intro four [of a b c d]) linarith+
  qed
qed

lemma decode_encode_scalar:
  assumes "rune_scalar r"
  shows "decode_rune (encode_scalar r @ s) = (r, length (encode_scalar r))"
  using assms
proof (cases rule: scalar_cases)
  case one
  then show ?thesis by (simp add: encode_scalar_def)
next
  case (two a b)
  then show ?thesis by (simp only: encode_two append.simps decode_two) simp
next
  case (three a b c)
  then show ?thesis by (simp only: encode_three append.simps decode_three) simp
next
  case (four a b c d)
  then show ?thesis by (simp only: encode_four append.simps decode_four) simp
qed

text \<open>Conversely, what the decoder accepts is exactly the encoding of the rune it returns.\<close>

lemma byte_minus: "m \<le> byte c \<Longrightarrow> char_of (m + (byte c - m)) = c"
  by simp

lemma three_bytes_sound:
  assumes "0xE0 \<le> byte c" "byte c \<le> 0xEF" "second_ok (byte c) c1" "cont_byte c2"
  shows "\<exists>r. rune_scalar r \<and> encode_scalar r = [c, c1, c2]"
proof -
  let ?b = "byte c"
  let ?a = "?b - 0xE0" and ?c = "byte c1 - 0x80" and ?d = "byte c2 - 0x80"
  have c1: "0x80 \<le> byte c1" "byte c1 \<le> 0xBF" "?b = 0xE0 \<longrightarrow> 0xA0 \<le> byte c1"
    "?b = 0xED \<longrightarrow> byte c1 \<le> 0x9F"
    using assms(3) by (auto simp: second_ok_def split: if_splits)
  have "encode_scalar (?a * 4096 + ?c * 64 + ?d) = [c, c1, c2]"
    using assms(1,2) c1 assms(4) by (subst encode_three) (auto simp: cont_byte_def byte_minus)
  moreover have "rune_scalar (?a * 4096 + ?c * 64 + ?d)"
  proof (cases "?b \<le> 0xED")
    case True
    then have "?a * 4096 + ?c * 64 + ?d < 0xD800"
      using assms(1,2) c1 assms(4) unfolding cont_byte_def by (cases "?b = 0xED") linarith+
    then show ?thesis by (simp add: rune_scalar_def)
  next
    case False
    then have "0xDFFF < ?a * 4096 + ?c * 64 + ?d" "?a * 4096 + ?c * 64 + ?d \<le> 0x10FFFF"
      using assms(1,2) c1 assms(4) unfolding cont_byte_def by linarith+
    then show ?thesis by (simp add: rune_scalar_def)
  qed
  ultimately show ?thesis by blast
qed

lemma four_bytes_sound:
  assumes "0xF0 \<le> byte c" "byte c \<le> 0xF4" "second_ok (byte c) c1" "cont_byte c2" "cont_byte c3"
  shows "\<exists>r. rune_scalar r \<and> encode_scalar r = [c, c1, c2, c3]"
proof -
  let ?b = "byte c"
  let ?a = "?b - 0xF0" and ?c = "byte c1 - 0x80" and ?d = "byte c2 - 0x80" and ?e = "byte c3 - 0x80"
  let ?r = "?a * 262144 + ?c * 4096 + ?d * 64 + ?e"
  have c1: "0x80 \<le> byte c1" "byte c1 \<le> 0xBF" "?b = 0xF0 \<longrightarrow> 0x90 \<le> byte c1"
    "?b = 0xF4 \<longrightarrow> byte c1 \<le> 0x8F"
    using assms(3) by (auto simp: second_ok_def split: if_splits)
  have "encode_scalar ?r = [c, c1, c2, c3]"
    using assms(1,2) c1 assms(4,5) by (subst encode_four) (auto simp: cont_byte_def byte_minus)
  moreover have "0x10000 \<le> ?r"
    using assms(1,2) c1 assms(4,5) unfolding cont_byte_def by (cases "?b = 0xF0") linarith+
  moreover have "?r \<le> 0x10FFFF"
    using assms(1,2) c1 assms(4,5) unfolding cont_byte_def by (cases "?b = 0xF4") linarith+
  ultimately show ?thesis by (intro exI [of _ ?r]) (simp add: rune_scalar_def)
qed

lemma decode_rune_sound:
  assumes "\<not> bad_rune s" "s \<noteq> []"
  obtains r t where "rune_scalar r" "s = encode_scalar r @ t"
proof (cases s)
  case (Cons c s')
  let ?b = "byte c"
  consider "?b < 0x80" | "0xC2 \<le> ?b" "?b \<le> 0xDF" | "0xE0 \<le> ?b" "?b \<le> 0xEF"
    | "0xF0 \<le> ?b" "?b \<le> 0xF4"
    using assms(1) Cons unfolding bad_rune_def by (auto split: if_splits)
  then show thesis
  proof cases
    case 1
    then have "rune_scalar ?b" "s = encode_scalar ?b @ s'"
      using Cons by (simp_all add: rune_scalar_def encode_scalar_def)
    then show thesis by (rule that)
  next
    case 2
    then obtain c1 t where s': "s' = c1 # t" "cont_byte c1"
      using assms(1) Cons unfolding bad_rune_def by (auto split: list.splits if_splits)
    let ?a = "?b - 0xC0" and ?c = "byte c1 - 0x80"
    have "encode_scalar (?a * 64 + ?c) = [c, c1]"
      using 2 s'(2) by (subst encode_two) (auto simp: cont_byte_def byte_minus)
    moreover have "?a * 64 + ?c < 0xD800"
      using 2 s'(2) unfolding cont_byte_def by linarith
    then have "rune_scalar (?a * 64 + ?c)"
      by (simp only: rune_scalar_def simp_thms)
    ultimately show thesis using that [of "?a * 64 + ?c" t] Cons s'(1) by simp
  next
    case 3
    then obtain c1 c2 t where s': "s' = c1 # c2 # t" "second_ok ?b c1" "cont_byte c2"
      using assms(1) Cons unfolding bad_rune_def by (auto split: list.splits if_splits)
    from three_bytes_sound [OF 3 s'(2,3)] obtain r where "rune_scalar r" "encode_scalar r = [c, c1, c2]" by blast
    then show thesis using that [of r t] Cons s'(1) by simp
  next
    case 4
    then obtain c1 c2 c3 t where s': "s' = c1 # c2 # c3 # t" "second_ok ?b c1" "cont_byte c2"
      "cont_byte c3"
      using assms(1) Cons unfolding bad_rune_def by (auto split: list.splits if_splits)
    from four_bytes_sound [OF 4 s'(2-4)] obtain r where "rune_scalar r" "encode_scalar r = [c, c1, c2, c3]" by blast
    then show thesis using that [of r t] Cons s'(1) by simp
  qed
qed (use assms in simp)

lemma length_encode_rune_error: "length (encode_scalar rune_error) = 3"
  by (simp add: encode_scalar_def rune_error_def)

lemma bad_rune_encode [simp]: "rune_scalar r \<Longrightarrow> \<not> bad_rune (encode_scalar r @ s)"
  using length_encode_rune_error by (auto simp: bad_rune_def decode_encode_scalar)

lemma encode_scalar_neq_Nil [simp]: "encode_scalar r \<noteq> []"
  using encode_scalar_length [of r] by force

lemma encode_rune_scalar [simp]: "rune_scalar r \<Longrightarrow> encode_rune r = encode_scalar r"
  by (simp add: encode_rune_def)

section \<open>Validity and replacement\<close>

fun utf8_valid :: "string \<Rightarrow> bool" where
  "utf8_valid [] = True"
| "utf8_valid (c # s) =
     (\<not> bad_rune (c # s) \<and> utf8_valid (drop (rune_width (c # s) - 1) s))"

text \<open>Every malformed byte becomes one U+FFFD, everything else is kept.\<close>

fun to_valid :: "string \<Rightarrow> string" where
  "to_valid [] = []"
| "to_valid (c # s) =
     (let w = rune_width (c # s)
      in (if bad_rune (c # s) then encode_rune rune_error else take w (c # s)) @
         to_valid (drop (w - 1) s))"

lemma drop_Suc_minus: "0 < w \<Longrightarrow> drop (w - 1) s = drop w (c # s)"
  by (cases w) auto

lemma unfold_drop_rune:
  assumes "rune_scalar r" "encode_scalar r @ s = c # u"
  shows "drop (rune_width (c # u) - 1) u = s"
proof -
  have "drop (rune_width (c # u) - 1) u = drop (rune_width (c # u)) (c # u)"
    using rune_width_pos [of "c # u"] by (intro drop_Suc_minus) simp
  then show ?thesis
    by (simp flip: assms(2) add: rune_width_def decode_encode_scalar [OF assms(1)])
qed

lemma utf8_valid_encode_append [simp]:
  "rune_scalar r \<Longrightarrow> utf8_valid (encode_scalar r @ s) = utf8_valid s"
  using unfold_drop_rune [of r s] bad_rune_encode [of r s]
  by (cases "encode_scalar r @ s") auto

lemma to_valid_encode_append [simp]:
  assumes "rune_scalar r"
  shows "to_valid (encode_scalar r @ s) = encode_scalar r @ to_valid s"
proof (cases "encode_scalar r @ s")
  case (Cons c u)
  have "take (rune_width (c # u)) (c # u) = encode_scalar r"
    by (simp flip: Cons add: rune_width_def decode_encode_scalar [OF assms])
  then show ?thesis
    using unfold_drop_rune [OF assms Cons] bad_rune_encode [OF assms, of s]
    by (simp add: Cons Let_def)
qed simp

lemma bad_rune_width: "bad_rune s \<Longrightarrow> rune_width s = 1"
  by (simp add: bad_rune_def rune_width_def)

lemma to_valid_bad [simp]: "bad_rune (c # s) \<Longrightarrow> to_valid (c # s) = encode_rune rune_error @ to_valid s"
  by (simp add: bad_rune_width)

lemma utf8_valid_bad [simp]: "bad_rune (c # s) \<Longrightarrow> utf8_valid (c # s) = False"
  by simp

declare utf8_valid.simps(2) [simp del] to_valid.simps(2) [simp del]

text \<open>Any byte string is a sequence of well-formed runes and malformed bytes.\<close>

lemma rune_induct [case_names nil bad good]:
  assumes "P []"
    and "\<And>c s. bad_rune (c # s) \<Longrightarrow> P s \<Longrightarrow> P (c # s)"
    and "\<And>r s. rune_scalar r \<Longrightarrow> P s \<Longrightarrow> P (encode_scalar r @ s)"
  shows "P s"
proof (induction s rule: length_induct)
  case (1 s)
  show ?case
  proof (cases s)
    case (Cons c s')
    show ?thesis
    proof (cases "bad_rune s")
      case True
      with 1 Cons show ?thesis by (auto intro: assms(2))
    next
      case False
      then obtain r t where "rune_scalar r" "s = encode_scalar r @ t"
        using Cons by (auto elim: decode_rune_sound)
      with 1 encode_scalar_length [of r] show ?thesis by (auto intro: assms(3))
    qed
  qed (simp add: assms(1))
qed

lemma valid_induct [consumes 1, case_names nil rune]:
  assumes "utf8_valid s" "P []"
    and "\<And>r s. rune_scalar r \<Longrightarrow> utf8_valid s \<Longrightarrow> P s \<Longrightarrow> P (encode_scalar r @ s)"
  shows "P s"
  using assms(1) by (induction s rule: rune_induct) (auto intro: assms(2,3))

lemma to_valid_id [simp]: "utf8_valid s \<Longrightarrow> to_valid s = s"
  by (induction s rule: valid_induct) auto

lemma utf8_valid_to_valid [simp]: "utf8_valid (to_valid s)"
  by (induction s rule: rune_induct) auto

lemma to_valid_eq_Nil [simp]: "to_valid s = [] \<longleftrightarrow> s = []"
  by (induction s rule: rune_induct) auto

lemma utf8_valid_append [intro]: "utf8_valid s \<Longrightarrow> utf8_valid t \<Longrightarrow> utf8_valid (s @ t)"
  by (induction s rule: valid_induct) auto

lemma utf8_valid_encode_rune [simp]: "utf8_valid (encode_rune r)"
  using utf8_valid_encode_append [of "if rune_scalar r then r else rune_error" "[]"]
  by (simp add: encode_rune_def)

lemma utf8_valid_encode_scalar [simp]: "rune_scalar r \<Longrightarrow> utf8_valid (encode_scalar r)"
  using utf8_valid_encode_append [of r "[]"] by simp

lemma ascii_encode: "byte c < 0x80 \<Longrightarrow> encode_scalar (byte c) = [c]"
  by (simp add: encode_scalar_def)

lemma rune_scalar_byte: "byte c < 0x80 \<Longrightarrow> rune_scalar (byte c)"
  by (simp add: rune_scalar_def)

lemma utf8_valid_ascii_Cons [simp]: "byte c < 0x80 \<Longrightarrow> utf8_valid (c # s) = utf8_valid s"
  using utf8_valid_encode_append [of "byte c" s] by (simp add: ascii_encode rune_scalar_byte)

lemma ascii_valid: "\<forall>c\<in>set s. byte c < 0x80 \<Longrightarrow> utf8_valid s"
  by (induction s) auto

end
