(* ===== verification/GoText.thy ===== *)
theory GoText
  imports Utf8
begin

text \<open>
  What the program uses of Go's \<open>strconv\<close>, \<open>strings\<close>, \<open>encoding/hex\<close> and
  \<open>encoding/base64\<close>, over byte strings: decimal numbers with the range checks of the 64-bit
  parsers, white-space trimming by runes, splitting and cutting, and the two encodings with the
  decoders' exact leniency (base64 skips carriage returns and newlines and ignores the unused
  bits of a last partial group). Each encoder and decoder pair is an instance of \<open>codec\<close>.
\<close>

section \<open>Decimal numbers\<close>

definition is_digit :: "char \<Rightarrow> bool" where
  "is_digit c \<longleftrightarrow> 48 \<le> byte c \<and> byte c \<le> 57"

definition digit_char :: "nat \<Rightarrow> char" where
  "digit_char d = char_of (48 + d)"

fun nat_str :: "nat \<Rightarrow> string" where
  "nat_str n = (if n < 10 then [digit_char n] else nat_str (n div 10) @ [digit_char (n mod 10)])"

declare nat_str.simps [simp del]

definition int_str :: "int \<Rightarrow> string" where
  "int_str i = (if i < 0 then CHR ''-'' # nat_str (nat (- i)) else nat_str (nat i))"

definition digits_val :: "string \<Rightarrow> nat" where
  "digits_val s = foldl (\<lambda>a c. a * 10 + (byte c - 48)) 0 s"

text \<open>\<open>strconv.ParseUint(s, 10, 64)\<close> and \<open>strconv.ParseInt(s, 10, 64)\<close>; \<open>Atoi\<close> is the
  latter on a 64-bit platform. \<open>None\<close> is either of their errors.\<close>

definition parse_uint :: "string \<Rightarrow> u64 option" where
  "parse_uint s =
     (if s \<noteq> [] \<and> list_all is_digit s \<and> digits_val s < 2 ^ 64
      then Some (of_nat (digits_val s)) else None)"

definition int64_range :: "int \<Rightarrow> bool" where
  "int64_range i \<longleftrightarrow> - (2 ^ 63) \<le> i \<and> i < 2 ^ 63"

text \<open>The arithmetic of \<open>int\<close> and \<open>int64\<close>, which wraps around.\<close>

definition wrap64 :: "int \<Rightarrow> int" where
  "wrap64 i = sint (word_of_int i :: 64 word)"

lemma wrap64_id [simp]: "int64_range i \<Longrightarrow> wrap64 i = i"
  by (simp add: wrap64_def int64_range_def signed_of_int signed_take_bit_int_eq_self)

definition parse_int :: "string \<Rightarrow> int option" where
  "parse_int s =
     (let neg = (s \<noteq> [] \<and> hd s = CHR ''-'');
          ds = (if s \<noteq> [] \<and> (hd s = CHR ''-'' \<or> hd s = CHR ''+'') then tl s else s);
          v = (if neg then - int (digits_val ds) else int (digits_val ds))
      in if ds \<noteq> [] \<and> list_all is_digit ds \<and> int64_range v then Some v else None)"

lemma is_digit_digit_char [simp]: "d < 10 \<Longrightarrow> is_digit (digit_char d)"
  by (simp add: is_digit_def digit_char_def)

lemma byte_digit_char [simp]: "d < 10 \<Longrightarrow> byte (digit_char d) = 48 + d"
  by (simp add: digit_char_def)

lemma digits_val_snoc: "digits_val (s @ [c]) = digits_val s * 10 + (byte c - 48)"
  by (simp add: digits_val_def)

lemma nat_str_digits: "list_all is_digit (nat_str n)"
proof (induction n rule: nat_str.induct)
  case (1 n)
  then show ?case by (subst nat_str.simps) simp
qed

lemma nat_str_neq_Nil [simp]: "nat_str n \<noteq> []"
  by (subst nat_str.simps) simp

lemma digits_val_nat_str: "digits_val (nat_str n) = n"
proof (induction n rule: nat_str.induct)
  case (1 n)
  show ?case
  proof (cases "n < 10")
    case True
    then show ?thesis by (subst nat_str.simps) (simp add: digits_val_def)
  next
    case False
    with 1 show ?thesis by (subst nat_str.simps) (simp add: digits_val_snoc)
  qed
qed

lemma hd_nat_str_digit: "is_digit (hd (nat_str n))"
  using nat_str_digits [of n] by (cases "nat_str n") auto

lemma nat_str_no_leading_zero: "nat_str n = CHR ''0'' # ds \<Longrightarrow> ds = []"
proof (induction n arbitrary: ds rule: nat_str.induct)
  case (1 n)
  show ?case
  proof (cases "n < 10")
    case True
    with 1 show ?thesis by (subst (asm) nat_str.simps) simp
  next
    case False
    obtain e es where e: "nat_str (n div 10) = e # es" by (meson nat_str_neq_Nil neq_Nil_conv)
    with 1 False have "e = CHR ''0''" by (subst (asm) (2) nat_str.simps) simp
    with 1 False e have "digits_val (nat_str (n div 10)) = 0"
      by (simp add: digits_val_def)
    with False show ?thesis by (simp add: digits_val_nat_str)
  qed
qed

lemma parse_uint_nat_str [simp]: "n < 2 ^ 64 \<Longrightarrow> parse_uint (nat_str n) = Some (of_nat n)"
  by (simp add: parse_uint_def digits_val_nat_str nat_str_digits)

lemma parse_int_int_str [simp]:
  assumes "int64_range i"
  shows "parse_int (int_str i) = Some i"
proof (cases "i < 0")
  case True
  with assms show ?thesis
    by (simp add: parse_int_def int_str_def digits_val_nat_str nat_str_digits)
next
  case False
  have "hd (nat_str (nat i)) \<noteq> CHR ''-''" "hd (nat_str (nat i)) \<noteq> CHR ''+''"
    using hd_nat_str_digit [of "nat i"] by (auto simp: is_digit_def)
  with False assms show ?thesis
    by (simp add: parse_int_def int_str_def digits_val_nat_str nat_str_digits Let_def)
qed

interpretation uint_text: codec "\<lambda>w::u64. nat_str (unat w)" parse_uint "\<lambda>_. True"
  by unfold_locales simp

interpretation int_text: codec int_str parse_int int64_range
  by unfold_locales simp

section \<open>Hexadecimal\<close>

definition hex_digit :: "nat \<Rightarrow> char" where
  "hex_digit d = (if d < 10 then char_of (48 + d) else char_of (87 + d))"

definition hex_val :: "char \<Rightarrow> nat option" where
  "hex_val c =
     (if 48 \<le> byte c \<and> byte c \<le> 57 then Some (byte c - 48)
      else if 97 \<le> byte c \<and> byte c \<le> 102 then Some (byte c - 87)
      else if 65 \<le> byte c \<and> byte c \<le> 70 then Some (byte c - 55)
      else None)"

fun hex_encode :: "string \<Rightarrow> string" where
  "hex_encode [] = []"
| "hex_encode (c # s) = hex_digit (byte c div 16) # hex_digit (byte c mod 16) # hex_encode s"

fun hex_decode :: "string \<Rightarrow> string option" where
  "hex_decode [] = Some []"
| "hex_decode [c] = None"
| "hex_decode (c # d # s) =
     (case (hex_val c, hex_val d, hex_decode s) of
        (Some a, Some b, Some t) \<Rightarrow> Some (char_of (a * 16 + b) # t)
      | _ \<Rightarrow> None)"

lemma hex_val_digit [simp]: "d < 16 \<Longrightarrow> hex_val (hex_digit d) = Some d"
  by (simp add: hex_val_def hex_digit_def)

lemma byte_hex_parts: "byte c div 16 < 16" "byte c mod 16 < 16"
  "byte c div 16 * 16 + byte c mod 16 = byte c"
proof -
  show "byte c div 16 < 16" using byte_less_256 [of c] by linarith
qed simp_all

lemma hex_decode_encode [simp]: "hex_decode (hex_encode s) = Some s"
proof (induction s)
  case (Cons c s)
  then show ?case using byte_hex_parts [of c] by simp
qed simp

lemma length_hex_encode [simp]: "length (hex_encode s) = 2 * length s"
  by (induction s) auto

interpretation hex: codec hex_encode hex_decode "\<lambda>_. True"
  by unfold_locales simp

lemma byte_hex_digit: "d < 16 \<Longrightarrow> byte (hex_digit d) = (if d < 10 then 48 + d else 87 + d)"
  by (simp add: hex_digit_def)

lemma hex_encode_ascii: "\<forall>c\<in>set (hex_encode s). 48 \<le> byte c \<and> byte c < 0x80"
proof (induction s)
  case (Cons c s)
  have "\<forall>d<16. 48 \<le> byte (hex_digit d) \<and> byte (hex_digit d) < 0x80"
    by (simp add: byte_hex_digit)
  with Cons byte_hex_parts [of c] show ?case by simp
qed simp

section \<open>Base64\<close>

definition b64_std :: string where
  "b64_std = ''ABCDEFGHIJKLMNOPQRSTUVWXYZabcdefghijklmnopqrstuvwxyz0123456789+/''"

definition b64_url :: string where
  "b64_url = ''ABCDEFGHIJKLMNOPQRSTUVWXYZabcdefghijklmnopqrstuvwxyz0123456789-_''"

fun index_of :: "'a \<Rightarrow> 'a list \<Rightarrow> nat option" where
  "index_of x [] = None"
| "index_of x (y # ys) = (if x = y then Some 0 else map_option Suc (index_of x ys))"

fun b64_encode :: "string \<Rightarrow> bool \<Rightarrow> string \<Rightarrow> string" where
  "b64_encode al pad [] = []"
| "b64_encode al pad [x] =
     al ! (byte x div 4) # al ! (byte x mod 4 * 16) # (if pad then ''=='' else [])"
| "b64_encode al pad [x, y] =
     al ! (byte x div 4) # al ! (byte x mod 4 * 16 + byte y div 16) #
     al ! (byte y mod 16 * 4) # (if pad then ''='' else [])"
| "b64_encode al pad (x # y # z # s) =
     al ! (byte x div 4) # al ! (byte x mod 4 * 16 + byte y div 16) #
     al ! (byte y mod 16 * 4 + byte z div 64) # al ! (byte z mod 64) # b64_encode al pad s"

definition b64_one :: "nat \<Rightarrow> nat \<Rightarrow> char" where
  "b64_one a b = char_of (a * 4 + b div 16)"

definition b64_two :: "nat \<Rightarrow> nat \<Rightarrow> char" where
  "b64_two b c = char_of (b mod 16 * 16 + c div 4)"

definition b64_three :: "nat \<Rightarrow> nat \<Rightarrow> char" where
  "b64_three c d = char_of (c mod 4 * 64 + d)"

fun b64_groups :: "string \<Rightarrow> bool \<Rightarrow> string \<Rightarrow> string option" where
  "b64_groups al pad [] = Some []"
| "b64_groups al pad [p] = None"
| "b64_groups al pad [p, q] =
     (case (index_of p al, index_of q al) of
        (Some a, Some b) \<Rightarrow> if pad then None else Some [b64_one a b]
      | _ \<Rightarrow> None)"
| "b64_groups al pad [p, q, r] =
     (case (index_of p al, index_of q al, index_of r al) of
        (Some a, Some b, Some c) \<Rightarrow> if pad then None else Some [b64_one a b, b64_two b c]
      | _ \<Rightarrow> None)"
| "b64_groups al pad (p # q # r # t # s) =
     (case (index_of p al, index_of q al, index_of r al, index_of t al, b64_groups al pad s) of
        (Some a, Some b, Some c, Some d, Some u) \<Rightarrow>
          Some (b64_one a b # b64_two b c # b64_three c d # u)
      | (Some a, Some b, Some c, None, _) \<Rightarrow>
          if pad \<and> t = CHR ''='' \<and> s = [] then Some [b64_one a b, b64_two b c] else None
      | (Some a, Some b, None, None, _) \<Rightarrow>
          if pad \<and> r = CHR ''='' \<and> t = CHR ''='' \<and> s = [] then Some [b64_one a b] else None
      | _ \<Rightarrow> None)"

definition b64_decode :: "string \<Rightarrow> bool \<Rightarrow> string \<Rightarrow> string option" where
  "b64_decode al pad s =
     b64_groups al pad (filter (\<lambda>c. c \<noteq> CHR 0x0A \<and> c \<noteq> CHR 0x0D) s)"

text \<open>The two alphabets: 64 distinct printable characters, none of them the padding.\<close>

definition b64_alphabet :: "string \<Rightarrow> bool" where
  "b64_alphabet al \<longleftrightarrow> length al = 64 \<and> distinct al \<and>
     list_all (\<lambda>c. 0x20 \<le> byte c \<and> byte c < 0x80 \<and> c \<noteq> CHR ''='') al"

lemma b64_alphabets [simp]: "b64_alphabet b64_std" "b64_alphabet b64_url"
  by code_simp+

lemma index_of_nth: "distinct xs \<Longrightarrow> n < length xs \<Longrightarrow> index_of (xs ! n) xs = Some n"
proof (induction xs arbitrary: n)
  case (Cons x xs)
  then show ?case by (cases n) auto
qed simp

lemma index_of_None: "x \<notin> set xs \<Longrightarrow> index_of x xs = None"
  by (induction xs) auto

lemma b64_index [simp]: "b64_alphabet al \<Longrightarrow> n < 64 \<Longrightarrow> index_of (al ! n) al = Some n"
  by (simp add: b64_alphabet_def index_of_nth)

lemma b64_index_pad [simp]: "b64_alphabet al \<Longrightarrow> index_of CHR ''='' al = None"
  by (auto simp: b64_alphabet_def list_all_iff intro: index_of_None)

lemma b64_one_parts [simp]:
  "b < 16 \<Longrightarrow> b64_one (byte x div 4) (byte x mod 4 * 16 + b) = x"
  by (simp add: b64_one_def)

lemma b64_one_last [simp]: "b64_one (byte x div 4) (byte x mod 4 * 16) = x"
  by (simp add: b64_one_def)

lemma b64_two_parts [simp]:
  "c < 4 \<Longrightarrow> b64_two (b * 16 + byte y div 16) (byte y mod 16 * 4 + c) = y"
  using byte_hex_parts [of y] by (simp add: b64_two_def)

lemma b64_two_last [simp]: "b64_two (b * 16 + byte y div 16) (byte y mod 16 * 4) = y"
  using byte_hex_parts [of y] by (simp add: b64_two_def)

lemma b64_three_parts [simp]: "b64_three (c * 4 + byte z div 64) (byte z mod 64) = z"
proof -
  have "byte z div 64 < 4" using byte_less_256 [of z] by linarith
  then show ?thesis by (simp add: b64_three_def)
qed

lemma b64_sextets: "byte c div 4 < 64" "byte c mod 4 * 16 + byte d div 16 < 64"
  "byte c mod 16 * 4 + byte d div 64 < 64" "byte c mod 64 < 64" "byte c mod 4 * 16 < 64"
  "byte c mod 16 * 4 < 64" "byte d div 64 < 4" "byte d div 16 < 16"
proof -
  show "byte c div 4 < 64" "byte d div 64 < 4" "byte d div 16 < 16" "byte c mod 64 < 64"
    using byte_less_256 [of c] byte_less_256 [of d] by linarith+
  have "byte c mod 4 < 4" "byte c mod 16 < 16" by simp_all
  with \<open>byte d div 64 < 4\<close> \<open>byte d div 16 < 16\<close>
  show "byte c mod 4 * 16 + byte d div 16 < 64" "byte c mod 16 * 4 + byte d div 64 < 64"
    "byte c mod 4 * 16 < 64" "byte c mod 16 * 4 < 64"
    by linarith+
qed

lemma b64_groups_encode:
  assumes "b64_alphabet al"
  shows "b64_groups al pad (b64_encode al pad s) = Some s"
  using assms by (induction al pad s rule: b64_encode.induct) (simp_all add: b64_sextets)

lemma set_b64_encode:
  assumes "b64_alphabet al"
  shows "set (b64_encode al pad s) \<subseteq> insert CHR ''='' (set al)"
proof -
  have "al ! n \<in> set al" if "n < 64" for n
    using that assms by (simp add: b64_alphabet_def)
  then show ?thesis
    by (induction al pad s rule: b64_encode.induct) (simp_all add: b64_sextets subset_iff)
qed

lemma b64_encode_printable:
  "b64_alphabet al \<Longrightarrow> c \<in> set (b64_encode al pad s) \<Longrightarrow> 0x20 \<le> byte c \<and> byte c < 0x80"
proof -
  assume al: "b64_alphabet al" and "c \<in> set (b64_encode al pad s)"
  with set_b64_encode have "c = CHR ''='' \<or> c \<in> set al" by blast
  then show ?thesis using al unfolding b64_alphabet_def list_all_iff by fastforce
qed

lemma b64_decode_encode [simp]:
  assumes "b64_alphabet al"
  shows "b64_decode al pad (b64_encode al pad s) = Some s"
proof -
  have "filter (\<lambda>c. c \<noteq> CHR 0x0A \<and> c \<noteq> CHR 0x0D) (b64_encode al pad s) = b64_encode al pad s"
    using b64_encode_printable [OF assms] by (fastforce intro: filter_True)
  then show ?thesis by (simp add: b64_decode_def b64_groups_encode assms)
qed

interpretation b64std: codec "b64_encode b64_std True" "b64_decode b64_std True" "\<lambda>_. True"
  by unfold_locales simp

interpretation b64url: codec "b64_encode b64_url False" "b64_decode b64_url False" "\<lambda>_. True"
  by unfold_locales simp

lemma b64_encode_valid: "b64_alphabet al \<Longrightarrow> utf8_valid (b64_encode al pad s)"
  by (intro ascii_valid) (auto dest: b64_encode_printable)

lemma b64_encode_eq_Nil [simp]: "b64_encode al pad s = [] \<longleftrightarrow> s = []"
  by (cases "(al, pad, s)" rule: b64_encode.cases) auto

section \<open>Trimming, cutting and splitting\<close>

text \<open>The runes of a string, as \<open>for _, r := range s\<close> yields them.\<close>

fun runes :: "string \<Rightarrow> nat list" where
  "runes [] = []"
| "runes (c # s) = fst (decode_rune (c # s)) # runes (drop (rune_width (c # s) - 1) s)"

definition is_space :: "nat \<Rightarrow> bool" where
  "is_space r \<longleftrightarrow> (9 \<le> r \<and> r \<le> 13) \<or>
     r \<in> {0x20, 0x85, 0xA0, 0x1680, 0x2028, 0x2029, 0x202F, 0x205F, 0x3000} \<or>
     (0x2000 \<le> r \<and> r \<le> 0x200A)"

fun trim_left :: "string \<Rightarrow> string" where
  "trim_left [] = []"
| "trim_left (c # s) =
     (if is_space (fst (decode_rune (c # s)))
      then trim_left (drop (rune_width (c # s) - 1) s) else c # s)"

text \<open>\<open>utf8.DecodeLastRuneInString\<close>: step back over at most three continuation bytes.\<close>

definition last_rune :: "string \<Rightarrow> nat \<times> nat" where
  "last_rune s =
     (if s = [] then (rune_error, 0)
      else let k = Suc (length (takeWhile cont_byte (rev s)));
               t = drop (length s - k) s
           in if k \<le> 4 \<and> k \<le> length s \<and> rune_width t = k
              then decode_rune t else (rune_error, 1))"

lemma last_rune_width: "s \<noteq> [] \<Longrightarrow> 0 < snd (last_rune s)"
  by (auto simp: last_rune_def rune_width_def Let_def)

function trim_right :: "string \<Rightarrow> string" where
  "trim_right s =
     (if s \<noteq> [] \<and> is_space (fst (last_rune s))
      then trim_right (take (length s - snd (last_rune s)) s) else s)"
  by pat_completeness auto

termination
  by (relation "measure length") (auto simp: last_rune_width intro!: diff_less)

declare trim_right.simps [simp del]

definition trim_space :: "string \<Rightarrow> string" where
  "trim_space s = trim_right (trim_left s)"

text \<open>\<open>strings.CutSuffix\<close>, \<open>strings.Cut\<close> and \<open>strings.Split\<close> with a one-byte separator.\<close>

definition cut_suffix :: "string \<Rightarrow> string \<Rightarrow> string option" where
  "cut_suffix suf s =
     (if length suf \<le> length s \<and> drop (length s - length suf) s = suf
      then Some (take (length s - length suf) s) else None)"

fun split_on :: "char \<Rightarrow> string \<Rightarrow> string list" where
  "split_on sep [] = [[]]"
| "split_on sep (c # s) =
     (if c = sep then [] # split_on sep s
      else case split_on sep s of [] \<Rightarrow> [[c]] | t # ts \<Rightarrow> (c # t) # ts)"

lemma cut_suffix_append [simp]: "cut_suffix suf (s @ suf) = Some s"
  by (simp add: cut_suffix_def)

lemma cut_suffix_Some: "cut_suffix suf s = Some t \<longleftrightarrow> s = t @ suf"
  by (auto simp: cut_suffix_def split: if_splits) (metis append_take_drop_id)

lemma split_on_neq_Nil [simp]: "split_on sep s \<noteq> []"
  by (induction s) (auto split: list.splits)

lemma runes_ascii: "\<forall>c\<in>set s. byte c < 0x80 \<Longrightarrow> runes s = map of_char s"
  by (induction s) (auto simp: rune_width_def)

lemma trim_left_nonspace: "trim_left s = c # t \<Longrightarrow> \<not> is_space (fst (decode_rune (c # t)))"
  by (induction s rule: trim_left.induct) (auto split: if_splits)

lemma trim_right_nonspace: "trim_right s \<noteq> [] \<Longrightarrow> \<not> is_space (fst (last_rune (trim_right s)))"
proof (induction s rule: trim_right.induct)
  case (1 s)
  then show ?case by (cases "s \<noteq> [] \<and> is_space (fst (last_rune s))") (auto simp: trim_right.simps [of s])
qed

section \<open>Trimming and splitting printable text\<close>

definition graphic :: "string \<Rightarrow> bool" where
  "graphic s \<longleftrightarrow> (\<forall>c\<in>set s. 0x20 < byte c \<and> byte c < 0x80)"

lemma trim_left_graphic: "graphic s \<Longrightarrow> trim_left s = s"
  by (cases s) (auto simp: graphic_def is_space_def)

lemma last_rune_ascii: "byte c < 0x80 \<Longrightarrow> last_rune (s @ [c]) = (byte c, 1)"
  by (simp add: last_rune_def cont_byte_def rune_width_def Let_def)

lemma trim_right_graphic: "graphic s \<Longrightarrow> trim_right s = s"
  by (cases s rule: rev_cases)
    (auto simp: graphic_def last_rune_ascii is_space_def trim_right.simps [of "_ @ _"] trim_right.simps [of "[]"])

lemma trim_space_graphic [simp]: "graphic s \<Longrightarrow> trim_space s = s"
  by (simp add: trim_space_def trim_left_graphic trim_right_graphic)

lemma trim_space_Cons [simp]: "graphic s \<Longrightarrow> trim_space (CHR '' '' # s) = s"
  by (simp add: trim_space_def is_space_def rune_width_def trim_left_graphic trim_right_graphic)

lemma split_on_none: "sep \<notin> set s \<Longrightarrow> split_on sep s = [s]"
  by (induction s) auto

lemma split_on_append: "sep \<notin> set s \<Longrightarrow> split_on sep (s @ sep # t) = s # split_on sep t"
  by (induction s) (auto split: list.splits)

lemma graphic_append [simp]: "graphic (s @ t) \<longleftrightarrow> graphic s \<and> graphic t"
  by (auto simp: graphic_def)

lemma graphic_digits: "list_all is_digit s \<Longrightarrow> graphic s"
  by (auto simp: graphic_def list_all_iff is_digit_def)

lemma graphic_int_str [simp]: "graphic (int_str i)"
  using graphic_digits [OF nat_str_digits] by (auto simp: int_str_def graphic_def)

lemma cut_suffix_rev: "cut_suffix suf s = (if take (length suf) (rev s) = rev suf
   then Some (take (length s - length suf) s) else None)"
proof -
  have "take (length suf) (rev s) = rev (drop (length s - length suf) s)" by (simp add: take_rev)
  then show ?thesis by (auto simp: cut_suffix_def)
qed

section \<open>Lengths of encodings\<close>

lemma length_nat_str: "n < 10 ^ Suc k \<Longrightarrow> length (nat_str n) \<le> Suc k"
proof (induction k arbitrary: n)
  case 0
  then show ?case by (subst nat_str.simps) simp
next
  case (Suc k)
  then have "n div 10 < 10 ^ Suc k" by (simp add: less_mult_imp_div_less)
  with Suc.IH [of "n div 10"] show ?case by (subst nat_str.simps) simp
qed

lemma length_int_str:
  assumes "int64_range i"
  shows "length (int_str i) \<le> 20"
proof -
  have "nat i < 10 ^ Suc 18" "nat (- i) < 10 ^ Suc 18"
    using assms by (auto simp: int64_range_def)
  then have "length (nat_str (nat i)) \<le> Suc 18" "length (nat_str (nat (- i))) \<le> Suc 18"
    using length_nat_str by blast+
  then show ?thesis by (simp add: int_str_def)
qed

lemma length_nat_str_u64: "length (nat_str (unat (w :: u64))) \<le> 20"
proof -
  have "unat w < 10 ^ Suc 19" using unat_u64(1) [of w] by (rule less_trans) simp
  then have "length (nat_str (unat w)) \<le> Suc 19" by (rule length_nat_str)
  then show ?thesis by simp
qed

lemma length_b64: "length (b64_encode al pad s) \<le> 2 * length s + 2"
  by (induction al pad s rule: b64_encode.induct) auto

end
