(* ===== verification/JsonString.thy ===== *)
theory JsonString
  imports GoText
begin

text \<open>
  String literals of Go's \<open>encoding/json\<close> (Go 1.24), over bytes. Encoding: the escapes of
  \<open>Marshal\<close> (HTML-sensitive characters, control characters, U+2028 and U+2029; malformed UTF-8
  replaced). Decoding: the scanner's rules and \<open>unquote\<close>, with surrogate pairs and the
  replacement of malformed bytes. \<open>json_str_esc\<close> is the round trip; \<open>json_str_valid\<close> says
  that no decoded string is malformed UTF-8.
\<close>

abbreviation quote_char :: char where
  "quote_char \<equiv> CHR 0x22"

abbreviation backslash :: char where
  "backslash \<equiv> CHR 0x5C"

section \<open>String literals\<close>

definition esc_ascii :: "char \<Rightarrow> string" where
  "esc_ascii c =
     (if c = quote_char \<or> c = backslash then [backslash, c]
      else if c = CHR 0x08 then [backslash, CHR ''b'']
      else if c = CHR 0x0C then [backslash, CHR ''f'']
      else if c = CHR 0x0A then [backslash, CHR ''n'']
      else if c = CHR 0x0D then [backslash, CHR ''r'']
      else if c = CHR 0x09 then [backslash, CHR ''t'']
      else if byte c < 0x20 \<or> c = CHR ''<'' \<or> c = CHR ''>'' \<or> c = CHR ''&'' then
        backslash # CHR ''u'' # CHR ''0'' # CHR ''0'' #
        [hex_digit (byte c div 16), hex_digit (byte c mod 16)]
      else [c])"

definition esc_head :: "string \<Rightarrow> string" where
  "esc_head s =
     (if byte (hd s) < 0x80 then esc_ascii (hd s)
      else if bad_rune s then backslash # ''ufffd''
      else if fst (decode_rune s) = 0x2028 then backslash # ''u2028''
      else if fst (decode_rune s) = 0x2029 then backslash # ''u2029''
      else take (rune_width s) s)"

fun esc :: "string \<Rightarrow> string" where
  "esc [] = []"
| "esc (c # s) = esc_head (c # s) @ esc (drop (rune_width (c # s) - 1) s)"

definition json_quote :: "string \<Rightarrow> string" where
  "json_quote s = quote_char # esc s @ [quote_char]"

definition unescape :: "char \<Rightarrow> char option" where
  "unescape e =
     (if e = quote_char \<or> e = backslash \<or> e = CHR ''/'' then Some e
      else if e = CHR ''b'' then Some CHR 0x08
      else if e = CHR ''f'' then Some CHR 0x0C
      else if e = CHR ''n'' then Some CHR 0x0A
      else if e = CHR ''r'' then Some CHR 0x0D
      else if e = CHR ''t'' then Some CHR 0x09
      else None)"

fun hex4 :: "string \<Rightarrow> nat option" where
  "hex4 (a # b # c # d # s) =
     (case (hex_val a, hex_val b, hex_val c, hex_val d) of
        (Some p, Some q, Some r, Some t) \<Rightarrow> Some (p * 4096 + q * 256 + r * 16 + t)
      | _ \<Rightarrow> None)"
| "hex4 _ = None"

definition is_surrogate :: "nat \<Rightarrow> bool" where
  "is_surrogate r \<longleftrightarrow> 0xD800 \<le> r \<and> r < 0xE000"

text \<open>\<open>utf16.DecodeRune\<close>: the rune of a surrogate pair, U+FFFD for anything else.\<close>

definition utf16_decode :: "nat \<Rightarrow> nat \<Rightarrow> nat" where
  "utf16_decode r1 r2 =
     (if 0xD800 \<le> r1 \<and> r1 < 0xDC00 \<and> 0xDC00 \<le> r2 \<and> r2 < 0xE000
      then (r1 - 0xD800) * 1024 + (r2 - 0xDC00) + 0x10000 else rune_error)"

text \<open>The second half of a pair, when an escaped low surrogate follows.\<close>

definition low_half :: "nat \<Rightarrow> string \<Rightarrow> nat option" where
  "low_half r1 s =
     (if take 2 s = [backslash, CHR ''u''] then
        (case hex4 (drop 2 s) of
           Some r2 \<Rightarrow> if utf16_decode r1 r2 = rune_error then None else Some (utf16_decode r1 r2)
         | None \<Rightarrow> None)
      else None)"

definition prepend :: "string \<Rightarrow> (string \<times> string) option \<Rightarrow> (string \<times> string) option" where
  "prepend p r = map_option (\<lambda>(a, b). (p @ a, b)) r"

text \<open>A string literal after its opening quote: its value and what follows the closing one.\<close>

fun json_str :: "string \<Rightarrow> (string \<times> string) option" where
  "json_str [] = None"
| "json_str (c # s) =
     (if c = quote_char then Some ([], s)
      else if c = backslash then
        (case s of
           [] \<Rightarrow> None
         | e # t \<Rightarrow>
             if e = CHR ''u'' then
               (case hex4 t of
                  None \<Rightarrow> None
                | Some r \<Rightarrow>
                    if is_surrogate r then
                      (case low_half r (drop 4 t) of
                         Some d \<Rightarrow> prepend (encode_rune d) (json_str (drop 10 t))
                       | None \<Rightarrow> prepend (encode_rune rune_error) (json_str (drop 4 t)))
                    else prepend (encode_rune r) (json_str (drop 4 t)))
             else
               (case unescape e of
                  Some x \<Rightarrow> prepend [x] (json_str t)
                | None \<Rightarrow> None))
      else if byte c < 0x20 then None
      else if byte c < 0x80 then prepend [c] (json_str s)
      else prepend (encode_rune (fst (decode_rune (c # s))))
             (json_str (drop (rune_width (c # s) - 1) s)))"

declare json_str.simps(2) [simp del]

subsection \<open>Reading a literal inverts writing it\<close>

lemma prepend_Some [simp]: "prepend p (Some (a, b)) = Some (p @ a, b)"
  by (simp add: prepend_def)

lemma prepend_None [simp]: "prepend p None = None"
  by (simp add: prepend_def)

lemma prepend_eq_Some:
  "prepend p r = Some (x, s) \<longleftrightarrow> (\<exists>a. r = Some (a, s) \<and> x = p @ a)"
  by (cases r) (auto simp: prepend_def)

lemma esc_encode_append:
  assumes "rune_scalar r"
  shows "esc (encode_scalar r @ s) = esc_head (encode_scalar r @ s) @ esc s"
proof (cases "encode_scalar r @ s")
  case (Cons c u)
  then show ?thesis using unfold_drop_rune [OF assms Cons] by simp
qed simp

lemma esc_bad: "bad_rune (c # s) \<Longrightarrow> esc (c # s) = esc_head (c # s) @ esc s"
  by (simp add: bad_rune_width)

lemma bad_rune_not_ascii: "bad_rune (c # s) \<Longrightarrow> \<not> byte c < 0x80"
  by (auto simp: bad_rune_def rune_error_def)

declare esc.simps(2) [simp del]

lemma encode_rune_byte: "byte c < 0x80 \<Longrightarrow> encode_rune (byte c) = [c]"
  by (simp add: rune_scalar_byte ascii_encode)

lemma json_str_plain:
  "c \<noteq> quote_char \<Longrightarrow> c \<noteq> backslash \<Longrightarrow> 0x20 \<le> byte c \<Longrightarrow> byte c < 0x80 \<Longrightarrow>
    json_str (c # t) = prepend [c] (json_str t)"
  by (simp add: json_str.simps(2))

lemma json_str_escape:
  "unescape e = Some x \<Longrightarrow> e \<noteq> CHR ''u'' \<Longrightarrow>
    json_str (backslash # e # t) = prepend [x] (json_str t)"
  by (simp add: json_str.simps(2))

lemma json_str_unicode:
  "hex4 (a # b # c # d # t) = Some r \<Longrightarrow> \<not> is_surrogate r \<Longrightarrow>
    json_str (backslash # CHR ''u'' # a # b # c # d # t) = prepend (encode_rune r) (json_str t)"
  by (simp add: json_str.simps(2))

lemma hex_digit_zero: "hex_digit 0 = CHR ''0''"
  by code_simp

lemma hex4_byte:
  assumes "byte c < 0x80"
  shows "hex4 (CHR ''0'' # CHR ''0'' # hex_digit (byte c div 16) # hex_digit (byte c mod 16) # t)
    = Some (byte c)"
  using byte_hex_parts [of c] by (simp flip: hex_digit_zero)

lemma json_str_esc_ascii:
  assumes "byte c < 0x80"
  shows "json_str (esc_ascii c @ t) = prepend [c] (json_str t)"
proof -
  have u: "json_str (backslash # CHR ''u'' # CHR ''0'' # CHR ''0'' # hex_digit (byte c div 16) #
      hex_digit (byte c mod 16) # t) = prepend [c] (json_str t)"
    using json_str_unicode [OF hex4_byte [OF assms]] assms
    by (simp add: is_surrogate_def encode_rune_byte)
  consider "c \<in> {quote_char, backslash}" | "c \<in> {CHR 0x08, CHR 0x0C, CHR 0x0A, CHR 0x0D, CHR 0x09}"
    | "c \<notin> {quote_char, backslash, CHR 0x08, CHR 0x0C, CHR 0x0A, CHR 0x0D, CHR 0x09}" by blast
  then show ?thesis
  proof cases
    case 1
    then show ?thesis by (auto simp: esc_ascii_def json_str_escape unescape_def)
  next
    case 2
    then show ?thesis by (auto simp: esc_ascii_def json_str_escape unescape_def)
  next
    case 3
    then show ?thesis
    proof (cases "byte c < 0x20 \<or> c = CHR ''<'' \<or> c = CHR ''>'' \<or> c = CHR ''&''")
      case True
      with 3 u show ?thesis by (simp add: esc_ascii_def)
    next
      case False
      with 3 assms show ?thesis by (simp add: esc_ascii_def json_str_plain)
    qed
  qed
qed

lemma json_str_high:
  assumes "rune_scalar r" "0x80 \<le> r"
  shows "json_str (encode_scalar r @ t) = prepend (encode_scalar r) (json_str t)"
proof (cases "encode_scalar r @ t")
  case (Cons c u)
  have d: "decode_rune (c # u) = (r, length (encode_scalar r))"
    using decode_encode_scalar [OF assms(1), of t] Cons by simp
  then have "\<not> byte c < 0x80" using assms(2) by auto
  then have "c \<noteq> quote_char" "c \<noteq> backslash" "\<not> byte c < 0x20" "\<not> byte c < 0x80" by auto
  then show ?thesis
    using d unfold_drop_rune [OF assms(1) Cons] assms(1) by (simp add: Cons json_str.simps(2))
qed simp

lemma hex4_literals:
  "hex4 (''fffd'' @ t) = Some 0xFFFD" "hex4 (''2028'' @ t) = Some 0x2028"
  "hex4 (''2029'' @ t) = Some 0x2029"
  by (simp_all add: hex_val_def)

lemma json_str_literals:
  "json_str (backslash # ''ufffd'' @ t) = prepend (encode_rune 0xFFFD) (json_str t)"
  "json_str (backslash # ''u2028'' @ t) = prepend (encode_rune 0x2028) (json_str t)"
  "json_str (backslash # ''u2029'' @ t) = prepend (encode_rune 0x2029) (json_str t)"
  using hex4_literals [of t] by (simp_all add: json_str_unicode is_surrogate_def)

lemma esc_head_high:
  assumes "rune_scalar r" "0x80 \<le> r"
  shows "esc_head (encode_scalar r @ s) =
      (if r = 0x2028 then backslash # ''u2028'' else if r = 0x2029 then backslash # ''u2029''
       else encode_scalar r)"
proof -
  obtain c u where cu: "encode_scalar r @ s = c # u" by (cases "encode_scalar r @ s") auto
  have d: "decode_rune (c # u) = (r, length (encode_scalar r))"
    using decode_encode_scalar [OF assms(1), of s] cu by simp
  have "\<not> byte c < 0x80" using d assms(2) by auto
  moreover have "\<not> bad_rune (c # u)" using bad_rune_encode [OF assms(1), of s] cu by simp
  moreover have "take (rune_width (c # u)) (c # u) = encode_scalar r"
    using d by (simp add: rune_width_def flip: cu)
  ultimately show ?thesis using d by (simp add: esc_head_def cu)
qed

lemma esc_head_low: "r < 0x80 \<Longrightarrow> esc_head (encode_scalar r @ s) = esc_ascii (char_of r)"
  by (simp add: esc_head_def encode_scalar_def)

lemma json_str_esc_good:
  assumes "rune_scalar r"
  shows "json_str (esc_head (encode_scalar r @ s) @ t) = prepend (encode_scalar r) (json_str t)"
proof (cases "r < 0x80")
  case True
  then have "encode_scalar r = [char_of r]" by (simp add: encode_scalar_def)
  with True json_str_esc_ascii [of "char_of r" t] esc_head_low [OF True, of s] show ?thesis
    by simp
next
  case False
  then show ?thesis
    using esc_head_high [OF assms, of s] assms json_str_literals(2,3) [of t]
      json_str_high [OF assms, of t]
    by (auto simp: rune_scalar_def)
qed

lemma json_str_esc_bad:
  assumes "bad_rune (c # s)"
  shows "json_str (esc_head (c # s) @ t) = prepend (encode_rune rune_error) (json_str t)"
  using assms bad_rune_not_ascii [OF assms] json_str_literals(1) [of t]
  by (simp add: esc_head_def rune_error_def)

theorem json_str_esc: "json_str (esc s @ quote_char # t) = Some (to_valid s, t)"
proof (induction s rule: rune_induct)
  case nil
  show ?case by (simp add: json_str.simps(2))
next
  case (bad c s)
  then show ?case using json_str_esc_bad [OF bad(1)] by (simp add: esc_bad)
next
  case (good r s)
  then show ?case using json_str_esc_good [OF good(1)] by (simp add: esc_encode_append)
qed

text \<open>A decoded literal is always valid UTF-8, whatever the bytes were.\<close>

lemma unescape_valid: "unescape e = Some x \<Longrightarrow> utf8_valid [x]"
  by (auto simp: unescape_def split: if_splits)

definition json_str_tail :: "string \<Rightarrow> string \<Rightarrow> string \<Rightarrow> bool" where
  "json_str_tail s x t \<longleftrightarrow>
     (\<exists>p u a. json_str u = Some (a, t) \<and> x = p @ a \<and> utf8_valid p \<and> length u \<le> length s)"

lemma prepend_tail:
  "prepend p (json_str u) = Some (x, t) \<Longrightarrow> utf8_valid p \<Longrightarrow> length u \<le> length s \<Longrightarrow>
    json_str_tail s x t"
  by (auto simp: prepend_eq_Some json_str_tail_def)

lemma json_str_step:
  assumes "json_str (c # s) = Some (x, t)"
  shows "(x = [] \<and> t = s) \<or> json_str_tail s x t"
proof -
  note step = assms [unfolded json_str.simps(2)]
  consider "c = quote_char" | "c \<noteq> quote_char" "c \<noteq> backslash" "byte c < 0x80"
    | "c \<noteq> quote_char" "c \<noteq> backslash" "\<not> byte c < 0x80" | "c = backslash" by blast
  then show ?thesis
  proof cases
    case 2
    then have "prepend [c] (json_str s) = Some (x, t)"
      using step by (auto split: if_splits)
    then show ?thesis using 2 by (auto intro: prepend_tail)
  next
    case 3
    then have "prepend (encode_rune (fst (decode_rune (c # s))))
        (json_str (drop (rune_width (c # s) - 1) s)) = Some (x, t)"
      using step by (auto split: if_splits)
    then have "json_str_tail s x t" by (rule prepend_tail) simp_all
    then show ?thesis ..
  next
    case 4
    with step obtain e v where e: "s = e # v" by (auto split: list.splits)
    show ?thesis
    proof (cases "e = CHR ''u''")
      case True
      with 4 step e obtain r where r: "hex4 v = Some r" by (auto split: option.splits)
      have "\<exists>p n. prepend p (json_str (drop n v)) = Some (x, t) \<and> utf8_valid p"
        using 4 step e r True by (auto split: if_splits option.splits)
      then show ?thesis by (auto simp: e intro!: prepend_tail)
    next
      case False
      with 4 step e obtain y where "unescape e = Some y" by (auto split: option.splits)
      with 4 step e False unescape_valid [of e y] show ?thesis
        by (auto intro!: prepend_tail)
    qed
  qed (use step in simp)
qed

lemma json_str_valid: "json_str s = Some (x, t) \<Longrightarrow> utf8_valid x"
proof (induction s arbitrary: x rule: length_induct)
  case (1 s)
  show ?case
  proof (cases s)
    case (Cons c s')
    with 1(2) have "(x = [] \<and> t = s') \<or> json_str_tail s' x t" by (intro json_str_step) simp
    with 1 Cons show ?thesis by (auto simp: json_str_tail_def less_Suc_eq_le intro!: utf8_valid_append)
  qed (use 1 in simp)
qed

lemma json_str_shorter: "json_str s = Some (x, t) \<Longrightarrow> length t < length s"
proof (induction s arbitrary: x rule: length_induct)
  case (1 s)
  show ?case
  proof (cases s)
    case (Cons c s')
    with 1(2) have "(x = [] \<and> t = s') \<or> json_str_tail s' x t" by (intro json_str_step) simp
    with 1 Cons show ?thesis
      unfolding json_str_tail_def by (metis length_Cons less_Suc_eq_le lessI less_trans)
  qed (use 1 in simp)
qed

text \<open>The encoder emits no control character, so an encoded value never breaks a line.\<close>

lemma encode_scalar_high: "0x80 \<le> r \<Longrightarrow> rune_scalar r \<Longrightarrow> c \<in> set (encode_scalar r) \<Longrightarrow> 0x80 \<le> byte c"
  by (erule scalar_cases) (auto simp: encode_two encode_three encode_four)

lemma hex_digit_printable: "d < 16 \<Longrightarrow> 0x20 \<le> byte (hex_digit d)"
  by (simp add: byte_hex_digit)

lemma esc_ascii_printable_all: "list_all (\<lambda>c. 0x20 \<le> byte c) (esc_ascii b)"
  by (simp add: esc_ascii_def hex_digit_printable byte_hex_parts)

lemma esc_ascii_printable: "c \<in> set (esc_ascii b) \<Longrightarrow> 0x20 \<le> byte c"
  using esc_ascii_printable_all [of b] by (simp add: list_all_iff)

lemma esc_head_printable:
  assumes "rune_scalar r" "c \<in> set (esc_head (encode_scalar r @ s))"
  shows "0x20 \<le> byte c"
proof (cases "r < 0x80")
  case True
  then show ?thesis using assms(2) esc_ascii_printable by (simp add: esc_head_low)
next
  case False
  then show ?thesis
    using assms encode_scalar_high [OF _ assms(1), of c] by (auto simp: esc_head_high split: if_splits)
qed

lemma esc_printable: "c \<in> set (esc s) \<Longrightarrow> 0x20 \<le> byte c"
proof (induction s rule: rune_induct)
  case (bad b s)
  have "esc_head (b # s) = backslash # ''ufffd''"
    using bad bad_rune_not_ascii [OF bad(1)] by (simp add: esc_head_def)
  with bad show ?case by (auto simp: esc_bad)
next
  case (good r s)
  then show ?case
    by (simp only: esc_encode_append set_append Un_iff) (blast intro: esc_head_printable)
qed simp

lemma json_quote_printable: "c \<in> set (json_quote s) \<Longrightarrow> 0x20 \<le> byte c"
  by (auto simp: json_quote_def dest: esc_printable)

text \<open>What the encoder emits is valid UTF-8.\<close>

lemma hex_digit_ascii: "d < 16 \<Longrightarrow> byte (hex_digit d) < 0x80"
  by (simp add: byte_hex_digit)

lemma utf8_valid_esc_ascii: "byte c < 0x80 \<Longrightarrow> utf8_valid (esc_ascii c)"
  using byte_hex_parts [of c] by (simp add: esc_ascii_def hex_digit_ascii)

lemma utf8_valid_esc: "utf8_valid (esc s)"
proof (induction s rule: rune_induct)
  case (bad b s)
  have "esc_head (b # s) = backslash # ''ufffd''"
    using bad bad_rune_not_ascii [OF bad(1)] by (simp add: esc_head_def)
  with bad show ?case by (simp add: esc_bad)
next
  case (good r s)
  have "utf8_valid (esc_head (encode_scalar r @ s))"
    using good(1) utf8_valid_esc_ascii [of "char_of r"]
    by (cases "r < 0x80") (simp_all add: esc_head_low esc_head_high)
  with good show ?case by (auto simp: esc_encode_append)
qed simp

lemma utf8_valid_quote [simp]: "utf8_valid (json_quote s)"
  by (auto simp: json_quote_def intro!: utf8_valid_append utf8_valid_esc)

section \<open>How long a quoted string is\<close>

lemma rune_width_le: "rune_width s \<le> length s \<and> rune_width s \<le> 4"
  by (cases s rule: decode_rune.cases) (auto simp: rune_width_def split: list.splits)

lemma length_esc_head:
  assumes "s \<noteq> []"
  shows "length (esc_head s) \<le> 6 * rune_width s \<and> rune_width s \<le> length (esc_head s)"
proof -
  have w: "0 < rune_width s" "rune_width s \<le> length s" "rune_width s \<le> 4"
    using rune_width_pos [OF assms] rune_width_le [of s] by simp_all
  moreover have "rune_width s = 1" if "byte (hd s) < 0x80"
    using that assms by (cases s) (auto simp: rune_width_def)
  ultimately show ?thesis by (auto simp: esc_head_def esc_ascii_def bad_rune_width)
qed

lemma length_esc: "length (esc s) \<le> 6 * length s \<and> length s \<le> length (esc s)"
proof (induction s rule: esc.induct)
  case (2 c s)
  then show ?case
    using length_esc_head [of "c # s"] rune_width_le [of "c # s"] rune_width_pos [of "c # s"]
    by (simp add: esc.simps(2)) linarith
qed simp

lemma length_json_quote:
  "length (json_quote s) \<le> 6 * length s + 2" "length s + 2 \<le> length (json_quote s)"
  using length_esc [of s] by (simp_all add: json_quote_def)

end
