(* ===== verification/Json.thy ===== *)
theory Json
  imports JsonString
begin

text \<open>
  Values of Go's \<open>encoding/json\<close>: the token scanner, the push-down automaton with its nesting
  limit of 10000 (\<open>parse_json\<close>: a mode, a stack of open containers, one token per step), the
  compact printer of \<open>Marshal\<close>, and the assignment of object members to struct fields (exact or
  case-insensitive names, the last one wins, \<open>null\<close> leaves a field alone, a value of the wrong
  type or out of range is an error).

  \<open>parse_print\<close> is the fact the envelopes and frames rest on: parsing what was printed gives
  the value back, with malformed UTF-8 replaced.
\<close>

datatype json =
    JNull
  | JBool bool
  | JNum string
  | JStr string
  | JArr "json list"
  | JObj "(string \<times> json) list"

section \<open>Tokens\<close>

datatype tok = TLBrace | TRBrace | TLBrack | TRBrack | TColon | TComma
  | TTrue | TFalse | TNull | TStr string | TNum string

definition is_ws :: "char \<Rightarrow> bool" where
  "is_ws c \<longleftrightarrow> c = CHR 0x20 \<or> c = CHR 0x09 \<or> c = CHR 0x0D \<or> c = CHR 0x0A"

definition lex_exp :: "string \<Rightarrow> string \<Rightarrow> (string \<times> string) option" where
  "lex_exp acc s =
     (case s of
        e # t \<Rightarrow>
          if e = CHR ''e'' \<or> e = CHR ''E'' then
            (let sg = (if t \<noteq> [] \<and> (hd t = CHR ''+'' \<or> hd t = CHR ''-'') then [hd t] else []);
                 u = drop (length sg) t;
                 ds = takeWhile is_digit u
             in if ds = [] then None
                else Some (acc @ [e] @ sg @ ds, dropWhile is_digit u))
          else Some (acc, s)
      | [] \<Rightarrow> Some (acc, []))"

definition lex_frac :: "string \<Rightarrow> string \<Rightarrow> (string \<times> string) option" where
  "lex_frac acc s =
     (case s of
        e # t \<Rightarrow>
          if e = CHR ''.'' then
            (let ds = takeWhile is_digit t
             in if ds = [] then None
                else lex_exp (acc @ [e] @ ds) (dropWhile is_digit t))
          else lex_exp acc s
      | [] \<Rightarrow> Some (acc, []))"

definition lex_num :: "string \<Rightarrow> (string \<times> string) option" where
  "lex_num s =
     (let sg = (if s \<noteq> [] \<and> hd s = CHR ''-'' then ''-'' else []);
          t = drop (length sg) s
      in case t of
           [] \<Rightarrow> None
         | c # u \<Rightarrow>
             if c = CHR ''0'' then lex_frac (sg @ [c]) u
             else if is_digit c
             then lex_frac (sg @ takeWhile is_digit t) (dropWhile is_digit t)
             else None)"

text \<open>The next token and what follows it; \<open>None\<close> at the end of input or on a bad byte.\<close>

definition lex :: "string \<Rightarrow> (tok \<times> string) option" where
  "lex s =
     (case dropWhile is_ws s of
        [] \<Rightarrow> None
      | c # t \<Rightarrow>
          if c = CHR ''{'' then Some (TLBrace, t)
          else if c = CHR ''}'' then Some (TRBrace, t)
          else if c = CHR ''['' then Some (TLBrack, t)
          else if c = CHR '']'' then Some (TRBrack, t)
          else if c = CHR '':'' then Some (TColon, t)
          else if c = CHR '','' then Some (TComma, t)
          else if c = quote_char then map_option (\<lambda>(x, r). (TStr x, r)) (json_str t)
          else if take 4 (c # t) = ''true'' then Some (TTrue, drop 3 t)
          else if take 5 (c # t) = ''false'' then Some (TFalse, drop 4 t)
          else if take 4 (c # t) = ''null'' then Some (TNull, drop 3 t)
          else map_option (\<lambda>(x, r). (TNum x, r)) (lex_num (c # t)))"

lemma lex_exp_le: "lex_exp acc s = Some (x, t) \<Longrightarrow> length t \<le> length s"
  using length_dropWhile_le
  by (fastforce simp: lex_exp_def Let_def le_SucI split: list.splits if_splits
      intro: order_trans [OF length_dropWhile_le])

lemma lex_frac_le: "lex_frac acc s = Some (x, t) \<Longrightarrow> length t \<le> length s"
  by (auto simp: lex_frac_def Let_def split: list.splits if_splits
      dest!: lex_exp_le intro: order_trans [OF _ length_dropWhile_le] le_SucI)

lemma lex_num_less: "lex_num s = Some (x, t) \<Longrightarrow> length t < length s"
proof -
  assume num: "lex_num s = Some (x, t)"
  define sg where "sg = (if s \<noteq> [] \<and> hd s = CHR ''-'' then ''-'' else [])"
  from num obtain c u where cu: "drop (length sg) s = c # u"
    and le: "\<exists>acc v. lex_frac acc v = Some (x, t) \<and> length v \<le> length u"
    unfolding lex_num_def Let_def sg_def [symmetric]
    by (auto split: list.splits if_splits intro: length_dropWhile_le)
  have "length u < length s" using arg_cong [OF cu, of length] by simp
  with le show ?thesis by (auto dest!: lex_frac_le)
qed

lemma lex_shorter: "lex s = Some (k, t) \<Longrightarrow> length t < length s"
proof -
  assume l: "lex s = Some (k, t)"
  then obtain c u where cu: "dropWhile is_ws s = c # u" by (auto simp: lex_def split: list.splits)
  then have "length (c # u) \<le> length s" using length_dropWhile_le [of is_ws s] by simp
  moreover have "length t < length (c # u)"
    using l cu by (auto simp: lex_def split: if_splits dest!: json_str_shorter lex_num_less)
  ultimately show ?thesis by simp
qed

section \<open>The automaton\<close>

text \<open>An open container: the elements or members read so far, last first; for an object also the
  key whose value is being read.\<close>

datatype frame = FArr "json list" | FObj "(string \<times> json) list" string

datatype pmode =
    PVal \<comment> \<open>a value must follow\<close>
  | PVal0 \<comment> \<open>a value or the end of the array just opened\<close>
  | PKey0 \<comment> \<open>a key or the end of the object just opened\<close>
  | PKey "(string \<times> json) list" \<comment> \<open>a key must follow these members\<close>
  | PDone json \<comment> \<open>a value has been read\<close>

definition max_depth :: nat where
  "max_depth = 10000"

fun tok_value :: "tok \<Rightarrow> json option" where
  "tok_value TTrue = Some (JBool True)"
| "tok_value TFalse = Some (JBool False)"
| "tok_value TNull = Some JNull"
| "tok_value (TStr s) = Some (JStr s)"
| "tok_value (TNum s) = Some (JNum s)"
| "tok_value _ = None"

fun pmode_rank :: "pmode \<Rightarrow> nat" where
  "pmode_rank PVal0 = 1"
| "pmode_rank PKey0 = 1"
| "pmode_rank _ = 0"

function parse_json :: "frame list \<Rightarrow> pmode \<Rightarrow> string \<Rightarrow> (json \<times> string) option" where
  "parse_json stk PVal s =
     (case lex s of
        None \<Rightarrow> None
      | Some (k, t) \<Rightarrow>
          if k = TLBrace then
            if length stk < max_depth then parse_json stk PKey0 t else None
          else if k = TLBrack then
            if length stk < max_depth then parse_json (FArr [] # stk) PVal0 t else None
          else (case tok_value k of
                  None \<Rightarrow> None
                | Some v \<Rightarrow> parse_json stk (PDone v) t))"
| "parse_json stk PVal0 s =
     (case lex s of
        Some (TRBrack, t) \<Rightarrow> parse_json (tl stk) (PDone (JArr [])) t
      | _ \<Rightarrow> parse_json stk PVal s)"
| "parse_json stk PKey0 s =
     (case lex s of
        Some (TRBrace, t) \<Rightarrow> parse_json stk (PDone (JObj [])) t
      | _ \<Rightarrow> parse_json stk (PKey []) s)"
| "parse_json stk (PKey ms) s =
     (case lex s of
        Some (TStr k, t) \<Rightarrow>
          (case lex t of
             Some (TColon, u) \<Rightarrow> parse_json (FObj ms k # stk) PVal u
           | _ \<Rightarrow> None)
      | _ \<Rightarrow> None)"
| "parse_json [] (PDone v) s = Some (v, s)"
| "parse_json (FArr vs # stk) (PDone v) s =
     (case lex s of
        Some (TComma, t) \<Rightarrow> parse_json (FArr (v # vs) # stk) PVal t
      | Some (TRBrack, t) \<Rightarrow> parse_json stk (PDone (JArr (rev (v # vs)))) t
      | _ \<Rightarrow> None)"
| "parse_json (FObj ms k # stk) (PDone v) s =
     (case lex s of
        Some (TComma, t) \<Rightarrow> parse_json stk (PKey ((k, v) # ms)) t
      | Some (TRBrace, t) \<Rightarrow> parse_json stk (PDone (JObj (rev ((k, v) # ms)))) t
      | _ \<Rightarrow> None)"
  by pat_completeness auto

termination
  by (relation "measures [\<lambda>(stk, m, s). length s, \<lambda>(stk, m, s). pmode_rank m]")
    (auto dest!: lex_shorter)

declare parse_json.simps [simp del]

text \<open>\<open>json.Unmarshal\<close> accepts one value and white space around it; \<open>Decoder.Decode\<close> takes the
  first value and leaves the rest.\<close>

definition json_unmarshal :: "string \<Rightarrow> json option" where
  "json_unmarshal s =
     (case parse_json [] PVal s of
        Some (v, t) \<Rightarrow> if list_all is_ws t then Some v else None
      | None \<Rightarrow> None)"

definition json_decode_first :: "string \<Rightarrow> json option" where
  "json_decode_first s = map_option fst (parse_json [] PVal s)"

definition json_valid :: "string \<Rightarrow> bool" where
  "json_valid s \<longleftrightarrow> json_unmarshal s \<noteq> None"

section \<open>The printer\<close>

fun commas :: "string list \<Rightarrow> string" where
  "commas [] = []"
| "commas [x] = x"
| "commas (x # y # xs) = x @ CHR '','' # commas (y # xs)"

fun json_print :: "json \<Rightarrow> string" where
  "json_print JNull = ''null''"
| "json_print (JBool b) = (if b then ''true'' else ''false'')"
| "json_print (JNum n) = n"
| "json_print (JStr s) = json_quote s"
| "json_print (JArr vs) = CHR ''['' # commas (map json_print vs) @ '']''"
| "json_print (JObj ms) =
     CHR ''{'' # commas (map (\<lambda>(k, v). json_quote k @ CHR '':'' # json_print v) ms) @ ''}''"

text \<open>What printing and parsing again leaves of a value: its strings made valid UTF-8.\<close>

fun json_sane :: "json \<Rightarrow> json" where
  "json_sane (JStr s) = JStr (to_valid s)"
| "json_sane (JArr vs) = JArr (map json_sane vs)"
| "json_sane (JObj ms) = JObj (map (\<lambda>(k, v). (to_valid k, json_sane v)) ms)"
| "json_sane v = v"

fun json_depth :: "json \<Rightarrow> nat" where
  "json_depth (JArr vs) = Suc (fold max (map json_depth vs) 0)"
| "json_depth (JObj ms) = Suc (fold max (map (\<lambda>(k, v). json_depth v) ms) 0)"
| "json_depth _ = 0"

text \<open>Numbers are printed by \<open>strconv\<close>: an optional sign and canonical decimal digits.\<close>

definition nat_literal :: "string \<Rightarrow> bool" where
  "nat_literal s \<longleftrightarrow> s \<noteq> [] \<and> list_all is_digit s \<and> (hd s = CHR ''0'' \<longrightarrow> tl s = [])"

definition int_literal :: "string \<Rightarrow> bool" where
  "int_literal s \<longleftrightarrow> (if s \<noteq> [] \<and> hd s = CHR ''-'' then nat_literal (tl s) else nat_literal s)"

fun json_ints :: "json \<Rightarrow> bool" where
  "json_ints (JNum n) = int_literal n"
| "json_ints (JArr vs) = list_all json_ints vs"
| "json_ints (JObj ms) = list_all (\<lambda>(k, v). json_ints v) ms"
| "json_ints _ = True"

section \<open>Parsing what was printed\<close>

definition num_stop :: "string \<Rightarrow> bool" where
  "num_stop t \<longleftrightarrow> t = [] \<or>
     (\<not> is_digit (hd t) \<and> hd t \<noteq> CHR ''.'' \<and> hd t \<noteq> CHR ''e'' \<and> hd t \<noteq> CHR ''E'')"

lemma num_stop_simps [simp]:
  "num_stop []" "num_stop (CHR '','' # t)" "num_stop (CHR '']'' # t)" "num_stop (CHR ''}'' # t)"
  by (simp_all add: num_stop_def is_digit_def)

lemma lex_symbols [simp]:
  "lex (CHR ''{'' # t) = Some (TLBrace, t)" "lex (CHR ''}'' # t) = Some (TRBrace, t)"
  "lex (CHR ''['' # t) = Some (TLBrack, t)" "lex (CHR '']'' # t) = Some (TRBrack, t)"
  "lex (CHR '':'' # t) = Some (TColon, t)" "lex (CHR '','' # t) = Some (TComma, t)"
  by (simp_all add: lex_def is_ws_def)

lemma lex_quote [simp]: "lex (json_quote s @ t) = Some (TStr (to_valid s), t)"
  by (simp add: lex_def is_ws_def json_quote_def json_str_esc)

lemma lex_words:
  "lex (''true'' @ t) = Some (TTrue, t)" "lex (''false'' @ t) = Some (TFalse, t)"
  "lex (''null'' @ t) = Some (TNull, t)"
  by (simp_all add: lex_def is_ws_def)

lemma digits_stop:
  assumes "list_all is_digit ds" "num_stop t"
  shows "takeWhile is_digit (ds @ t) = ds" "dropWhile is_digit (ds @ t) = t"
proof -
  have "takeWhile is_digit t = []" "dropWhile is_digit t = t"
    using assms(2) by (cases t; simp add: num_stop_def)+
  then show "takeWhile is_digit (ds @ t) = ds" "dropWhile is_digit (ds @ t) = t"
    using assms(1) by (simp_all add: takeWhile_append list_all_iff dropWhile_append2)
qed

lemma lex_frac_stop: "num_stop t \<Longrightarrow> lex_frac acc t = Some (acc, t)"
  by (cases t) (auto simp: num_stop_def lex_frac_def lex_exp_def)

lemma lex_num_literal:
  assumes "int_literal n" "num_stop t"
  shows "lex_num (n @ t) = Some (n, t)"
proof -
  define sg ds where "sg = (if hd n = CHR ''-'' then ''-'' else [])"
    and "ds = (if hd n = CHR ''-'' then tl n else n)"
  have nat: "nat_literal ds" and n: "n = sg @ ds" and hd: "ds \<noteq> []" "is_digit (hd ds)"
    using assms(1) by (auto simp: int_literal_def nat_literal_def sg_def ds_def list_all_iff
        split: if_splits) (metis hd_Cons_tl)+
  have "(n @ t \<noteq> [] \<and> hd (n @ t) = CHR ''-'') \<longleftrightarrow> sg \<noteq> []"
    using n hd by (auto simp: sg_def hd_append)
  then have sg: "(if n @ t \<noteq> [] \<and> hd (n @ t) = CHR ''-'' then ''-'' else []) = sg"
    by (simp add: sg_def)
  obtain c cs where cs: "ds = c # cs" using hd by (cases ds) auto
  have drop: "drop (length sg) (n @ t) = c # cs @ t" using n cs by simp
  show ?thesis
  proof (cases "c = CHR ''0''")
    case True
    with nat cs have "cs = []" by (simp add: nat_literal_def)
    with True cs n show ?thesis
      unfolding lex_num_def Let_def sg drop by (simp add: lex_frac_stop assms(2))
  next
    case False
    have "is_digit c" using hd cs by simp
    moreover have "takeWhile is_digit (c # cs @ t) = ds" "dropWhile is_digit (c # cs @ t) = t"
      using digits_stop [of ds t] assms(2) nat cs by (simp_all add: nat_literal_def)
    ultimately show ?thesis
      unfolding lex_num_def Let_def sg drop using False n by (simp add: lex_frac_stop assms(2))
  qed
qed

lemma int_literal_head:
  assumes "int_literal n"
  obtains c cs where "n = c # cs" "c = CHR ''-'' \<or> is_digit c"
  using assms by (cases n) (auto simp: int_literal_def nat_literal_def split: if_splits)

lemma lex_int_literal:
  assumes "int_literal n" "num_stop t"
  shows "lex (n @ t) = Some (TNum n, t)"
proof -
  obtain c cs where n: "n = c # cs" and c: "c = CHR ''-'' \<or> is_digit c"
    using assms(1) by (rule int_literal_head)
  from c have "\<not> is_ws c" "c \<notin> {CHR ''{'', CHR ''}'', CHR ''['', CHR '']'', CHR '':'', CHR '',''}"
    "c \<notin> {quote_char, CHR ''t'', CHR ''f'', CHR ''n''}"
    by (auto simp: is_ws_def is_digit_def)
  then show ?thesis
    using lex_num_literal [OF assms] n by (simp add: lex_def)
qed

lemma lex_print_head:
  assumes "json_ints v" "num_stop t"
  shows "\<exists>k u. lex (json_print v @ t) = Some (k, u) \<and> k \<noteq> TRBrack"
proof (cases v)
  case (JBool b)
  then show ?thesis using lex_words [of t] by (cases b) auto
next
  case JNull
  then show ?thesis using lex_words [of t] by auto
qed (use assms in \<open>auto simp: lex_int_literal\<close>)

lemma lex_print_not_bracket:
  assumes "json_ints v" "num_stop t"
  shows "parse_json stk PVal0 (json_print v @ t) = parse_json stk PVal (json_print v @ t)"
proof -
  obtain k u where "lex (json_print v @ t) = Some (k, u)" "k \<noteq> TRBrack"
    using lex_print_head [OF assms] by blast
  then show ?thesis by (cases k) (simp_all add: parse_json.simps(2))
qed

lemma parse_pobj_open:
  "parse_json stk PKey0 (json_quote k @ t) = parse_json stk (PKey []) (json_quote k @ t)"
  by (simp add: parse_json.simps(3))

text \<open>The automaton on a printed value: what holds of one value, and of a whole tail of them.\<close>

definition reads :: "json \<Rightarrow> bool" where
  "reads v \<longleftrightarrow> (\<forall>stk t. json_depth v + length stk \<le> max_depth \<longrightarrow> num_stop t \<longrightarrow>
     parse_json stk PVal (json_print v @ t) = parse_json stk (PDone (json_sane v)) t)"

lemma readsD: "reads v \<Longrightarrow> json_depth v + length stk \<le> max_depth \<Longrightarrow> num_stop t \<Longrightarrow>
    parse_json stk PVal (json_print v @ t) = parse_json stk (PDone (json_sane v)) t"
  by (simp add: reads_def)

lemma reads_array_tail:
  assumes "\<forall>w\<in>set (v # vs). reads w \<and> json_depth w + Suc (length stk) \<le> max_depth"
  shows "parse_json (FArr acc # stk) PVal (commas (map json_print (v # vs)) @ CHR '']'' # t)
    = parse_json stk (PDone (JArr (rev acc @ map json_sane (v # vs)))) t"
  using assms
proof (induction vs arbitrary: v acc)
  case Nil
  then show ?case by (simp add: readsD parse_json.simps(6))
next
  case (Cons w vs)
  then show ?case by (simp add: readsD parse_json.simps(6))
qed

definition print_member :: "string \<times> json \<Rightarrow> string" where
  "print_member = (\<lambda>(k, v). json_quote k @ CHR '':'' # json_print v)"

definition sane_member :: "string \<times> json \<Rightarrow> string \<times> json" where
  "sane_member = (\<lambda>(k, v). (to_valid k, json_sane v))"

lemma reads_object_tail:
  assumes "\<forall>(j, w)\<in>set (m # ms). reads w \<and> json_depth w + Suc (length stk) \<le> max_depth"
  shows "parse_json stk (PKey acc) (commas (map print_member (m # ms)) @ CHR ''}'' # t)
    = parse_json stk (PDone (JObj (rev acc @ map sane_member (m # ms)))) t"
  using assms
proof (induction ms arbitrary: m acc)
  case Nil
  then show ?case
    by (cases m) (simp add: readsD print_member_def sane_member_def parse_json.simps(4,7))
next
  case (Cons n ms)
  then show ?case
    by (cases m)
      (auto simp add: readsD print_member_def sane_member_def parse_json.simps(4,7))
qed

lemma le_fold_max: "(x::nat) \<in> set xs \<Longrightarrow> x \<le> fold max xs a"
proof (induction xs arbitrary: a)
  case (Cons y ys)
  have "b \<le> fold max ys b" for b :: nat
    by (induction ys arbitrary: b) (auto intro: max.coboundedI1 order_trans [OF max.cobounded2])
  with Cons show ?case by (auto intro: order_trans [OF max.cobounded1])
qed simp

lemma array_reads:
  assumes "\<forall>v\<in>set vs. reads v" "json_ints (JArr vs)"
  shows "reads (JArr vs)"
  unfolding reads_def
proof (intro allI impI)
  fix stk :: "frame list" and t :: string
  assume d: "json_depth (JArr vs) + length stk \<le> max_depth"
  show "parse_json stk PVal (json_print (JArr vs) @ t) = parse_json stk (PDone (json_sane (JArr vs))) t"
  proof (cases vs)
    case Nil
    with d show ?thesis by (simp add: parse_json.simps(1,2))
  next
    case (Cons w ws)
    have open0: "parse_json (FArr [] # stk) PVal0 (commas (map json_print vs) @ CHR '']'' # t)
      = parse_json (FArr [] # stk) PVal (commas (map json_print vs) @ CHR '']'' # t)"
      using assms(2) lex_print_not_bracket [of w] Cons by (cases ws) simp_all
    have "\<forall>x\<in>set vs. json_depth x + Suc (length stk) \<le> max_depth"
      using d le_fold_max [of _ "map json_depth vs" 0] by fastforce
    then have "\<forall>x\<in>set (w # ws). reads x \<and> json_depth x + Suc (length stk) \<le> max_depth"
      using assms(1) Cons by auto
    from reads_array_tail [OF this, of "[]" t] d show ?thesis
      by (simp add: parse_json.simps(1) open0) (simp add: Cons)
  qed
qed

lemma object_reads:
  assumes "\<forall>(k, v)\<in>set ms. reads v"
  shows "reads (JObj ms)"
  unfolding reads_def
proof (intro allI impI)
  fix stk :: "frame list" and t :: string
  assume d: "json_depth (JObj ms) + length stk \<le> max_depth"
  show "parse_json stk PVal (json_print (JObj ms) @ t) = parse_json stk (PDone (json_sane (JObj ms))) t"
  proof (cases ms)
    case Nil
    with d show ?thesis by (simp add: parse_json.simps(1,3))
  next
    case (Cons m rest)
    have open0: "parse_json stk PKey0 (commas (map print_member ms) @ CHR ''}'' # t)
      = parse_json stk (PKey []) (commas (map print_member ms) @ CHR ''}'' # t)"
      using Cons by (cases rest; cases m) (simp_all add: print_member_def parse_pobj_open)
    have "\<forall>(j, x)\<in>set ms. json_depth x + Suc (length stk) \<le> max_depth"
      using d le_fold_max [of _ "map (\<lambda>(k, v). json_depth v) ms" 0] by fastforce
    then have "\<forall>(j, x)\<in>set (m # rest). reads x \<and> json_depth x + Suc (length stk) \<le> max_depth"
      using assms Cons by fastforce
    from reads_object_tail [OF this, of "[]" t] d show ?thesis
      by (simp add: parse_json.simps(1) open0 flip: print_member_def sane_member_def)
        (simp add: Cons)
  qed
qed

lemma json_reads: "json_ints v \<Longrightarrow> reads v"
proof (induction v)
  case JNull
  show ?case
    unfolding reads_def by (simp add: parse_json.simps(1) lex_words [simplified])
next
  case (JBool b)
  show ?case
    unfolding reads_def by (cases b) (simp_all add: parse_json.simps(1) lex_words [simplified])
next
  case (JNum n)
  then show ?case
    unfolding reads_def by (simp add: parse_json.simps(1) lex_int_literal)
next
  case (JStr s)
  show ?case unfolding reads_def by (simp add: parse_json.simps(1))
next
  case (JArr vs)
  then show ?case by (intro array_reads) (auto simp: list_all_iff)
next
  case (JObj ms)
  then show ?case by (intro object_reads) (fastforce simp: list_all_iff)
qed

theorem parse_print:
  assumes "json_ints v" "json_depth v \<le> max_depth"
  shows "json_unmarshal (json_print v) = Some (json_sane v)"
  using readsD [OF json_reads [OF assms(1)], of "[]" "[]"] assms(2)
  by (simp add: json_unmarshal_def parse_json.simps(5))

lemma nat_literal_nat_str: "nat_literal (nat_str n)"
  using nat_str_no_leading_zero [of n]
  nat_str_digits [of n]
  by (cases "nat_str n") (auto simp: nat_literal_def)

lemma int_literal_nat_str [simp]: "int_literal (nat_str n)"
  using nat_literal_nat_str [of n] hd_nat_str_digit [of n]
  by (auto simp: int_literal_def is_digit_def)

lemma int_literal_int_str [simp]: "int_literal (int_str i)"
  using nat_literal_nat_str by (simp add: int_str_def int_literal_def [of "CHR ''-'' # _"])

definition printable :: "string \<Rightarrow> bool" where
  "printable s \<longleftrightarrow> list_all (\<lambda>c. 0x20 \<le> byte c) s"

lemma printable_simps [simp]:
  "printable []" "printable (c # s) \<longleftrightarrow> 0x20 \<le> byte c \<and> printable s"
  "printable (s @ t) \<longleftrightarrow> printable s \<and> printable t"
  by (simp_all add: printable_def)

lemma printable_commas: "\<forall>x\<in>set xs. printable x \<Longrightarrow> printable (commas xs)"
  by (induction xs rule: commas.induct) auto

lemma printable_quote [simp]: "printable (json_quote s)"
  by (simp add: printable_def list_all_iff json_quote_printable)

lemma printable_digits: "list_all is_digit s \<Longrightarrow> printable s"
  by (auto simp: printable_def is_digit_def list_all_iff)

lemma printable_int_literal: "int_literal n \<Longrightarrow> printable n"
  by (cases n) (auto simp: int_literal_def nat_literal_def is_digit_def printable_digits split: if_splits)

lemma printable_json_print: "json_ints v \<Longrightarrow> printable (json_print v)"
proof (induction v)
  case (JObj ms)
  then show ?case by (fastforce simp: list_all_iff intro!: printable_commas)
qed (auto simp: list_all_iff printable_int_literal intro!: printable_commas)

lemma printable_no_newline: "printable s \<Longrightarrow> newline_byte \<notin> set s"
  by (auto simp: printable_def list_all_iff)

section \<open>Parsed strings are valid UTF-8\<close>

fun json_utf8 :: "json \<Rightarrow> bool" where
  "json_utf8 (JStr s) = utf8_valid s"
| "json_utf8 (JArr vs) = list_all json_utf8 vs"
| "json_utf8 (JObj ms) = list_all (\<lambda>(k, v). utf8_valid k \<and> json_utf8 v) ms"
| "json_utf8 _ = True"

fun frame_utf8 :: "frame \<Rightarrow> bool" where
  "frame_utf8 (FArr vs) = list_all json_utf8 vs"
| "frame_utf8 (FObj ms k) = (utf8_valid k \<and> list_all (\<lambda>(k, v). utf8_valid k \<and> json_utf8 v) ms)"

fun pmode_utf8 :: "pmode \<Rightarrow> bool" where
  "pmode_utf8 (PKey ms) = list_all (\<lambda>(k, v). utf8_valid k \<and> json_utf8 v) ms"
| "pmode_utf8 (PDone v) = json_utf8 v"
| "pmode_utf8 _ = True"

lemma lex_str_valid: "lex s = Some (TStr k, t) \<Longrightarrow> utf8_valid k"
  by (auto simp: lex_def split: list.splits if_splits dest: json_str_valid)

lemma tok_value_utf8: "lex s = Some (k, t) \<Longrightarrow> tok_value k = Some v \<Longrightarrow> json_utf8 v"
  by (cases k) (auto dest: lex_str_valid)

lemma parse_json_utf8:
  "parse_json stk m s = Some (v, t) \<Longrightarrow> list_all frame_utf8 stk \<Longrightarrow> pmode_utf8 m \<Longrightarrow> json_utf8 v"
proof (induction stk m s arbitrary: v t rule: parse_json.induct)
  case (1 stk s)
  obtain k u where k: "lex s = Some (k, u)"
    using 1 by (auto simp: parse_json.simps(1) split: option.splits)
  show ?case
  proof (cases "k = TLBrace \<or> k = TLBrack")
    case True
    with 1 k show ?thesis by (auto simp: parse_json.simps(1) split: if_splits)
  next
    case False
    with 1 k obtain w where "tok_value k = Some w" "parse_json stk (PDone w) u = Some (v, t)"
      by (auto simp: parse_json.simps(1) split: option.splits)
    with 1 k False tok_value_utf8 [OF k] show ?thesis by auto
  qed
next
  case (2 stk s)
  then have "list_all frame_utf8 (tl stk)" by (cases stk) auto
  with 2 show ?case
    by (auto simp: parse_json.simps(2) split: option.splits tok.splits)
next
  case (3 stk s)
  then show ?case by (auto simp: parse_json.simps(3) split: option.splits tok.splits)
next
  case (4 stk ms s)
  then obtain k t' u where k: "lex s = Some (TStr k, t')" "lex t' = Some (TColon, u)"
    "parse_json (FObj ms k # stk) PVal u = Some (v, t)"
    by (auto simp: parse_json.simps(4) split: option.splits tok.splits)
  with 4 lex_str_valid [OF k(1)] show ?case by auto
next
  case (6 vs stk v s)
  then show ?case by (auto simp: parse_json.simps(6) split: option.splits tok.splits)
next
  case (7 ms k stk v s)
  then show ?case by (auto simp: parse_json.simps(7) split: option.splits tok.splits)
qed (simp add: parse_json.simps(5))

lemma json_unmarshal_utf8: "json_unmarshal s = Some v \<Longrightarrow> json_utf8 v"
  by (auto simp: json_unmarshal_def split: option.splits if_splits dest: parse_json_utf8)

section \<open>Struct fields\<close>

text \<open>\<open>foldName\<close>, as far as it can matter for a field name in lower-case ASCII: ASCII letters,
  the long s and the Kelvin sign fold to the letter they are variants of.\<close>

definition fold_rune :: "nat \<Rightarrow> nat" where
  "fold_rune r =
     (if 65 \<le> r \<and> r \<le> 90 then r + 32
      else if r = 0x17F then 115 else if r = 0x212A then 107 else r)"

definition fold_name :: "string \<Rightarrow> string" where
  "fold_name k = concat (map (\<lambda>r. encode_rune (fold_rune r)) (runes k))"

text \<open>\<open>json.Unmarshal\<close> into a struct: \<open>asg\<close> assigns one member (unknown names are ignored by it)
  and fails on a value the field cannot hold.\<close>

fun assign_members :: "(string \<Rightarrow> json \<Rightarrow> 'a \<Rightarrow> 'a option) \<Rightarrow> (string \<times> json) list \<Rightarrow> 'a \<Rightarrow> 'a option" where
  "assign_members asg [] x = Some x"
| "assign_members asg ((k, v) # ms) x =
     (case asg (fold_name k) v x of None \<Rightarrow> None | Some y \<Rightarrow> assign_members asg ms y)"

definition decode_struct :: "(string \<Rightarrow> json \<Rightarrow> 'a \<Rightarrow> 'a option) \<Rightarrow> 'a \<Rightarrow> json \<Rightarrow> 'a option" where
  "decode_struct asg zero v =
     (case v of
        JNull \<Rightarrow> Some zero
      | JObj ms \<Rightarrow> assign_members asg ms zero
      | _ \<Rightarrow> None)"

fun set_string :: "(string \<Rightarrow> 'a) \<Rightarrow> json \<Rightarrow> 'a \<Rightarrow> 'a option" where
  "set_string upd JNull x = Some x"
| "set_string upd (JStr s) x = Some (upd s)"
| "set_string upd _ x = None"

fun set_uint :: "(u64 \<Rightarrow> 'a) \<Rightarrow> json \<Rightarrow> 'a \<Rightarrow> 'a option" where
  "set_uint upd JNull x = Some x"
| "set_uint upd (JNum n) x = map_option upd (parse_uint n)"
| "set_uint upd _ x = None"

fun set_int :: "(int \<Rightarrow> 'a) \<Rightarrow> json \<Rightarrow> 'a \<Rightarrow> 'a option" where
  "set_int upd JNull x = Some x"
| "set_int upd (JNum n) x = map_option upd (parse_int n)"
| "set_int upd _ x = None"

definition unmarshal_struct :: "(string \<Rightarrow> json \<Rightarrow> 'a \<Rightarrow> 'a option) \<Rightarrow> 'a \<Rightarrow> string \<Rightarrow> 'a option" where
  "unmarshal_struct asg zero s =
     (case json_unmarshal s of None \<Rightarrow> None | Some v \<Rightarrow> decode_struct asg zero v)"

text \<open>An invariant of the assignments holds of the decoded struct.\<close>

lemma assign_members_inv:
  assumes "assign_members asg ms x = Some y" "P x" "list_all (\<lambda>(k, v). utf8_valid k \<and> json_utf8 v) ms"
    and "\<And>k v x y. asg k v x = Some y \<Longrightarrow> P x \<Longrightarrow> json_utf8 v \<Longrightarrow> P y"
  shows "P y"
  using assms(1-3)
proof (induction ms arbitrary: x)
  case (Cons m ms)
  obtain k v where m: "m = (k, v)" by (cases m)
  with Cons.prems(1) obtain z where z: "asg (fold_name k) v x = Some z"
    "assign_members asg ms z = Some y" by (auto split: option.splits)
  have "P z" using assms(4) [OF z(1)] Cons.prems(2,3) m by simp
  with Cons z m show ?case by simp
qed simp

lemma unmarshal_struct_inv:
  assumes "unmarshal_struct asg zero s = Some y" "P zero"
    and "\<And>k v x y. asg k v x = Some y \<Longrightarrow> P x \<Longrightarrow> json_utf8 v \<Longrightarrow> P y"
  shows "P y"
proof -
  obtain v where v: "json_unmarshal s = Some v" "decode_struct asg zero v = Some y"
    using assms(1) by (auto simp: unmarshal_struct_def split: option.splits)
  show ?thesis
  proof (cases v)
    case (JObj ms)
    then have "list_all (\<lambda>(k, v). utf8_valid k \<and> json_utf8 v) ms"
      using json_unmarshal_utf8 [OF v(1)] by simp
    with JObj v(2) assms(2,3) show ?thesis
      by (auto simp: decode_struct_def intro: assign_members_inv)
  qed (use v(2) assms(2) in \<open>auto simp: decode_struct_def\<close>)
qed

section \<open>Flat objects\<close>

text \<open>Every object the program marshals, one apart, has only strings and integers in it.\<close>

fun flat_ok :: "string \<times> json \<Rightarrow> bool" where
  "flat_ok (k, JStr s) = (utf8_valid k \<and> utf8_valid s)"
| "flat_ok (k, JNum n) = (utf8_valid k \<and> int_literal n)"
| "flat_ok _ = False"

lemma flat_ok_facts:
  assumes "flat_ok (k, v)"
  shows "json_ints v" "json_depth v = 0" "json_sane v = v" "to_valid k = k"
  using assms by (cases v; simp)+

lemma fold_max_zero: "\<forall>x\<in>set xs. f x = 0 \<Longrightarrow> fold max (map f xs) (0::nat) = 0"
  by (induction xs) auto

theorem unmarshal_flat:
  assumes "list_all flat_ok ms"
  shows "json_unmarshal (json_print (JObj ms)) = Some (JObj ms)"
proof -
  have "json_ints (JObj ms)" "map (\<lambda>(k, v). (to_valid k, json_sane v)) ms = ms"
    using assms flat_ok_facts by (force simp: list_all_iff intro!: map_idI)+
  moreover have "fold max (map (\<lambda>(k, v). json_depth v) ms) 0 = 0"
    using assms flat_ok_facts(2) by (intro fold_max_zero) (force simp: list_all_iff)
  ultimately show ?thesis
    using parse_print [of "JObj ms"] by (simp add: max_depth_def)
qed

text \<open>The same without assuming valid strings: they arrive with malformed bytes replaced.\<close>

lemma unmarshal_struct_strings:
  assumes "list_all (\<lambda>(k, v). \<exists>s. v = JStr s) ms"
  shows "unmarshal_struct asg zero (json_print (JObj ms)) = assign_members asg (map sane_member ms) zero"
proof -
  have "json_ints (JObj ms)" using assms by (fastforce simp: list_all_iff)
  moreover have "fold max (map (\<lambda>(k, v). json_depth v) ms) 0 = 0"
    using assms by (intro fold_max_zero) (fastforce simp: list_all_iff)
  ultimately have "json_unmarshal (json_print (JObj ms)) = Some (JObj (map sane_member ms))"
    using parse_print [of "JObj ms"] by (simp add: max_depth_def sane_member_def)
  then show ?thesis by (simp add: unmarshal_struct_def decode_struct_def)
qed

lemma unmarshal_struct_flat:
  "list_all flat_ok ms \<Longrightarrow>
    unmarshal_struct asg zero (json_print (JObj ms)) = assign_members asg ms zero"
  by (simp only: unmarshal_struct_def unmarshal_flat option.case decode_struct_def json.case)

lemma fold_name_lower:
  assumes "list_all (\<lambda>c. (97 \<le> byte c \<and> byte c \<le> 122) \<or> c = CHR ''_'') k"
  shows "fold_name k = k"
proof -
  have ascii: "\<forall>c\<in>set k. byte c < 0x80" and low: "\<forall>c\<in>set k. fold_rune (byte c) = byte c"
    using assms by (auto simp: list_all_iff fold_rune_def)
  have "map (\<lambda>r. encode_rune (fold_rune r)) (runes k) = map (\<lambda>c. [c]) k"
    using ascii low by (simp add: runes_ascii encode_rune_byte)
  then show ?thesis by (simp add: fold_name_def)
qed

lemma utf8_valid_commas: "\<forall>x\<in>set xs. utf8_valid x \<Longrightarrow> utf8_valid (commas xs)"
  by (induction xs rule: commas.induct) (auto intro!: utf8_valid_append)

lemma utf8_valid_digits: "list_all is_digit s \<Longrightarrow> utf8_valid s"
  by (rule ascii_valid) (auto simp: list_all_iff is_digit_def)

lemma utf8_valid_int_literal: "int_literal n \<Longrightarrow> utf8_valid n"
  by (cases n) (auto simp: int_literal_def nat_literal_def is_digit_def utf8_valid_digits split: if_splits)

lemma utf8_valid_flat_print:
  assumes "list_all flat_ok ms"
  shows "utf8_valid (json_print (JObj ms))"
proof -
  have "utf8_valid (json_quote k @ CHR '':'' # json_print v)" if "(k, v) \<in> set ms" for k v
    using that assms
    by (cases v) (auto simp: list_all_iff utf8_valid_int_literal dest!: bspec intro!: utf8_valid_append)
  then have "utf8_valid (commas (map (\<lambda>(k, v). json_quote k @ CHR '':'' # json_print v) ms))"
    by (intro utf8_valid_commas) auto
  then show ?thesis by (auto intro!: utf8_valid_append)
qed

end
