(* ===== verification/Envelope.thy ===== *)
theory Envelope
  imports Json
begin

text \<open>
  \<^verbatim>\<open>internal/envelope\<close>: the message wire format and the rules for signing and verifying it
  (\<^verbatim>\<open>envelope.go\<close>, \<^verbatim>\<open>shush.go\<close>).

  SHA-256 and Ed25519 are arguments of the model, the record \<open>crypto\<close>; the one thing the code
  relies on is \<open>crypto_ok\<close>: a signature made with a private key verifies under its public key.
  Headers, envelopes and shush references are marshalled and unmarshalled by the JSON library,
  byte for byte. \<open>json.Marshal\<close> of these structs cannot fail, so its error branches
  (and the panics behind them) do not occur in the model.
\<close>

record crypto =
  sha256 :: "string \<Rightarrow> string"
  ed_public :: "string \<Rightarrow> string"
  ed_sign :: "string \<Rightarrow> string \<Rightarrow> string"
  ed_verify :: "string \<Rightarrow> string \<Rightarrow> string \<Rightarrow> bool"

definition crypto_ok :: "crypto \<Rightarrow> bool" where
  "crypto_ok cr \<longleftrightarrow> (\<forall>k m. ed_verify cr (ed_public cr k) m (ed_sign cr k m))"

section \<open>Kinds, headers and messages\<close>

definition schema_version :: int where
  "schema_version = 1"

definition kind_text :: string where "kind_text = ''text''"

definition kind_image :: string where "kind_image = ''image''"

definition kind_shush :: string where "kind_shush = ''shush''"

definition kind_valid :: "string \<Rightarrow> bool" where
  "kind_valid k \<longleftrightarrow> k = kind_text \<or> k = kind_image \<or> k = kind_shush"

definition payload_stripped :: string where
  "payload_stripped = []"

datatype malformed = UnknownKind string | EmptyRoom | EmptyNick | ImageWithoutMime | EmptyPayload
  | NotJson | MissingHeader | SigNotBase64 | HeaderNotJson | ShushNotJson | ShushZero

datatype env_error = Malformed malformed | UnknownKey string | BadSignature | HashMismatch

record header =
  h_v :: int
  h_room :: string
  h_seq :: u64
  h_ts :: int
  h_nick :: string
  h_kind :: string
  h_hash :: string
  h_keyid :: string
  h_mime :: string
  h_w :: int
  h_h :: int

definition zero_header :: header where
  "zero_header = \<lparr>h_v = 0, h_room = [], h_seq = 0, h_ts = 0, h_nick = [], h_kind = [],
     h_hash = [], h_keyid = [], h_mime = [], h_w = 0, h_h = 0\<rparr>"

definition validate :: "header \<Rightarrow> malformed option" where
  "validate h =
     (if \<not> kind_valid (h_kind h) then Some (UnknownKind (h_kind h))
      else if h_room h = [] then Some EmptyRoom
      else if h_nick h = [] then Some EmptyNick
      else if h_kind h = kind_image \<and> h_mime h = [] then Some ImageWithoutMime
      else None)"

record message =
  m_header :: header
  m_raw :: string
  m_sig :: string
  m_payload :: string
  m_wire :: string

definition stripped :: "message \<Rightarrow> bool" where
  "stripped m \<longleftrightarrow> h_kind (m_header m) = kind_image \<and> m_payload m = payload_stripped"

definition hash_payload :: "crypto \<Rightarrow> string \<Rightarrow> string" where
  "hash_payload cr p = hex_encode (sha256 cr p)"

section \<open>Marshalling\<close>

text \<open>Struct fields in declaration order; the last three have \<open>omitempty\<close>.\<close>

definition header_members :: "header \<Rightarrow> (string \<times> json) list" where
  "header_members h =
     [(''v'', JNum (int_str (h_v h))), (''room'', JStr (h_room h)),
      (''seq'', JNum (nat_str (unat (h_seq h)))), (''ts'', JNum (int_str (h_ts h))),
      (''nick'', JStr (h_nick h)), (''kind'', JStr (h_kind h)), (''hash'', JStr (h_hash h)),
      (''keyid'', JStr (h_keyid h))] @
     (if h_mime h = [] then [] else [(''mime'', JStr (h_mime h))]) @
     (if h_w h = 0 then [] else [(''w'', JNum (int_str (h_w h)))]) @
     (if h_h h = 0 then [] else [(''h'', JNum (int_str (h_h h)))])"

definition marshal_header :: "header \<Rightarrow> string" where
  "marshal_header h = json_print (JObj (header_members h))"

definition set_header :: "string \<Rightarrow> json \<Rightarrow> header \<Rightarrow> header option" where
  "set_header k v h =
     (if k = ''v'' then set_int (\<lambda>x. h\<lparr>h_v := x\<rparr>) v h
      else if k = ''room'' then set_string (\<lambda>x. h\<lparr>h_room := x\<rparr>) v h
      else if k = ''seq'' then set_uint (\<lambda>x. h\<lparr>h_seq := x\<rparr>) v h
      else if k = ''ts'' then set_int (\<lambda>x. h\<lparr>h_ts := x\<rparr>) v h
      else if k = ''nick'' then set_string (\<lambda>x. h\<lparr>h_nick := x\<rparr>) v h
      else if k = ''kind'' then set_string (\<lambda>x. h\<lparr>h_kind := x\<rparr>) v h
      else if k = ''hash'' then set_string (\<lambda>x. h\<lparr>h_hash := x\<rparr>) v h
      else if k = ''keyid'' then set_string (\<lambda>x. h\<lparr>h_keyid := x\<rparr>) v h
      else if k = ''mime'' then set_string (\<lambda>x. h\<lparr>h_mime := x\<rparr>) v h
      else if k = ''w'' then set_int (\<lambda>x. h\<lparr>h_w := x\<rparr>) v h
      else if k = ''h'' then set_int (\<lambda>x. h\<lparr>h_h := x\<rparr>) v h
      else Some h)"

definition unmarshal_header :: "string \<Rightarrow> header option" where
  "unmarshal_header s = unmarshal_struct set_header zero_header s"

record wire_envelope =
  w_h :: string
  w_sig :: string
  w_p :: string

definition wire_members :: "wire_envelope \<Rightarrow> (string \<times> json) list" where
  "wire_members w = [(''h'', JStr (w_h w)), (''sig'', JStr (w_sig w)), (''p'', JStr (w_p w))]"

definition set_wire :: "string \<Rightarrow> json \<Rightarrow> wire_envelope \<Rightarrow> wire_envelope option" where
  "set_wire k v w =
     (if k = ''h'' then set_string (\<lambda>x. w\<lparr>w_h := x\<rparr>) v w
      else if k = ''sig'' then set_string (\<lambda>x. w\<lparr>w_sig := x\<rparr>) v w
      else if k = ''p'' then set_string (\<lambda>x. w\<lparr>w_p := x\<rparr>) v w
      else Some w)"

definition unmarshal_wire :: "string \<Rightarrow> wire_envelope option" where
  "unmarshal_wire s = unmarshal_struct set_wire \<lparr>w_h = [], w_sig = [], w_p = []\<rparr> s"

definition encode_wire :: "message \<Rightarrow> string" where
  "encode_wire m =
     json_print (JObj (wire_members
       \<lparr>w_h = m_raw m, w_sig = b64_encode b64_std True (m_sig m), w_p = m_payload m\<rparr>))"

definition archival :: "message \<Rightarrow> message" where
  "archival m =
     (if h_kind (m_header m) \<noteq> kind_image \<or> stripped m then m
      else let s = \<lparr>m_header = m_header m, m_raw = m_raw m, m_sig = m_sig m,
                    m_payload = payload_stripped, m_wire = []\<rparr>
           in s\<lparr>m_wire := encode_wire s\<rparr>)"

section \<open>Sealing\<close>

record signer =
  s_keyid :: string
  s_priv :: string

definition signer_public :: "crypto \<Rightarrow> signer \<Rightarrow> string" where
  "signer_public cr s = ed_public cr (s_priv s)"

definition seal :: "crypto \<Rightarrow> signer \<Rightarrow> header \<Rightarrow> string \<Rightarrow> env_error + message" where
  "seal cr s h0 payload =
     (if payload = [] then Inl (Malformed EmptyPayload)
      else let h = h0\<lparr>h_v := schema_version, h_keyid := s_keyid s, h_hash := hash_payload cr payload\<rparr>
           in case validate h of
                Some e \<Rightarrow> Inl (Malformed e)
              | None \<Rightarrow>
                  let raw = marshal_header h;
                      m = \<lparr>m_header = h, m_raw = raw, m_sig = ed_sign cr (s_priv s) raw,
                           m_payload = payload, m_wire = []\<rparr>
                  in Inr (m\<lparr>m_wire := encode_wire m\<rparr>))"

section \<open>Opening\<close>

type_synonym key_lookup = "string \<Rightarrow> string option"

definition single_key :: "string \<Rightarrow> string \<Rightarrow> key_lookup" where
  "single_key keyid pub = (\<lambda>i. if i \<noteq> keyid then None else Some pub)"

definition set_peek_keyid :: "string \<Rightarrow> json \<Rightarrow> string \<Rightarrow> string option" where
  "set_peek_keyid k v x = (if k = ''keyid'' then set_string (\<lambda>y. y) v x else Some x)"

definition open_envelope :: "crypto \<Rightarrow> key_lookup \<Rightarrow> string \<Rightarrow> env_error + message" where
  "open_envelope cr keys data =
     (case unmarshal_wire data of
        None \<Rightarrow> Inl (Malformed NotJson)
      | Some w \<Rightarrow>
          if w_h w = [] then Inl (Malformed MissingHeader)
          else case b64_decode b64_std True (w_sig w) of
            None \<Rightarrow> Inl (Malformed SigNotBase64)
          | Some sig \<Rightarrow>
              (case unmarshal_struct set_peek_keyid [] (w_h w) of
                 None \<Rightarrow> Inl (Malformed HeaderNotJson)
               | Some keyid \<Rightarrow>
                   (case keys keyid of
                      None \<Rightarrow> Inl (UnknownKey keyid)
                    | Some pub \<Rightarrow>
                        if \<not> ed_verify cr pub (w_h w) sig then Inl BadSignature
                        else case unmarshal_header (w_h w) of
                          None \<Rightarrow> Inl (Malformed HeaderNotJson)
                        | Some h \<Rightarrow>
                            let m = \<lparr>m_header = h, m_raw = w_h w, m_sig = sig,
                                     m_payload = w_p w, m_wire = data\<rparr>
                            in if \<not> stripped m \<and> h_hash h \<noteq> hash_payload cr (w_p w)
                               then Inl HashMismatch else Inr m)))"

section \<open>Shush references\<close>

definition marshal_shush :: "u64 \<Rightarrow> string" where
  "marshal_shush seq = json_print (JObj [(''seq'', JNum (nat_str (unat seq)))])"

definition set_shush_ref :: "string \<Rightarrow> json \<Rightarrow> u64 \<Rightarrow> u64 option" where
  "set_shush_ref k v x = (if k = ''seq'' then set_uint (\<lambda>y. y) v x else Some x)"

definition parse_shush :: "string \<Rightarrow> env_error + u64" where
  "parse_shush payload =
     (case unmarshal_struct set_shush_ref 0 payload of
        None \<Rightarrow> Inl (Malformed ShushNotJson)
      | Some seq \<Rightarrow> if seq = 0 then Inl (Malformed ShushZero) else Inr seq)"

section \<open>Round trips of the structs\<close>

definition header_ok :: "header \<Rightarrow> bool" where
  "header_ok h \<longleftrightarrow> utf8_valid (h_room h) \<and> utf8_valid (h_nick h) \<and> utf8_valid (h_kind h) \<and>
     utf8_valid (h_hash h) \<and> utf8_valid (h_keyid h) \<and> utf8_valid (h_mime h) \<and>
     int64_range (h_v h) \<and> int64_range (h_ts h) \<and> int64_range (h_w h) \<and> int64_range (h_h h)"

definition wire_ok :: "wire_envelope \<Rightarrow> bool" where
  "wire_ok w \<longleftrightarrow> utf8_valid (w_h w) \<and> utf8_valid (w_sig w) \<and> utf8_valid (w_p w)"

lemma fold_name_fields [simp]:
  "fold_name ''v'' = ''v''" "fold_name ''room'' = ''room''" "fold_name ''seq'' = ''seq''"
  "fold_name ''ts'' = ''ts''" "fold_name ''nick'' = ''nick''" "fold_name ''kind'' = ''kind''"
  "fold_name ''hash'' = ''hash''" "fold_name ''keyid'' = ''keyid''" "fold_name ''mime'' = ''mime''"
  "fold_name ''w'' = ''w''" "fold_name ''h'' = ''h''" "fold_name ''p'' = ''p''"
  "fold_name ''sig'' = ''sig''"
  by (rule fold_name_lower; simp)+

lemma flat_header_members: "header_ok h \<Longrightarrow> list_all flat_ok (header_members h)"
  by (simp add: header_ok_def header_members_def)

lemma unmarshal_marshal_header:
  assumes "header_ok h"
  shows "unmarshal_header (marshal_header h) = Some h"
proof -
  have "unmarshal_header (marshal_header h) = assign_members set_header (header_members h) zero_header"
    unfolding unmarshal_header_def marshal_header_def
    using assms by (intro unmarshal_struct_flat flat_header_members)
  also have "\<dots> = Some h"
    using assms
    by (simp add: header_members_def header_ok_def set_header_def zero_header_def)
  finally show ?thesis .
qed

interpretation header_codec: codec marshal_header unmarshal_header header_ok
  by unfold_locales (rule unmarshal_marshal_header)

definition marshal_wire :: "wire_envelope \<Rightarrow> string" where
  "marshal_wire w = json_print (JObj (wire_members w))"

lemma encode_wire_marshal:
  "encode_wire m = marshal_wire
     \<lparr>w_h = m_raw m, w_sig = b64_encode b64_std True (m_sig m), w_p = m_payload m\<rparr>"
  by (simp add: encode_wire_def marshal_wire_def)

lemma unmarshal_marshal_wire:
  assumes "wire_ok w"
  shows "unmarshal_wire (marshal_wire w) = Some w"
proof -
  have "unmarshal_wire (marshal_wire w)
    = assign_members set_wire (wire_members w) \<lparr>w_h = [], w_sig = [], w_p = []\<rparr>"
    unfolding unmarshal_wire_def marshal_wire_def
    using assms by (intro unmarshal_struct_flat) (simp add: wire_members_def wire_ok_def)
  then show ?thesis by (simp add: wire_members_def set_wire_def)
qed

interpretation wire_codec: codec marshal_wire unmarshal_wire wire_ok
  by unfold_locales (rule unmarshal_marshal_wire)

lemma parse_marshal_shush: "parse_shush (marshal_shush s) = (if s = 0 then Inl (Malformed ShushZero) else Inr s)"
proof -
  have "unmarshal_struct set_shush_ref 0 (marshal_shush s) = Some s"
    unfolding marshal_shush_def by (subst unmarshal_struct_flat) (simp_all add: set_shush_ref_def)
  then show ?thesis by (simp add: parse_shush_def)
qed

interpretation shush_codec: codec marshal_shush "\<lambda>p. case parse_shush p of Inl _ \<Rightarrow> None | Inr s \<Rightarrow> Some s"
    "\<lambda>s. s \<noteq> 0"
  by unfold_locales (simp add: parse_marshal_shush)

text \<open>Marshalled text is printable, hence free of newlines, and never empty.\<close>

lemma printable_marshal [simp]:
  "printable (marshal_header h)" "printable (encode_wire m)" "printable (marshal_shush q)"
  unfolding marshal_header_def encode_wire_def marshal_shush_def
  by (intro printable_json_print; simp add: header_members_def wire_members_def)+

lemma marshal_neq_Nil [simp]:
  "marshal_header h \<noteq> []" "encode_wire m \<noteq> []" "marshal_shush q \<noteq> []"
  by (simp_all add: marshal_header_def encode_wire_def marshal_shush_def)

lemma utf8_valid_marshal_header: "header_ok h \<Longrightarrow> utf8_valid (marshal_header h)"
  unfolding marshal_header_def by (intro utf8_valid_flat_print flat_header_members)

lemma utf8_valid_marshal_shush [simp]: "utf8_valid (marshal_shush q)"
  unfolding marshal_shush_def by (intro utf8_valid_flat_print) simp

section \<open>What sealing produces\<close>

definition sealed_header :: "crypto \<Rightarrow> signer \<Rightarrow> header \<Rightarrow> string \<Rightarrow> header" where
  "sealed_header cr s h payload =
     h\<lparr>h_v := schema_version, h_keyid := s_keyid s, h_hash := hash_payload cr payload\<rparr>"

text \<open>A message whose bytes are the ones its header and payload marshal to.\<close>

definition wf_message :: "message \<Rightarrow> bool" where
  "wf_message m \<longleftrightarrow> header_ok (m_header m) \<and> m_raw m = marshal_header (m_header m) \<and>
     m_wire m = encode_wire m"

lemma encode_wire_update [simp]: "encode_wire (m\<lparr>m_wire := w\<rparr>) = encode_wire m"
  by (simp add: encode_wire_def)

lemma validate_sealed [simp]: "validate (sealed_header cr s h p) = validate h"
  by (simp add: validate_def sealed_header_def)

lemma sealed_header_fields [simp]:
  "h_room (sealed_header cr s h p) = h_room h" "h_seq (sealed_header cr s h p) = h_seq h"
  "h_ts (sealed_header cr s h p) = h_ts h" "h_nick (sealed_header cr s h p) = h_nick h"
  "h_kind (sealed_header cr s h p) = h_kind h" "h_mime (sealed_header cr s h p) = h_mime h"
  "h_w (sealed_header cr s h p) = h_w h" "h_h (sealed_header cr s h p) = h_h h"
  "h_keyid (sealed_header cr s h p) = s_keyid s" "h_hash (sealed_header cr s h p) = hash_payload cr p"
  "h_v (sealed_header cr s h p) = schema_version"
  by (simp_all add: sealed_header_def)

lemma seal_Inr:
  "seal cr s h p = Inr m \<longleftrightarrow>
     p \<noteq> [] \<and> validate h = None \<and> m_header m = sealed_header cr s h p \<and>
     m_raw m = marshal_header (sealed_header cr s h p) \<and>
     m_sig m = ed_sign cr (s_priv s) (m_raw m) \<and> m_payload m = p \<and> m_wire m = encode_wire m"
proof -
  have "seal cr s h p = (if p = [] then Inl (Malformed EmptyPayload)
     else case validate h of Some e \<Rightarrow> Inl (Malformed e)
       | None \<Rightarrow> let m' = \<lparr>m_header = sealed_header cr s h p,
            m_raw = marshal_header (sealed_header cr s h p),
            m_sig = ed_sign cr (s_priv s) (marshal_header (sealed_header cr s h p)),
            m_payload = p, m_wire = []\<rparr> in Inr (m'\<lparr>m_wire := encode_wire m'\<rparr>))"
    using validate_sealed [of cr s h p]
    by (simp add: seal_def Let_def sealed_header_def split: option.splits)
  then show ?thesis
    by (cases m) (auto simp: Let_def encode_wire_def split: option.splits)
qed

lemma hash_payload_valid [simp]: "utf8_valid (hash_payload cr p)"
  unfolding hash_payload_def by (rule ascii_valid) (use hex_encode_ascii in blast)

lemma header_ok_sealed [simp]:
  "header_ok h \<Longrightarrow> utf8_valid (s_keyid s) \<Longrightarrow> header_ok (sealed_header cr s h p)"
  by (simp add: header_ok_def schema_version_def int64_range_def)

lemma seal_wf: "seal cr s h p = Inr m \<Longrightarrow> header_ok h \<Longrightarrow> utf8_valid (s_keyid s) \<Longrightarrow> wf_message m"
  by (simp add: seal_Inr wf_message_def)

lemma archival_wf: "wf_message m \<Longrightarrow> wf_message (archival m)"
  by (simp add: wf_message_def archival_def Let_def encode_wire_def)

lemma archival_fields [simp]:
  "m_header (archival m) = m_header m" "m_raw (archival m) = m_raw m" "m_sig (archival m) = m_sig m"
  "m_payload (archival m) = (if h_kind (m_header m) = kind_image then [] else m_payload m)"
  by (simp_all add: archival_def Let_def stripped_def payload_stripped_def)

lemma stripped_archival: "h_kind (m_header m) = kind_image \<Longrightarrow> stripped (archival m)"
  by (simp add: stripped_def payload_stripped_def)

section \<open>Opening what was sealed\<close>

lemma peek_keyid_members:
  "assign_members set_header ms h = Some h' \<Longrightarrow>
    assign_members set_peek_keyid ms (h_keyid h) = Some (h_keyid h')"
proof (induction ms arbitrary: h)
  case (Cons m ms)
  obtain k v where m: "m = (k, v)" by (cases m)
  with Cons.prems obtain g where g: "set_header (fold_name k) v h = Some g"
    "assign_members set_header ms g = Some h'" by (auto split: option.splits)
  have "set_peek_keyid (fold_name k) v (h_keyid h) = Some (h_keyid g)"
    using g(1) by (cases v) (auto simp: set_header_def set_peek_keyid_def split: if_splits)
  with Cons.IH [OF g(2)] m show ?case by simp
qed simp

text \<open>The key a header is verified under is the one its signed \<open>keyid\<close> names.\<close>

lemma peek_keyid:
  assumes "unmarshal_header s = Some h"
  shows "unmarshal_struct set_peek_keyid [] s = Some (h_keyid h)"
proof -
  obtain v where v: "json_unmarshal s = Some v" "decode_struct set_header zero_header v = Some h"
    using assms by (auto simp: unmarshal_header_def unmarshal_struct_def split: option.splits)
  then have "decode_struct set_peek_keyid [] v = Some (h_keyid h)"
    using peek_keyid_members [of _ zero_header]
    by (cases v) (auto simp: decode_struct_def zero_header_def)
  with v(1) show ?thesis by (simp add: unmarshal_struct_def)
qed

lemma unmarshal_encode_wire:
  assumes "wf_message m" "utf8_valid (m_payload m)"
  shows "unmarshal_wire (m_wire m) = Some
    \<lparr>w_h = m_raw m, w_sig = b64_encode b64_std True (m_sig m), w_p = m_payload m\<rparr>"
  using assms by (simp add: wf_message_def encode_wire_marshal wire_codec.dec_enc wire_ok_def
      utf8_valid_marshal_header b64_encode_valid)

lemma open_wf:
  assumes "wf_message m" "utf8_valid (m_payload m)"
  shows "open_envelope cr keys (m_wire m) =
    (case keys (h_keyid (m_header m)) of
       None \<Rightarrow> Inl (UnknownKey (h_keyid (m_header m)))
     | Some pub \<Rightarrow>
         if \<not> ed_verify cr pub (m_raw m) (m_sig m) then Inl BadSignature
         else if \<not> stripped m \<and> h_hash (m_header m) \<noteq> hash_payload cr (m_payload m)
         then Inl HashMismatch else Inr m)"
proof -
  have h: "unmarshal_header (m_raw m) = Some (m_header m)" and "m_raw m \<noteq> []"
    using assms(1) by (simp_all add: wf_message_def header_codec.dec_enc)
  with peek_keyid [OF h] unmarshal_encode_wire [OF assms] show ?thesis
    by (cases m) (auto simp: open_envelope_def Let_def split: option.splits)
qed

definition signed_by :: "crypto \<Rightarrow> key_lookup \<Rightarrow> message \<Rightarrow> bool" where
  "signed_by cr keys m \<longleftrightarrow>
     (case keys (h_keyid (m_header m)) of
        None \<Rightarrow> False | Some pub \<Rightarrow> ed_verify cr pub (m_raw m) (m_sig m))"

definition hash_holds :: "crypto \<Rightarrow> message \<Rightarrow> bool" where
  "hash_holds cr m \<longleftrightarrow> stripped m \<or> h_hash (m_header m) = hash_payload cr (m_payload m)"

lemma open_wf_Inr:
  "wf_message m \<Longrightarrow> utf8_valid (m_payload m) \<Longrightarrow> signed_by cr keys m \<Longrightarrow> hash_holds cr m \<Longrightarrow>
    open_envelope cr keys (m_wire m) = Inr m"
  by (auto simp: open_wf signed_by_def hash_holds_def split: option.splits)

lemma seal_signed:
  "crypto_ok cr \<Longrightarrow> seal cr s h p = Inr m \<Longrightarrow> keys (s_keyid s) = Some (signer_public cr s) \<Longrightarrow>
    signed_by cr keys m \<and> hash_holds cr m"
  by (simp add: seal_Inr signed_by_def hash_holds_def signer_public_def crypto_ok_def)

lemma archival_signed: "signed_by cr keys m \<Longrightarrow> signed_by cr keys (archival m)"
  by (auto simp: signed_by_def split: option.splits)

lemma archival_hash_holds: "hash_holds cr m \<Longrightarrow> hash_holds cr (archival m)"
proof (cases "h_kind (m_header m) = kind_image")
  case True
  then show ?thesis by (simp add: hash_holds_def stripped_archival)
next
  case False
  then have "archival m = m" by (simp add: archival_def)
  then show "hash_holds cr m \<Longrightarrow> hash_holds cr (archival m)" by simp
qed

lemma unmarshal_encode_wire_sane:
  assumes "wf_message m"
  shows "unmarshal_wire (m_wire m) = Some
    \<lparr>w_h = m_raw m, w_sig = b64_encode b64_std True (m_sig m), w_p = to_valid (m_payload m)\<rparr>"
proof -
  have "utf8_valid (m_raw m)" using assms by (simp add: wf_message_def utf8_valid_marshal_header)
  moreover have "m_wire m = json_print (JObj (wire_members \<lparr>w_h = m_raw m,
      w_sig = b64_encode b64_std True (m_sig m), w_p = m_payload m\<rparr>))"
    using assms by (simp add: wf_message_def encode_wire_def)
  moreover have "unmarshal_wire (json_print (JObj (wire_members w)))
      = Some \<lparr>w_h = to_valid (w_h w), w_sig = to_valid (w_sig w), w_p = to_valid (w_p w)\<rparr>" for w
  proof -
    have "list_all (\<lambda>(k, v). \<exists>s. v = JStr s) (wire_members w)" by (simp add: wire_members_def)
    then have "unmarshal_wire (json_print (JObj (wire_members w)))
      = assign_members set_wire (map sane_member (wire_members w)) \<lparr>w_h = [], w_sig = [], w_p = []\<rparr>"
      unfolding unmarshal_wire_def by (rule unmarshal_struct_strings)
    then show ?thesis by (simp add: wire_members_def sane_member_def set_wire_def)
  qed
  ultimately show ?thesis by (simp add: b64_encode_valid del: json_print.simps)
qed

section \<open>Instances for the witnesses\<close>

text \<open>A signature scheme and a digest that satisfy \<open>crypto_ok\<close>: the signature is the first
  64 bytes of the key and the message, the digest the first 32 bytes.\<close>

definition sample_crypto :: crypto where
  "sample_crypto = \<lparr>sha256 = (\<lambda>s. take 32 (s @ replicate 32 CHR 0x00)), ed_public = (\<lambda>k. k),
     ed_sign = (\<lambda>k m. take 64 (k @ m @ replicate 64 CHR 0x00)),
     ed_verify = (\<lambda>k m sg. sg = take 64 (k @ m @ replicate 64 CHR 0x00))\<rparr>"

definition sample_signer :: signer where
  "sample_signer = \<lparr>s_keyid = ''k1'', s_priv = ''private''\<rparr>"

definition sample_keys :: key_lookup where
  "sample_keys = single_key (s_keyid sample_signer) (signer_public sample_crypto sample_signer)"

definition sample_header :: "u64 \<Rightarrow> string \<Rightarrow> string \<Rightarrow> header" where
  "sample_header q kind mime = zero_header\<lparr>h_room := ''general'', h_seq := q, h_ts := 1755130000,
     h_nick := ''sam'', h_kind := kind, h_mime := mime\<rparr>"

definition sample_message :: "u64 \<Rightarrow> string \<Rightarrow> string \<Rightarrow> string \<Rightarrow> message" where
  "sample_message q kind mime p =
     projr (seal sample_crypto sample_signer (sample_header q kind mime) p)"

lemma crypto_ok_sample [simp]: "crypto_ok sample_crypto"
  by (simp add: crypto_ok_def sample_crypto_def)

lemma sample_keys_signer [simp]:
  "sample_keys (s_keyid sample_signer) = Some (signer_public sample_crypto sample_signer)"
  by (simp add: sample_keys_def single_key_def)

lemma sample_keyid_valid [simp]: "utf8_valid (s_keyid sample_signer)"
  by (simp add: sample_signer_def)

lemma header_ok_sample [simp]:
  "utf8_valid kind \<Longrightarrow> utf8_valid mime \<Longrightarrow> header_ok (sample_header q kind mime)"
  by (simp add: sample_header_def header_ok_def zero_header_def int64_range_def)

lemma kind_strings_valid [simp]:
  "utf8_valid kind_text" "utf8_valid kind_image" "utf8_valid kind_shush"
  by (simp_all add: kind_text_def kind_image_def kind_shush_def)

lemma kinds_distinct [simp]:
  "kind_text \<noteq> kind_image" "kind_image \<noteq> kind_text" "kind_shush \<noteq> kind_image"
  "kind_image \<noteq> kind_shush" "kind_text \<noteq> kind_shush" "kind_shush \<noteq> kind_text"
  by (simp_all add: kind_text_def kind_image_def kind_shush_def)

lemma kinds_valid [simp]: "kind_valid kind_text" "kind_valid kind_image" "kind_valid kind_shush"
  by (simp_all add: kind_valid_def)

lemma sample_sealed:
  assumes "p \<noteq> []" "kind_valid kind" "kind = kind_image \<longrightarrow> mime \<noteq> []"
  shows "seal sample_crypto sample_signer (sample_header q kind mime) p
    = Inr (sample_message q kind mime p)"
proof -
  have v: "validate (sealed_header sample_crypto sample_signer (sample_header q kind mime) p) = None"
    using assms by (simp add: validate_def) (simp add: sample_header_def)
  have "\<exists>m. seal sample_crypto sample_signer (sample_header q kind mime) p = Inr m"
    unfolding seal_def Let_def sealed_header_def [symmetric] v using assms(1) by simp
  then show ?thesis by (auto simp: sample_message_def)
qed

lemma mime_valid: "utf8_valid ''image/png''"
  by simp

lemma open_sample_text:
  "open_envelope sample_crypto sample_keys (m_wire (sample_message 7 kind_text [] ''hello''))
    = Inr (sample_message 7 kind_text [] ''hello'')"
  and sample_text_fields:
  "\<not> stripped (sample_message 7 kind_text [] ''hello'')"
  "m_payload (sample_message 7 kind_text [] ''hello'') = ''hello''"
proof -
  have s: "seal sample_crypto sample_signer (sample_header 7 kind_text []) ''hello''
    = Inr (sample_message 7 kind_text [] ''hello'')"
    by (rule sample_sealed) simp_all
  show "open_envelope sample_crypto sample_keys (m_wire (sample_message 7 kind_text [] ''hello''))
    = Inr (sample_message 7 kind_text [] ''hello'')"
    using s seal_wf [OF s] seal_signed [OF crypto_ok_sample s, of sample_keys]
    by (intro open_wf_Inr) (simp_all add: seal_Inr)
  show "\<not> stripped (sample_message 7 kind_text [] ''hello'')"
    "m_payload (sample_message 7 kind_text [] ''hello'') = ''hello''"
    using s by (simp_all add: seal_Inr stripped_def payload_stripped_def)
qed

section \<open>Properties\<close>

text \<open>C14: opening a sealed message. What \<open>Seal\<close> produced from a header and a payload in valid
  UTF-8 opens, with a key lookup that knows the signer's key, to that very message: the header
  parsed from the wire is the header that was sealed, and signature and payload are unchanged.\<close>

theorem seal_open_roundtrip:
  assumes "crypto_ok cr" "seal cr s h p = Inr m" "header_ok h" "utf8_valid (s_keyid s)"
    and "utf8_valid p" "keys (s_keyid s) = Some (signer_public cr s)"
  shows "open_envelope cr keys (m_wire m) = Inr m"
  using assms seal_signed [OF assms(1,2), of keys]
  by (intro open_wf_Inr seal_wf [OF assms(2)]) (simp_all add: seal_Inr)

theorem seal_open_roundtrip_witness:
  "open_envelope sample_crypto sample_keys (m_wire (sample_message 7 kind_text [] ''hello''))
    = Inr (sample_message 7 kind_text [] ''hello'')"
  by (rule seal_open_roundtrip [OF crypto_ok_sample sample_sealed]) simp_all

text \<open>C15: an archived image still verifies. The archival form of a sealed image carries the same
  header bytes and signature, has the placeholder for its payload, and opens without a hash check
  to exactly itself: it is authentic, not a forgery.\<close>

theorem archived_image_opens:
  assumes "crypto_ok cr" "seal cr s h p = Inr m" "header_ok h" "utf8_valid (s_keyid s)"
    and "keys (s_keyid s) = Some (signer_public cr s)" "h_kind h = kind_image"
  shows "open_envelope cr keys (m_wire (archival m)) = Inr (archival m) \<and> stripped (archival m) \<and>
    m_raw (archival m) = m_raw m \<and> m_sig (archival m) = m_sig m \<and> m_payload (archival m) = []"
proof -
  have img: "h_kind (m_header m) = kind_image" using assms(2,6) by (simp add: seal_Inr)
  have "wf_message (archival m)" using seal_wf [OF assms(2-4)] by (rule archival_wf)
  moreover have "signed_by cr keys (archival m)" "hash_holds cr (archival m)"
    using seal_signed [OF assms(1,2), of keys] assms(5) by (auto intro: archival_signed archival_hash_holds)
  ultimately show ?thesis
    using img by (auto intro!: open_wf_Inr simp: stripped_archival)
qed

theorem archived_image_opens_witness:
  "open_envelope sample_crypto sample_keys
      (m_wire (archival (sample_message 8 kind_image ''image/png'' ''aGVsbG8='')))
    = Inr (archival (sample_message 8 kind_image ''image/png'' ''aGVsbG8=''))"
proof -
  have "seal sample_crypto sample_signer (sample_header 8 kind_image ''image/png'') ''aGVsbG8=''
    = Inr (sample_message 8 kind_image ''image/png'' ''aGVsbG8='')"
    by (rule sample_sealed) simp_all
  moreover have "h_kind (sample_header 8 kind_image ''image/png'') = kind_image"
    by (simp add: sample_header_def)
  ultimately show ?thesis
    using archived_image_opens [OF crypto_ok_sample] header_ok_sample sample_keyid_valid
      sample_keys_signer kind_strings_valid(2) mime_valid by blast
qed

text \<open>C16: what \<open>Open\<close> accepts is authentic. Whatever the bytes, an accepted message verifies
  under the key that the \<open>keyid\<close> inside its signed header names, its header is the one parsed from
  the verified bytes, and its payload matches the header's hash unless it is a stripped image. The
  untrusted first look at \<open>keyid\<close> cannot select another key.\<close>

theorem open_authentic:
  assumes "open_envelope cr keys data = Inr m"
  shows "\<exists>pub. keys (h_keyid (m_header m)) = Some pub \<and> ed_verify cr pub (m_raw m) (m_sig m) \<and>
    unmarshal_header (m_raw m) = Some (m_header m) \<and> m_wire m = data \<and>
    (stripped m \<or> h_hash (m_header m) = hash_payload cr (m_payload m))"
proof -
  obtain w where w: "unmarshal_wire data = Some w" "w_h w \<noteq> []"
    using assms by (auto simp: open_envelope_def split: option.splits if_splits)
  obtain sig keyid pub h where o: "b64_decode b64_std True (w_sig w) = Some sig"
    "unmarshal_struct set_peek_keyid [] (w_h w) = Some keyid" "keys keyid = Some pub"
    "ed_verify cr pub (w_h w) sig" "unmarshal_header (w_h w) = Some h"
    using assms w by (auto simp: open_envelope_def split: option.splits if_splits)
  with assms w have m: "m = \<lparr>m_header = h, m_raw = w_h w, m_sig = sig, m_payload = w_p w,
      m_wire = data\<rparr>"
    and "stripped m \<or> h_hash h = hash_payload cr (w_p w)"
    by (auto simp: open_envelope_def Let_def split: if_splits)
  with o peek_keyid [OF o(5)] show ?thesis by simp
qed

theorem open_authentic_witness:
  "\<exists>pub. sample_keys ''k1'' = Some pub \<and>
    ed_verify sample_crypto pub (m_raw (sample_message 7 kind_text [] ''hello''))
      (m_sig (sample_message 7 kind_text [] ''hello''))"
proof -
  have s: "seal sample_crypto sample_signer (sample_header 7 kind_text []) ''hello''
    = Inr (sample_message 7 kind_text [] ''hello'')"
    by (rule sample_sealed) simp_all
  from open_authentic [OF open_sample_text] s show ?thesis
    by (auto simp: seal_Inr sample_signer_def)
qed

text \<open>A payload is bound to its signed header. Two accepted messages with the same header
  bytes, neither a stripped image, carry payloads of the same SHA-256 digest: replacing the payload
  of a message needs a collision.\<close>

theorem payload_bound_to_header:
  assumes "open_envelope cr keys d1 = Inr m1" "open_envelope cr keys' d2 = Inr m2"
    and "m_raw m1 = m_raw m2" "\<not> stripped m1" "\<not> stripped m2"
  shows "sha256 cr (m_payload m1) = sha256 cr (m_payload m2)"
proof -
  have o: "unmarshal_header (m_raw m) = Some (m_header m) \<and>
      (stripped m \<or> h_hash (m_header m) = hash_payload cr (m_payload m))"
    if op: "open_envelope cr ks d = Inr m" for ks d m
    using op unfolding open_envelope_def Let_def
    by (auto split: option.splits if_splits)
  have "hash_payload cr (m_payload m1) = hash_payload cr (m_payload m2)"
    using o [OF assms(1)] o [OF assms(2)] assms(3-5) by simp
  then show ?thesis unfolding hash_payload_def by (rule hex.enc_inj [OF TrueI TrueI])
qed

theorem payload_bound_to_header_witness:
  "sha256 sample_crypto (m_payload (sample_message 7 kind_text [] ''hello''))
    = sha256 sample_crypto ''hello''"
  using payload_bound_to_header [OF open_sample_text open_sample_text refl sample_text_fields(1)
      sample_text_fields(1)]
  by (simp add: sample_text_fields)

text \<open>The validity check on payloads is needed. A payload that is not valid UTF-8 seals, but
  its envelope carries replacement characters, so unless they collide under SHA-256 the envelope
  does not open: it fails its own hash.\<close>

theorem malformed_payload_fails_hash:
  assumes "crypto_ok cr" "seal cr s h p = Inr m" "header_ok h" "utf8_valid (s_keyid s)"
    and "keys (s_keyid s) = Some (signer_public cr s)"
    and "sha256 cr (to_valid p) \<noteq> sha256 cr p"
  shows "open_envelope cr keys (m_wire m) = Inl HashMismatch"
proof -
  have wf: "wf_message m" by (rule seal_wf [OF assms(2-4)])
  have h: "unmarshal_header (m_raw m) = Some (m_header m)" and "m_raw m \<noteq> []"
    using wf by (simp_all add: wf_message_def header_codec.dec_enc)
  have keyid: "h_keyid (m_header m) = s_keyid s" and p: "m_payload m = p" "p \<noteq> []"
    and hash: "h_hash (m_header m) = hash_payload cr p"
    using assms(2) by (simp_all add: seal_Inr)
  have "ed_verify cr (signer_public cr s) (m_raw m) (m_sig m)"
    using assms(1,2) by (simp add: seal_Inr crypto_ok_def signer_public_def)
  moreover have "hash_payload cr p \<noteq> hash_payload cr (to_valid p)"
    using assms(6) hex.enc_inj unfolding hash_payload_def by metis
  ultimately show ?thesis
    using unmarshal_encode_wire_sane [OF wf] h \<open>m_raw m \<noteq> []\<close> peek_keyid [OF h] keyid p hash assms(5)
    by (simp add: open_envelope_def Let_def stripped_def payload_stripped_def)
qed

theorem malformed_payload_fails_hash_witness:
  "open_envelope sample_crypto sample_keys (m_wire (sample_message 7 kind_text [] [CHR 0xFF]))
    = Inl HashMismatch"
proof -
  have "seal sample_crypto sample_signer (sample_header 7 kind_text []) [CHR 0xFF]
    = Inr (sample_message 7 kind_text [] [CHR 0xFF])"
    by (rule sample_sealed) simp_all
  moreover have "to_valid [CHR 0xFF] = encode_scalar rune_error"
    by (simp add: bad_rune_def)
  then have "byte (hd (sha256 sample_crypto (to_valid [CHR 0xFF]))) = 0xEF"
    "byte (hd (sha256 sample_crypto [CHR 0xFF])) = 0xFF"
    by (simp_all add: sample_crypto_def encode_scalar_def rune_error_def)
  then have "sha256 sample_crypto (to_valid [CHR 0xFF]) \<noteq> sha256 sample_crypto [CHR 0xFF]"
    by auto
  ultimately show ?thesis
    using malformed_payload_fails_hash [OF crypto_ok_sample] header_ok_sample [of kind_text "[]"]
      sample_keyid_valid sample_keys_signer by simp
qed

text \<open>When sealing fails. \<open>Seal\<close> rejects exactly an empty payload, a kind outside the
  schema, an empty room or nickname, and an image without a mime type.\<close>

theorem seal_errors:
  "(\<exists>m. seal cr s h p = Inr m) \<longleftrightarrow>
    p \<noteq> [] \<and> kind_valid (h_kind h) \<and> h_room h \<noteq> [] \<and> h_nick h \<noteq> [] \<and>
    \<not> (h_kind h = kind_image \<and> h_mime h = [])"
proof -
  have "(\<exists>m. seal cr s h p = Inr m) \<longleftrightarrow> p \<noteq> [] \<and> validate h = None"
    using validate_sealed [of cr s h p]
    by (auto simp: seal_def Let_def sealed_header_def split: option.splits)
  then show ?thesis by (auto simp: validate_def)
qed

end
