(* ===== verification/Ring.thy ===== *)
theory Ring
  imports Envelope
begin

text \<open>
  \<^verbatim>\<open>internal/store/ring.go\<close>: the warm history of a room. A deque is a slice of pointers, whose
  slots before \<open>head\<close> are nil, compacted when the head passes the midpoint; a ring is a deque of
  text and shush messages capped by count and a deque of images capped by payload bytes.

  The interface between the two is the locale \<open>fifo\<close>, interpreted on the deque: a queue with an
  abstraction to a list. Dereferencing a nil slot, and a loop that makes no progress, are the
  result \<open>None\<close>; the invariants show that neither happens.
\<close>

section \<open>The interface: a first-in first-out queue\<close>

locale fifo =
  fixes items :: "'q \<Rightarrow> 'a list"
    and inv :: "'q \<Rightarrow> bool"
    and empty :: 'q
    and push :: "'q \<Rightarrow> 'a \<Rightarrow> 'q"
    and pop :: "'q \<Rightarrow> 'a option \<times> 'q"
    and len :: "'q \<Rightarrow> nat"
  assumes inv_empty: "inv empty" and items_empty: "items empty = []"
    and inv_push: "inv q \<Longrightarrow> inv (push q x)"
    and items_push: "inv q \<Longrightarrow> items (push q x) = items q @ [x]"
    and pop_Nil: "inv q \<Longrightarrow> items q = [] \<Longrightarrow> pop q = (None, q)"
    and pop_Cons: "inv q \<Longrightarrow> items q = x # xs \<Longrightarrow> \<exists>q'. pop q = (Some x, q') \<and> items q' = xs \<and> inv q'"
    and len_items: "inv q \<Longrightarrow> len q = length (items q)"
begin

lemma pop_step:
  assumes "inv q" "0 < len q"
  obtains x q' where "pop q = (Some x, q')" "inv q'" "items q = x # items q'"
proof -
  obtain x xs where "items q = x # xs" using assms by (cases "items q") (auto simp: len_items)
  with pop_Cons [OF assms(1) this] show thesis using that by auto
qed

lemma pop_inv: "inv q \<Longrightarrow> inv (snd (pop q))"
  using pop_Nil pop_Cons by (cases "items q") fastforce+

lemma items_pops: "inv q \<Longrightarrow> inv (((\<lambda>q. snd (pop q)) ^^ n) q) \<and>
    items (((\<lambda>q. snd (pop q)) ^^ n) q) = drop n (items q)"
proof (induction n)
  case (Suc n)
  then show ?case
    using pop_Nil [of "((\<lambda>q. snd (pop q)) ^^ n) q"] pop_Cons [of "((\<lambda>q. snd (pop q)) ^^ n) q"]
    by (cases "drop n (items q)") (fastforce simp: drop_Suc simp flip: tl_drop)+
qed simp

end

section \<open>The deque\<close>

record 'a deque =
  d_msgs :: "'a option list"
  d_head :: nat

definition deque_empty :: "'a deque" where
  "deque_empty = \<lparr>d_msgs = [], d_head = 0\<rparr>"

definition deque_len :: "'a deque \<Rightarrow> nat" where
  "deque_len d = length (d_msgs d) - d_head d"

definition deque_push :: "'a deque \<Rightarrow> 'a \<Rightarrow> 'a deque" where
  "deque_push d m = d\<lparr>d_msgs := d_msgs d @ [Some m]\<rparr>"

definition deque_front :: "'a deque \<Rightarrow> 'a option" where
  "deque_front d = (if deque_len d = 0 then None else d_msgs d ! d_head d)"

text \<open>Compaction: copy the live slots to the front, clear what is behind them, cut the slice.\<close>

definition deque_compact :: "'a deque \<Rightarrow> 'a deque" where
  "deque_compact d =
     (let live = drop (d_head d) (d_msgs d);
          n = length live;
          copied = live @ drop n (d_msgs d);
          cleared = take n copied @ replicate (length copied - n) None
      in \<lparr>d_msgs = take n cleared, d_head = 0\<rparr>)"

definition deque_pop :: "'a deque \<Rightarrow> 'a option \<times> 'a deque" where
  "deque_pop d =
     (case deque_front d of
        None \<Rightarrow> (None, d)
      | Some m \<Rightarrow>
          let d1 = d\<lparr>d_msgs := (d_msgs d)[d_head d := None], d_head := Suc (d_head d)\<rparr>
          in (Some m, if d_head d1 > length (d_msgs d1) div 2 then deque_compact d1 else d1))"

definition deque_all :: "'a deque \<Rightarrow> 'a option list" where
  "deque_all d = drop (d_head d) (d_msgs d)"

definition deque_items :: "'a deque \<Rightarrow> 'a list" where
  "deque_items d = map the (deque_all d)"

text \<open>Live slots are never nil, dead slots always are, and there are never more dead slots than
  half of the slice.\<close>

definition deque_inv :: "'a deque \<Rightarrow> bool" where
  "deque_inv d \<longleftrightarrow> d_head d \<le> length (d_msgs d) div 2 \<and>
     d_msgs d = replicate (d_head d) None @ map Some (deque_items d)"

lemma deque_compact_eq: "deque_compact d = \<lparr>d_msgs = drop (d_head d) (d_msgs d), d_head = 0\<rparr>"
  by (simp add: deque_compact_def Let_def)

lemma deque_head_half: "deque_inv d \<Longrightarrow> d_head d \<le> length (d_msgs d) div 2"
  unfolding deque_inv_def by blast

lemma deque_inv_cases:
  assumes "deque_inv d"
  obtains xs h where "d = \<lparr>d_msgs = replicate h None @ map Some xs, d_head = h\<rparr>" "h \<le> length xs"
    "deque_items d = xs"
proof -
  have "d_msgs d = replicate (d_head d) None @ map Some (deque_items d)"
    "d_head d \<le> length (d_msgs d) div 2"
    using assms unfolding deque_inv_def by blast+
  moreover from this have "length (d_msgs d) = d_head d + length (deque_items d)"
    by (metis length_append length_map length_replicate)
  ultimately show thesis
    using that [of "d_head d" "deque_items d"] by (cases d) simp
qed

lemma deque_make:
  assumes "h \<le> length xs"
  shows "deque_inv \<lparr>d_msgs = replicate h None @ map Some xs, d_head = h\<rparr>"
    and "deque_items \<lparr>d_msgs = replicate h None @ map Some xs, d_head = h\<rparr> = xs"
proof -
  show i: "deque_items \<lparr>d_msgs = replicate h None @ map Some xs, d_head = h\<rparr> = xs"
    by (simp add: deque_items_def deque_all_def comp_def)
  show "deque_inv \<lparr>d_msgs = replicate h None @ map Some xs, d_head = h\<rparr>"
    using assms by (simp add: deque_inv_def i)
qed

lemma deque_all_items: "deque_inv d \<Longrightarrow> deque_all d = map Some (deque_items d)"
  by (erule deque_inv_cases) (simp add: deque_all_def)

lemma deque_len_items: "deque_inv d \<Longrightarrow> deque_len d = length (deque_items d)"
  by (erule deque_inv_cases) (simp add: deque_len_def)

lemma deque_push_inv:
  assumes "deque_inv d"
  shows "deque_inv (deque_push d m) \<and> deque_items (deque_push d m) = deque_items d @ [m]"
proof -
  obtain xs h where d: "d = \<lparr>d_msgs = replicate h None @ map Some xs, d_head = h\<rparr>" "h \<le> length xs"
    "deque_items d = xs"
    using assms by (rule deque_inv_cases)
  have "deque_push d m = \<lparr>d_msgs = replicate h None @ map Some (xs @ [m]), d_head = h\<rparr>"
    by (simp add: d deque_push_def)
  with d deque_make [of h "xs @ [m]"] show ?thesis by simp
qed

lemma deque_pop_inv:
  assumes "deque_inv d" "deque_items d = x # xs"
  shows "\<exists>d'. deque_pop d = (Some x, d') \<and> deque_items d' = xs \<and> deque_inv d'"
proof -
  obtain h where d: "d = \<lparr>d_msgs = replicate h None @ map Some (x # xs), d_head = h\<rparr>"
    "h \<le> Suc (length xs)"
    using assms by (auto elim: deque_inv_cases)
  let ?d1 = "\<lparr>d_msgs = replicate (Suc h) None @ map Some xs, d_head = Suc h\<rparr>"
  have front: "deque_front d = Some x" by (simp add: d deque_front_def deque_len_def nth_append)
  have upd: "(replicate h None @ Some x # map Some xs)[h := None]
      = replicate (Suc h) None @ map Some xs"
    by (simp add: list_update_append replicate_append_same)
  have pop: "deque_pop d = (Some x, if Suc h > (Suc h + length xs) div 2 then deque_compact ?d1 else ?d1)"
    using front upd by (simp add: deque_pop_def d Let_def)
  show ?thesis
  proof (cases "Suc h > (Suc h + length xs) div 2")
    case True
    then have "snd (deque_pop d) = \<lparr>d_msgs = replicate 0 None @ map Some xs, d_head = 0\<rparr>"
      by (simp add: pop deque_compact_eq)
    with pop True deque_make [of 0 xs] show ?thesis by simp
  next
    case False
    then have "Suc h \<le> length xs" by linarith
    with pop False deque_make [of "Suc h" xs] show ?thesis by simp
  qed
qed

lemma deque_pop_Nil: "deque_inv d \<Longrightarrow> deque_items d = [] \<Longrightarrow> deque_pop d = (None, d)"
  by (simp add: deque_pop_def deque_front_def deque_len_items)

interpretation dq: fifo deque_items deque_inv deque_empty deque_push deque_pop deque_len
proof unfold_locales
  show "deque_inv deque_empty" "deque_items deque_empty = []"
    by (simp_all add: deque_empty_def deque_inv_def deque_items_def deque_all_def)
qed (auto simp: deque_push_inv deque_pop_Nil deque_len_items intro: deque_pop_inv)

section \<open>The ring\<close>

lemma deque_pop_shorter: "deque_pop d = (Some m, d') \<Longrightarrow> deque_len d' < deque_len d"
  by (auto simp: deque_pop_def deque_front_def deque_len_def deque_compact_eq Let_def
      split: option.splits if_splits)

text \<open>\<open>for r.text.len() > r.maxText { r.text.pop() }\<close>: no result when \<open>pop\<close> finds a nil slot,
  since the loop then spins for ever.\<close>

function evict_text :: "int \<Rightarrow> 'a deque \<Rightarrow> 'a deque option" where
  "evict_text lim d =
     (if int (deque_len d) > lim then
        (case deque_pop d of (None, _) \<Rightarrow> None | (Some m, d') \<Rightarrow> evict_text lim d')
      else Some d)"
  by pat_completeness auto

termination
  by (relation "measure (\<lambda>(lim, d). deque_len d)") (auto dest: deque_pop_shorter [OF sym])

declare evict_text.simps [simp del]

text \<open>\<open>for r.imageBytes > r.maxImageBytes && r.images.len() > 0\<close>: no result when the popped
  pointer is nil and its payload is read.\<close>

function evict_images :: "int \<Rightarrow> int \<Rightarrow> message deque \<Rightarrow> (int \<times> message deque) option" where
  "evict_images lim bytes d =
     (if bytes > lim \<and> deque_len d > 0 then
        (case deque_pop d of
           (None, _) \<Rightarrow> None
         | (Some m, d') \<Rightarrow> evict_images lim (bytes - int (length (m_payload m))) d')
      else Some (bytes, d))"
  by pat_completeness auto

termination
  by (relation "measure (\<lambda>(lim, bytes, d). deque_len d)") (auto dest: deque_pop_shorter [OF sym])

declare evict_images.simps [simp del]

record ring =
  r_text :: "message deque"
  r_images :: "message deque"
  r_max_text :: int
  r_max_image_bytes :: int
  r_image_bytes :: int

definition new_ring :: "int \<Rightarrow> int \<Rightarrow> ring" where
  "new_ring maxText maxImageBytes =
     \<lparr>r_text = deque_empty, r_images = deque_empty, r_max_text = max maxText 0,
      r_max_image_bytes = max maxImageBytes 0, r_image_bytes = 0\<rparr>"

definition ring_append :: "ring \<Rightarrow> message \<Rightarrow> ring option" where
  "ring_append r m =
     (if h_kind (m_header m) = kind_image then
        (case evict_images (r_max_image_bytes r) (r_image_bytes r + int (length (m_payload m)))
                (deque_push (r_images r) m) of
           None \<Rightarrow> None
         | Some (b, d) \<Rightarrow> Some (r\<lparr>r_images := d, r_image_bytes := b\<rparr>))
      else
        (case evict_text (r_max_text r) (deque_push (r_text r) m) of
           None \<Rightarrow> None
         | Some d \<Rightarrow> Some (r\<lparr>r_text := d\<rparr>)))"

abbreviation m_seq :: "message \<Rightarrow> u64" where
  "m_seq m \<equiv> h_seq (m_header m)"

text \<open>\<open>seek\<close>: the index of the first message past \<open>since\<close>; reading a nil slot panics.\<close>

fun seek :: "message option list \<Rightarrow> u64 \<Rightarrow> nat option" where
  "seek [] since = Some 0"
| "seek (None # ms) since = None"
| "seek (Some m # ms) since =
     (if m_seq m \<le> since then map_option Suc (seek ms since) else Some 0)"

text \<open>The merge loop of \<open>Since\<close>, on what is left of the two slices.\<close>

fun ring_merge :: "message option list \<Rightarrow> message option list \<Rightarrow> message list option" where
  "ring_merge [] [] = Some []"
| "ring_merge (Some t # ts) [] = map_option ((#) t) (ring_merge ts [])"
| "ring_merge [] (Some i # is) = map_option ((#) i) (ring_merge [] is)"
| "ring_merge (Some t # ts) (Some i # is) =
     (if m_seq t < m_seq i then map_option ((#) t) (ring_merge ts (Some i # is))
      else map_option ((#) i) (ring_merge (Some t # ts) is))"
| "ring_merge _ _ = None"

definition ring_since :: "ring \<Rightarrow> u64 \<Rightarrow> message list option" where
  "ring_since r since =
     (let text = deque_all (r_text r); images = deque_all (r_images r)
      in case (seek text since, seek images since) of
           (Some ti, Some ii) \<Rightarrow> ring_merge (drop ti text) (drop ii images)
         | _ \<Rightarrow> None)"

definition ring_image_bytes :: "ring \<Rightarrow> int" where
  "ring_image_bytes r = r_image_bytes r"

definition ring_len :: "ring \<Rightarrow> nat" where
  "ring_len r = deque_len (r_text r) + deque_len (r_images r)"

section \<open>What eviction keeps\<close>

definition payload_total :: "message list \<Rightarrow> int" where
  "payload_total ms = sum_list (map (\<lambda>m. int (length (m_payload m))) ms)"

lemma payload_total_simps [simp]:
  "payload_total [] = 0" "payload_total (m # ms) = int (length (m_payload m)) + payload_total ms"
  "payload_total (ms @ ns) = payload_total ms + payload_total ns"
  by (simp_all add: payload_total_def)

lemma payload_total_nonneg: "0 \<le> payload_total ms"
  by (induction ms) auto

lemma evict_text_items:
  assumes "deque_inv d" "0 \<le> lim"
  shows "\<exists>d'. evict_text lim d = Some d' \<and> deque_inv d' \<and>
    deque_items d' = drop (length (deque_items d) - nat lim) (deque_items d)"
  using assms
proof (induction lim d rule: evict_text.induct)
  case (1 lim d)
  show ?case
  proof (cases "int (deque_len d) > lim")
    case True
    then have "0 < deque_len d" using 1 by simp
    then obtain x d' where d': "deque_pop d = (Some x, d')" "deque_inv d'"
      "deque_items d = x # deque_items d'" using 1 dq.pop_step by blast
    then obtain d'' where "evict_text lim d' = Some d''" "deque_inv d''"
      "deque_items d'' = drop (length (deque_items d') - nat lim) (deque_items d')"
      using 1(1) [of "Some x" d' x] 1(3) True by auto
    moreover have "length (deque_items d) - nat lim = Suc (length (deque_items d') - nat lim)"
      using True 1(2,3) d'(3) by (simp add: dq.len_items Suc_diff_le nat_less_iff)
    ultimately show ?thesis using True d' by (simp add: evict_text.simps [of lim d])
  next
    case False
    with 1 show ?thesis by (simp add: evict_text.simps [of lim d] dq.len_items)
  qed
qed

text \<open>The longest suffix within the budget.\<close>

definition longest_fit :: "int \<Rightarrow> message list \<Rightarrow> message list \<Rightarrow> bool" where
  "longest_fit lim ms kept \<longleftrightarrow>
     (\<exists>k\<le>length ms. kept = drop k ms \<and> payload_total kept \<le> lim \<and>
        (\<forall>j<k. lim < payload_total (drop j ms)))"

lemma longest_fit_Cons:
  "longest_fit lim ms kept \<Longrightarrow> lim < payload_total (m # ms) \<Longrightarrow> longest_fit lim (m # ms) kept"
  unfolding longest_fit_def
proof (elim exE conjE)
  fix k
  assume k: "k \<le> length ms" "kept = drop k ms" "payload_total kept \<le> lim"
    "\<forall>j<k. lim < payload_total (drop j ms)" and m: "lim < payload_total (m # ms)"
  then have "\<forall>j<Suc k. lim < payload_total (drop j (m # ms))"
    by (auto simp: less_Suc_eq_0_disj)
  with k show "\<exists>k\<le>length (m # ms). kept = drop k (m # ms) \<and> payload_total kept \<le> lim \<and>
        (\<forall>j<k. lim < payload_total (drop j (m # ms)))"
    by (intro exI [of _ "Suc k"]) simp
qed

lemma evict_images_items:
  assumes "deque_inv d" "0 \<le> lim" "bytes = payload_total (deque_items d)"
  shows "\<exists>d' b. evict_images lim bytes d = Some (b, d') \<and> deque_inv d' \<and>
    b = payload_total (deque_items d') \<and> longest_fit lim (deque_items d) (deque_items d')"
  using assms
proof (induction lim bytes d rule: evict_images.induct)
  case (1 lim bytes d)
  show ?case
  proof (cases "bytes > lim \<and> deque_len d > 0")
    case True
    then obtain x d' where d': "deque_pop d = (Some x, d')" "deque_inv d'"
      "deque_items d = x # deque_items d'" using 1 dq.pop_step by blast
    then obtain d'' b where "evict_images lim (bytes - int (length (m_payload x))) d' = Some (b, d'')"
      "deque_inv d''" "b = payload_total (deque_items d'')"
      "longest_fit lim (deque_items d') (deque_items d'')"
      using 1(1) [of "Some x" d' x] 1(3,4) True by auto
    moreover from this True d' have "evict_images lim bytes d = Some (b, d'')"
      by (simp add: evict_images.simps [of lim bytes d])
    moreover have "lim < payload_total (x # deque_items d')" using True 1(4) d'(3) by simp
    ultimately show ?thesis using d'(3) longest_fit_Cons by auto
  next
    case False
    then have "bytes \<le> lim" using 1 by (auto simp: dq.len_items)
    with 1(4) have "longest_fit lim (deque_items d) (deque_items d)"
      by (auto simp: longest_fit_def intro: exI [of _ 0])
    moreover have "evict_images lim bytes d = Some (bytes, d)"
      using False by (subst evict_images.simps) auto
    ultimately show ?thesis using 1(2,4) by auto
  qed
qed

section \<open>The ring's invariant\<close>

definition ascending :: "message list \<Rightarrow> bool" where
  "ascending ms \<longleftrightarrow> sorted_wrt (\<lambda>a b. m_seq a < m_seq b) ms"

definition ring_messages :: "ring \<Rightarrow> message set" where
  "ring_messages r = set (deque_items (r_text r)) \<union> set (deque_items (r_images r))"

definition ring_inv :: "ring \<Rightarrow> bool" where
  "ring_inv r \<longleftrightarrow> deque_inv (r_text r) \<and> deque_inv (r_images r) \<and>
     0 \<le> r_max_text r \<and> 0 \<le> r_max_image_bytes r \<and>
     int (length (deque_items (r_text r))) \<le> r_max_text r \<and>
     r_image_bytes r = payload_total (deque_items (r_images r)) \<and>
     r_image_bytes r \<le> r_max_image_bytes r \<and>
     ascending (deque_items (r_text r)) \<and> ascending (deque_items (r_images r)) \<and>
     (\<forall>m\<in>set (deque_items (r_text r)). h_kind (m_header m) \<noteq> kind_image) \<and>
     (\<forall>m\<in>set (deque_items (r_images r)). h_kind (m_header m) = kind_image) \<and>
     (\<forall>a\<in>set (deque_items (r_text r)). \<forall>b\<in>set (deque_items (r_images r)). m_seq a \<noteq> m_seq b)"

lemma ascending_drop: "ascending ms \<Longrightarrow> ascending (drop k ms)"
  unfolding ascending_def by (rule sorted_wrt_drop)

lemma ascending_snoc: "ascending ms \<Longrightarrow> \<forall>x\<in>set ms. m_seq x < m_seq m \<Longrightarrow> ascending (ms @ [m])"
  by (simp add: ascending_def sorted_wrt_append)

lemma ring_inv_new: "ring_inv (new_ring t b)"
  by (simp add: ring_inv_def new_ring_def dq.inv_empty dq.items_empty ascending_def)

lemma longest_fit_subset: "longest_fit lim ms kept \<Longrightarrow> set kept \<subseteq> set ms"
  by (auto simp: longest_fit_def dest: in_set_dropD)

lemma longest_fit_ascending: "longest_fit lim ms kept \<Longrightarrow> ascending ms \<Longrightarrow> ascending kept"
  by (auto simp: longest_fit_def intro: ascending_drop)

lemma longest_fit_total: "longest_fit lim ms kept \<Longrightarrow> payload_total kept \<le> lim"
  by (auto simp: longest_fit_def)

lemma ring_append_text:
  assumes "ring_inv r" "\<forall>x\<in>ring_messages r. m_seq x < m_seq m" "h_kind (m_header m) \<noteq> kind_image"
  shows "\<exists>r'. ring_append r m = Some r' \<and> ring_inv r' \<and>
    deque_items (r_images r') = deque_items (r_images r) \<and>
    deque_items (r_text r') = drop (Suc (length (deque_items (r_text r))) - nat (r_max_text r))
      (deque_items (r_text r) @ [m]) \<and>
    r_max_text r' = r_max_text r \<and> r_max_image_bytes r' = r_max_image_bytes r"
proof -
  let ?t = "deque_items (r_text r)" and ?k = "Suc (length (deque_items (r_text r))) - nat (r_max_text r)"
  have "deque_inv (deque_push (r_text r) m)" "deque_items (deque_push (r_text r) m) = ?t @ [m]"
    using assms(1) by (simp_all add: ring_inv_def dq.inv_push dq.items_push)
  then obtain d where d: "evict_text (r_max_text r) (deque_push (r_text r) m) = Some d" "deque_inv d"
    "deque_items d = drop ?k (?t @ [m])"
    using assms(1) evict_text_items [of "deque_push (r_text r) m" "r_max_text r"]
    by (auto simp: ring_inv_def)
  have "ascending (deque_items d)"
    unfolding d(3) using assms(1,2)
    by (intro ascending_drop ascending_snoc) (auto simp: ring_inv_def ring_messages_def)
  moreover have sub: "set (deque_items d) \<subseteq> insert m (set ?t)"
    unfolding d(3) by (auto dest: in_set_dropD)
  moreover have "length (deque_items d) \<le> nat (r_max_text r)" unfolding d(3) by simp
  then have "int (length (deque_items d)) \<le> r_max_text r"
    using assms(1) by (simp add: ring_inv_def le_nat_iff)
  moreover have "\<forall>b\<in>set (deque_items (r_images r)). m_seq m \<noteq> m_seq b"
    using assms(2) unfolding ring_messages_def by (metis UnI2 order_less_irrefl)
  then have "\<forall>a\<in>insert m (set ?t). \<forall>b\<in>set (deque_items (r_images r)). m_seq a \<noteq> m_seq b"
    using assms(1) by (simp add: ring_inv_def)
  moreover have "\<forall>x\<in>insert m (set ?t). h_kind (m_header x) \<noteq> kind_image"
    using assms(1,3) by (simp add: ring_inv_def)
  ultimately have "\<forall>a\<in>set (deque_items d). \<forall>b\<in>set (deque_items (r_images r)). m_seq a \<noteq> m_seq b"
    "\<forall>x\<in>set (deque_items d). h_kind (m_header x) \<noteq> kind_image" "ascending (deque_items d)"
    "int (length (deque_items d)) \<le> r_max_text r"
    by blast+
  then have "ring_inv (r\<lparr>r_text := d\<rparr>)"
    using assms(1) d(2) unfolding ring_inv_def by simp
  with d assms(3) show ?thesis by (simp add: ring_append_def)
qed

lemma ring_append_image:
  assumes "ring_inv r" "\<forall>x\<in>ring_messages r. m_seq x < m_seq m" "h_kind (m_header m) = kind_image"
  shows "\<exists>r'. ring_append r m = Some r' \<and> ring_inv r' \<and>
    deque_items (r_text r') = deque_items (r_text r) \<and>
    longest_fit (r_max_image_bytes r) (deque_items (r_images r) @ [m]) (deque_items (r_images r')) \<and>
    r_max_text r' = r_max_text r \<and> r_max_image_bytes r' = r_max_image_bytes r"
proof -
  let ?t = "deque_items (r_images r)"
  have "deque_inv (deque_push (r_images r) m)" "deque_items (deque_push (r_images r) m) = ?t @ [m]"
    using assms(1) by (simp_all add: ring_inv_def dq.inv_push dq.items_push)
  then obtain d b where d: "evict_images (r_max_image_bytes r)
      (r_image_bytes r + int (length (m_payload m))) (deque_push (r_images r) m) = Some (b, d)"
    "deque_inv d" "b = payload_total (deque_items d)"
    "longest_fit (r_max_image_bytes r) (?t @ [m]) (deque_items d)"
    using assms(1) evict_images_items [of "deque_push (r_images r) m" "r_max_image_bytes r"]
    by (auto simp: ring_inv_def)
  have "ascending (deque_items d)"
    using assms(1,2) by (intro longest_fit_ascending [OF d(4)] ascending_snoc)
      (auto simp: ring_inv_def ring_messages_def)
  moreover have sub: "set (deque_items d) \<subseteq> insert m (set ?t)"
    using longest_fit_subset [OF d(4)] by auto
  moreover have "\<forall>a\<in>set (deque_items (r_text r)). m_seq a \<noteq> m_seq m"
    using assms(2) unfolding ring_messages_def by (metis UnI1 order_less_irrefl)
  then have "\<forall>a\<in>set (deque_items (r_text r)). \<forall>b\<in>insert m (set ?t). m_seq a \<noteq> m_seq b"
    using assms(1) by (simp add: ring_inv_def)
  moreover have "\<forall>x\<in>insert m (set ?t). h_kind (m_header x) = kind_image"
    using assms(1,3) by (simp add: ring_inv_def)
  ultimately have "\<forall>a\<in>set (deque_items (r_text r)). \<forall>b\<in>set (deque_items d). m_seq a \<noteq> m_seq b"
    "\<forall>x\<in>set (deque_items d). h_kind (m_header x) = kind_image" "ascending (deque_items d)"
    by blast+
  then have "ring_inv (r\<lparr>r_images := d, r_image_bytes := b\<rparr>)"
    using assms(1) d(2,3) longest_fit_total [OF d(4)] unfolding ring_inv_def by simp
  with d assms(3) show ?thesis by (simp add: ring_append_def)
qed

section \<open>Reading the ring\<close>

lemma seek_items:
  "seek (map Some ms) since = Some (length (takeWhile (\<lambda>m. m_seq m \<le> since) ms))"
  by (induction ms) auto

lemma ascending_dropWhile:
  "ascending ms \<Longrightarrow> dropWhile (\<lambda>m. m_seq m \<le> since) ms = filter (\<lambda>m. since < m_seq m) ms"
proof (induction ms)
  case (Cons m ms)
  show ?case
  proof (cases "since < m_seq m")
    case True
    with Cons.prems have "\<forall>x\<in>set ms. since < m_seq x" by (auto simp: ascending_def)
    with True show ?thesis by (simp add: filter_id_conv)
  next
    case False
    with Cons show ?thesis by (simp add: ascending_def)
  qed
qed simp

lemma drop_seek: "drop (length (takeWhile P xs)) (map Some xs) = map Some (dropWhile P xs)"
  by (simp add: drop_map flip: dropWhile_eq_drop)

fun merge_seq :: "message list \<Rightarrow> message list \<Rightarrow> message list" where
  "merge_seq [] is = is"
| "merge_seq ts [] = ts"
| "merge_seq (t # ts) (i # is) =
     (if m_seq t < m_seq i then t # merge_seq ts (i # is) else i # merge_seq (t # ts) is)"

lemma ring_merge_Nil:
  "ring_merge [] (map Some ms) = Some ms" "ring_merge (map Some ms) [] = Some ms"
  by (induction ms) auto

lemma ring_merge_seq: "ring_merge (map Some ts) (map Some is) = Some (merge_seq ts is)"
proof (induction ts "is" rule: merge_seq.induct)
  case (1 "is")
  show ?case using ring_merge_Nil(1) [of "is"] by simp
next
  case (2 t ts)
  show ?case using ring_merge_Nil(2) [of "t # ts"] by simp
qed auto

lemma set_merge_seq: "set (merge_seq ts is) = set ts \<union> set is"
  by (induction ts "is" rule: merge_seq.induct) auto

lemma ascending_merge_seq:
  "ascending ts \<Longrightarrow> ascending is \<Longrightarrow> \<forall>t\<in>set ts. \<forall>i\<in>set is. m_seq t \<noteq> m_seq i \<Longrightarrow>
    ascending (merge_seq ts is)"
proof (induction ts "is" rule: merge_seq.induct)
  case (3 t ts i "is")
  show ?case
  proof (cases "m_seq t < m_seq i")
    case True
    with 3 show ?thesis by (force simp: ascending_def set_merge_seq)
  next
    case False
    with 3(5) have "m_seq i < m_seq t" by (metis list.set_intros(1) linorder_less_linear)
    with 3 False show ?thesis by (force simp: ascending_def set_merge_seq)
  qed
qed (simp_all add: ascending_def)

lemma ring_since_items:
  assumes "ring_inv r"
  shows "ring_since r since = Some (merge_seq
    (filter (\<lambda>m. since < m_seq m) (deque_items (r_text r)))
    (filter (\<lambda>m. since < m_seq m) (deque_items (r_images r))))"
  using assms
  by (simp add: ring_since_def ring_inv_def deque_all_items Let_def seek_items drop_seek
      ring_merge_seq ascending_dropWhile)

lemma ring_since_spec:
  assumes "ring_inv r"
  shows "\<exists>ms. ring_since r since = Some ms \<and> ascending ms \<and>
    set ms = {m \<in> ring_messages r. since < m_seq m}"
proof -
  have "ascending (filter P (deque_items (r_text r)))" "ascending (filter P (deque_items (r_images r)))"
    for P using assms by (auto simp: ring_inv_def ascending_def intro: sorted_wrt_filter)
  then show ?thesis
    using assms ring_since_items [OF assms, of since]
    by (auto simp: ring_inv_def ring_messages_def set_merge_seq intro!: ascending_merge_seq)
qed

section \<open>Properties\<close>

text \<open>C17: the deque is a queue. Under its invariant (no nil slot is live, dead slots are at most
  half of the slice) \<open>pop\<close> returns exactly the oldest element, or nil on an empty deque, and
  \<open>push\<close> appends; both keep the invariant, so compaction neither loses nor reorders messages.\<close>

theorem deque_is_queue:
  assumes "deque_inv d"
  shows "deque_inv (deque_push d m) \<and> deque_items (deque_push d m) = deque_items d @ [m] \<and>
    deque_inv (snd (deque_pop d)) \<and> deque_items (snd (deque_pop d)) = tl (deque_items d) \<and>
    fst (deque_pop d) = (if deque_items d = [] then None else Some (hd (deque_items d))) \<and>
    deque_len d = length (deque_items d) \<and>
    d_head (snd (deque_pop d)) \<le> length (d_msgs (snd (deque_pop d))) div 2"
proof (cases "deque_items d")
  case Nil
  with assms deque_head_half [OF assms] show ?thesis
    by (simp add: dq.inv_push dq.items_push dq.pop_Nil dq.len_items)
next
  case (Cons x xs)
  then obtain d' where "deque_pop d = (Some x, d')" "deque_items d' = xs" "deque_inv d'"
    using dq.pop_Cons [OF assms Cons] by blast
  with assms Cons deque_head_half show ?thesis
    by (simp add: dq.inv_push dq.items_push dq.len_items)
qed

theorem deque_is_queue_witness:
  "deque_items (snd (deque_pop (deque_push (deque_push deque_empty (1::nat)) 2))) = [2]"
  using deque_is_queue [of "deque_push (deque_push deque_empty 1) (2::nat)"]
  by (simp add: dq.inv_push dq.inv_empty dq.items_push dq.items_empty)

text \<open>C18: appending to the ring. With a sequence above every retained one, \<open>Append\<close> returns and
  keeps the ring's invariant (both limits hold, the byte count is the sum of the payloads, both
  halves ascend). Text is cut to its newest \<open>maxText\<close> messages; of the images the longest newest
  run within the byte budget remains; the other half is untouched.\<close>

theorem ring_append_evicts:
  assumes "ring_inv r" "\<forall>x\<in>ring_messages r. m_seq x < m_seq m"
  shows "\<exists>r'. ring_append r m = Some r' \<and> ring_inv r' \<and>
    (if h_kind (m_header m) = kind_image then
       deque_items (r_text r') = deque_items (r_text r) \<and>
       longest_fit (r_max_image_bytes r) (deque_items (r_images r) @ [m]) (deque_items (r_images r'))
     else
       deque_items (r_images r') = deque_items (r_images r) \<and>
       deque_items (r_text r') = drop (Suc (length (deque_items (r_text r))) - nat (r_max_text r))
         (deque_items (r_text r) @ [m]))"
  using ring_append_text [OF assms] ring_append_image [OF assms]
  by (cases "h_kind (m_header m) = kind_image") auto

theorem ring_append_evicts_witness:
  "\<exists>r'. ring_append (new_ring 1 10) (sample_message 7 kind_text [] ''hello'') = Some r' \<and>
    deque_items (r_text r') = [sample_message 7 kind_text [] ''hello'']"
proof -
  have "seal sample_crypto sample_signer (sample_header 7 kind_text []) ''hello''
    = Inr (sample_message 7 kind_text [] ''hello'')"
    by (rule sample_sealed) simp_all
  then have "h_kind (m_header (sample_message 7 kind_text [] ''hello'')) = kind_text"
    by (simp add: seal_Inr sample_header_def)
  then show ?thesis
    using ring_append_evicts [OF ring_inv_new, of 1 10 "sample_message 7 kind_text [] ''hello''"]
    by (auto simp: new_ring_def ring_messages_def dq.items_empty)
qed

text \<open>Reading the ring. \<open>Since\<close> never touches a nil slot and returns exactly the retained
  messages with a sequence above \<open>since\<close>, text and images merged in ascending sequence.\<close>

theorem ring_since_merges:
  assumes "ring_inv r"
  shows "\<exists>ms. ring_since r since = Some ms \<and> ascending ms \<and>
    set ms = {m \<in> ring_messages r. since < m_seq m}"
  using assms by (rule ring_since_spec)

theorem ring_since_merges_witness: "ring_since (new_ring 5 100) 0 = Some []"
  using ring_since_merges [OF ring_inv_new, of 5 100 0]
  by (auto simp: ring_messages_def new_ring_def dq.items_empty)

end
