(* ===== verification/Archive.thy ===== *)
theory Archive
  imports Ring
begin

text \<open>
  \<^verbatim>\<open>internal/store/archive.go\<close>: a room's permanent history, one JSON line per message.

  The file system is a map from paths to byte strings. What the operating system may refuse is an
  argument: \<open>fl_op\<close> says which calls fail, \<open>fl_read\<close> after how many bytes a scan's reads fail,
  \<open>fl_write\<close> after how many bytes a write fails. A crash during a write leaves a prefix of the
  line behind. \<open>bufio.Scanner\<close> is translated as the code configures it: a line of \<open>maxLine\<close> bytes
  or more ends the scan with an error, a final carriage return is dropped.

  The interface to the history above is the locale \<open>durable_log\<close>, interpreted at the end on the
  operations of this theory.
\<close>

section \<open>The interface: a durable log of sequenced records\<close>

locale durable_log =
  fixes holds :: "'d \<Rightarrow> 'm list \<Rightarrow> bool"
    and fresh :: 'd
    and append :: "'d \<Rightarrow> 'm \<Rightarrow> 'd"
    and reopen :: "'d \<Rightarrow> 'd option"
    and recover :: "'d \<Rightarrow> (u64 \<times> u64 set) option"
    and between :: "u64 \<Rightarrow> u64 \<Rightarrow> 'd \<Rightarrow> 'm list option"
    and good :: "'m \<Rightarrow> bool"
    and seq :: "'m \<Rightarrow> u64"
    and target :: "'m \<Rightarrow> u64 option"
  assumes holds_fresh: "holds fresh []"
    and holds_append: "holds d ms \<Longrightarrow> good m \<Longrightarrow> \<forall>x\<in>set ms. seq x < seq m \<Longrightarrow>
      holds (append d m) (ms @ [m])"
    and holds_ascending: "holds d ms \<Longrightarrow> sorted_wrt (\<lambda>a b. seq a < seq b) ms"
    and reopen_holds: "holds d ms \<Longrightarrow> reopen d = Some d"
    and recover_holds: "holds d ms \<Longrightarrow>
      recover d = Some (fold max (map seq ms) 0, {t. \<exists>m\<in>set ms. target m = Some t})"
    and range_holds: "holds d ms \<Longrightarrow>
      between from to d = Some (filter (\<lambda>m. from \<le> seq m \<and> seq m \<le> to) ms)"
begin

lemma fold_max_ascending:
  "sorted_wrt (\<lambda>a b. seq a < seq b) (ms @ [m]) \<Longrightarrow> fold max (map seq (ms @ [m])) 0 = seq m"
proof -
  assume a: "sorted_wrt (\<lambda>a b. seq a < seq b) (ms @ [m])"
  then have "\<forall>x\<in>set ms. seq x < seq m" by (simp add: sorted_wrt_append)
  then have "fold max (map seq ms) b \<le> seq m" if "b \<le> seq m" for b
    using that by (induction ms arbitrary: b) (auto simp: less_imp_le)
  then have "fold max (map seq ms) 0 \<le> seq m" by simp
  then show ?thesis by (simp add: max_def)
qed

text \<open>After a restart the counter is the sequence of the last record.\<close>

lemma recover_last:
  "holds d (ms @ [m]) \<Longrightarrow> \<exists>sh. recover d = Some (seq m, sh)"
  using recover_holds [of d "ms @ [m]"] holds_ascending [of d "ms @ [m]"]
    fold_max_ascending by simp

lemma restart_append:
  assumes "holds d ms" "good m" "\<forall>x\<in>set ms. seq x < seq m"
  shows "\<exists>sh. Option.bind (reopen (append d m)) recover = Some (seq m, sh) \<and>
    sh = {t. \<exists>x\<in>set (ms @ [m]). target x = Some t}"
proof -
  have h: "holds (append d m) (ms @ [m])" using assms by (rule holds_append)
  then have "recover (append d m) = Some (fold max (map seq (ms @ [m])) 0,
      {t. \<exists>x\<in>set (ms @ [m]). target x = Some t})"
    by (rule recover_holds)
  with fold_max_ascending [OF holds_ascending [OF h]] reopen_holds [OF h] show ?thesis by simp
qed

lemma range_complete:
  "holds d ms \<Longrightarrow> m \<in> set ms \<Longrightarrow> from \<le> seq m \<Longrightarrow> seq m \<le> to \<Longrightarrow>
    \<exists>out. between from to d = Some out \<and> m \<in> set out"
  by (simp add: range_holds)

end

section \<open>The file system\<close>

type_synonym fs = "string \<rightharpoonup> string"

datatype io_op = IoOpen | IoMkdir | IoReopen | IoStat nat | IoTail nat | IoChunk nat nat
  | IoLine nat | IoTruncate nat | IoReadDir

record faults =
  fl_op :: "io_op \<Rightarrow> bool"
  fl_read :: "nat option"
  fl_write :: "nat option"

definition no_faults :: faults where
  "no_faults = \<lparr>fl_op = (\<lambda>_. False), fl_read = None, fl_write = None\<rparr>"

datatype store_error = OpenFailed | StatFailed | TailReadFailed | TruncateFailed | TailUnparseable
  | ScanOpenFailed | ScanTooLong | ScanReadFailed | MalformedLine | MalformedHeader | AppendFailed
  | MkdirFailed | EmptyName | NameTooLong | BadName | ListFailed

definition read_at :: "string \<Rightarrow> nat \<Rightarrow> nat \<Rightarrow> string" where
  "read_at s off n = take n (drop off s)"

section \<open>Repairing the tail\<close>

definition max_line :: nat where
  "max_line = 2 ^ 20"

definition repair_attempts :: nat where
  "repair_attempts = 8"

definition chunk :: nat where
  "chunk = 4096"

text \<open>The loop over the bytes of a chunk, from its end.\<close>

fun last_newline :: "string \<Rightarrow> nat \<Rightarrow> nat option" where
  "last_newline buf 0 = None"
| "last_newline buf (Suc i) = (if buf ! i = newline_byte then Some i else last_newline buf i)"

function search_back :: "faults \<Rightarrow> nat \<Rightarrow> string \<Rightarrow> nat \<Rightarrow> store_error + nat" where
  "search_back fl k s off =
     (if off = 0 then Inr 0
      else let n = min chunk off in
        if fl_op fl (IoChunk k (off - n)) then Inl TailReadFailed
        else let buf = read_at s (off - n) n in
          case last_newline buf (length buf) of
            Some i \<Rightarrow> Inr (off - n + i + 1)
          | None \<Rightarrow> search_back fl k s (off - n))"
  by pat_completeness auto

termination
  by (relation "measure (\<lambda>(fl, k, s, off). off)") (auto simp: chunk_def)

declare search_back.simps [simp del]

definition last_line :: "faults \<Rightarrow> nat \<Rightarrow> string \<Rightarrow> nat \<Rightarrow> store_error + (nat \<times> string)" where
  "last_line fl k s sz =
     (if sz > 0 \<and> fl_op fl (IoTail k) then Inl TailReadFailed
      else let end = (if sz > 0 \<and> s ! (sz - 1) = newline_byte then sz - 1 else sz)
        in case search_back fl k s end of
             Inl e \<Rightarrow> Inl e
           | Inr start \<Rightarrow>
               if fl_op fl (IoLine k) then Inl TailReadFailed
               else Inr (start, read_at s start (sz - start)))"

text \<open>The attempts left and the file; the error, if any, and the file afterwards.\<close>

fun repair_tail :: "faults \<Rightarrow> nat \<Rightarrow> string \<Rightarrow> store_error option \<times> string" where
  "repair_tail fl 0 s = (Some TailUnparseable, s)"
| "repair_tail fl (Suc k) s =
     (if fl_op fl (IoStat k) then (Some StatFailed, s)
      else if length s = 0 then (None, s)
      else case last_line fl k s (length s) of
        Inl e \<Rightarrow> (Some e, s)
      | Inr (start, line) \<Rightarrow>
          let terminated = (line \<noteq> [] \<and> last line = newline_byte);
              rec = (if terminated then butlast line else line)
          in if terminated \<and> json_valid rec then (None, s)
             else if fl_op fl (IoTruncate k) then (Some TruncateFailed, s)
             else repair_tail fl k (take start s))"

record archive =
  a_path :: string
  a_keys :: key_lookup

definition open_archive :: "faults \<Rightarrow> fs \<Rightarrow> string \<Rightarrow> key_lookup \<Rightarrow> (store_error + archive) \<times> fs" where
  "open_archive fl d path keys =
     (if fl_op fl IoOpen then (Inl OpenFailed, d)
      else let s = (case d path of None \<Rightarrow> [] | Some s \<Rightarrow> s)
        in case repair_tail fl repair_attempts s of
             (Some e, s') \<Rightarrow> (Inl e, d(path \<mapsto> s'))
           | (None, s') \<Rightarrow> (Inr \<lparr>a_path = path, a_keys = keys\<rparr>, d(path \<mapsto> s')))"

section \<open>Appending\<close>

definition archive_line :: "message \<Rightarrow> string" where
  "archive_line m = m_wire m @ [newline_byte]"

definition archive_append :: "faults \<Rightarrow> fs \<Rightarrow> archive \<Rightarrow> message \<Rightarrow> store_error option \<times> fs" where
  "archive_append fl d a m =
     (let s = (case d (a_path a) of None \<Rightarrow> [] | Some s \<Rightarrow> s)
      in case fl_write fl of
           None \<Rightarrow> (None, d(a_path a \<mapsto> s @ archive_line m))
         | Some n \<Rightarrow> (Some AppendFailed, d(a_path a \<mapsto> s @ take n (archive_line m))))"

section \<open>Scanning\<close>

record arec =
  rec_seq :: u64
  rec_kind :: string
  rec_payload :: string

definition set_peek_outer :: "string \<Rightarrow> json \<Rightarrow> string \<times> string \<Rightarrow> (string \<times> string) option" where
  "set_peek_outer k v x =
     (if k = ''h'' then set_string (\<lambda>y. (y, snd x)) v x
      else if k = ''p'' then set_string (\<lambda>y. (fst x, y)) v x else Some x)"

definition set_peek_header :: "string \<Rightarrow> json \<Rightarrow> u64 \<times> string \<Rightarrow> (u64 \<times> string) option" where
  "set_peek_header k v x =
     (if k = ''seq'' then set_uint (\<lambda>y. (y, snd x)) v x
      else if k = ''kind'' then set_string (\<lambda>y. (fst x, y)) v x else Some x)"

definition peek :: "string \<Rightarrow> store_error + arec" where
  "peek line =
     (case unmarshal_struct set_peek_outer ([], []) line of
        None \<Rightarrow> Inl MalformedLine
      | Some (h, p) \<Rightarrow>
          (case unmarshal_struct set_peek_header (0, []) h of
             None \<Rightarrow> Inl MalformedHeader
           | Some (q, k) \<Rightarrow> Inr \<lparr>rec_seq = q, rec_kind = k, rec_payload = p\<rparr>))"

definition drop_cr :: "string \<Rightarrow> string" where
  "drop_cr l = (if l \<noteq> [] \<and> last l = CHR 0x0D then butlast l else l)"

text \<open>The scanner's tokens, and whether it stops at a line that fills its buffer.\<close>

function scan_tokens :: "string \<Rightarrow> string list \<times> bool" where
  "scan_tokens s =
     (if s = [] then ([], False)
      else let l = takeWhile (\<lambda>c. c \<noteq> newline_byte) s in
        if max_line \<le> length l then ([], True)
        else let (ls, long) = scan_tokens (drop (Suc (length l)) s) in (drop_cr l # ls, long))"
  by pat_completeness auto

termination by (relation "measure length") auto

declare scan_tokens.simps [simp del]

text \<open>The body of the scan: the callback returns whether to go on, and the state it captures. The
  first component says whether the scan ran to the end.\<close>

fun scan_records :: "(arec \<Rightarrow> string \<Rightarrow> 's \<Rightarrow> bool \<times> 's) \<Rightarrow> string list \<Rightarrow> 's \<Rightarrow> bool \<times> 's" where
  "scan_records f [] st = (True, st)"
| "scan_records f (l # ls) st =
     (if l = [] then scan_records f ls st
      else case peek l of
        Inl e \<Rightarrow> scan_records f ls st
      | Inr r \<Rightarrow> (case f r l st of
          (True, st') \<Rightarrow> scan_records f ls st'
        | (False, st') \<Rightarrow> (False, st')))"

definition archive_scan ::
  "faults \<Rightarrow> fs \<Rightarrow> archive \<Rightarrow> (arec \<Rightarrow> string \<Rightarrow> 's \<Rightarrow> bool \<times> 's) \<Rightarrow> 's \<Rightarrow> store_error option \<times> 's" where
  "archive_scan fl d a f st =
     (case d (a_path a) of
        None \<Rightarrow> (Some ScanOpenFailed, st)
      | Some s \<Rightarrow>
          if fl_op fl IoReopen then (Some ScanOpenFailed, st)
          else let data = (case fl_read fl of None \<Rightarrow> s | Some n \<Rightarrow> take n s);
                   (toks, long) = scan_tokens data;
                   (done, st') = scan_records f toks st
            in (if \<not> done then None
                else if long then Some ScanTooLong
                else if fl_read fl \<noteq> None then Some ScanReadFailed else None, st'))"

text \<open>\<open>Recover\<close>'s callback and \<open>Range\<close>'s callback.\<close>

definition recover_step :: "arec \<Rightarrow> string \<Rightarrow> u64 \<times> u64 set \<Rightarrow> bool \<times> (u64 \<times> u64 set)" where
  "recover_step r line st =
     (True, max (fst st) (rec_seq r),
        if rec_kind r = kind_shush then
          (case parse_shush (rec_payload r) of Inl e \<Rightarrow> snd st | Inr t \<Rightarrow> insert t (snd st))
        else snd st)"

definition archive_recover :: "faults \<Rightarrow> fs \<Rightarrow> archive \<Rightarrow> store_error option \<times> (u64 \<times> u64 set)" where
  "archive_recover fl d a = archive_scan fl d a recover_step (0, {})"

definition range_step :: "crypto \<Rightarrow> key_lookup \<Rightarrow> u64 \<Rightarrow> u64 \<Rightarrow> arec \<Rightarrow> string \<Rightarrow> message list \<Rightarrow>
    bool \<times> message list" where
  "range_step cr keys from to r line out =
     (if rec_seq r < from then (True, out)
      else if rec_seq r > to then (False, out)
      else case open_envelope cr keys line of Inl e \<Rightarrow> (True, out) | Inr m \<Rightarrow> (True, out @ [m]))"

definition archive_range ::
  "crypto \<Rightarrow> faults \<Rightarrow> fs \<Rightarrow> archive \<Rightarrow> u64 \<Rightarrow> u64 \<Rightarrow> store_error + message list" where
  "archive_range cr fl d a from to =
     (case archive_scan fl d a (range_step cr (a_keys a) from to) [] of
        (Some e, out) \<Rightarrow> Inl e | (None, out) \<Rightarrow> Inr out)"

section \<open>The last line\<close>

lemma no_faults_simps [simp]:
  "fl_op no_faults x = False" "fl_read no_faults = None" "fl_write no_faults = None"
  by (simp_all add: no_faults_def)

lemma last_newline_spec:
  "i \<le> length buf \<Longrightarrow> last_newline buf i =
    (let k = length (takeWhile (\<lambda>c. c \<noteq> newline_byte) (rev (take i buf)))
     in if k = i then None else Some (i - k - 1))"
proof (induction i)
  case (Suc i)
  then have "length (takeWhile (\<lambda>c. c \<noteq> newline_byte) (rev (take i buf))) \<le> i"
    using length_takeWhile_le [of _ "rev (take i buf)"] by (metis Suc_leD length_rev length_take min.absorb2)
  with Suc show ?case by (simp add: take_Suc_conv_app_nth Let_def)
qed simp

lemma takeWhile_all: "length (takeWhile P xs) = length xs \<Longrightarrow> \<forall>x\<in>set xs. P x"
  by (metis takeWhile_dropWhile_id append_eq_conv_conj length_append set_takeWhileD take_all
      takeWhile_eq_take order_refl)

lemma search_back_spec:
  "off \<le> length s \<Longrightarrow> search_back no_faults k s off =
    Inr (off - length (takeWhile (\<lambda>c. c \<noteq> newline_byte) (rev (take off s))))"
proof (induction "no_faults" k s off rule: search_back.induct)
  case (1 k s off)
  let ?n = "min chunk off" and ?P = "\<lambda>c. c \<noteq> newline_byte"
  let ?buf = "read_at s (off - ?n) ?n"
  let ?k = "length (takeWhile ?P (rev ?buf))"
  show ?case
  proof (cases "off = 0")
    case False
    have len: "length ?buf = ?n" using 1(2) by (simp add: read_at_def)
    have split: "rev (take off s) = rev ?buf @ rev (take (off - ?n) s)"
    proof -
      have "take off s = take (off - ?n) s @ ?buf"
        unfolding read_at_def by (metis diff_le_self le_add_diff_inverse2 min.cobounded2 take_add)
      then show ?thesis by simp
    qed
    have ln: "last_newline ?buf (length ?buf) = (if ?k = ?n then None else Some (?n - ?k - 1))"
      using last_newline_spec [of "length ?buf" ?buf] by (simp add: len Let_def)
    have kn: "?k \<le> ?n" using length_takeWhile_le [of ?P "rev ?buf"] len by simp
    show ?thesis
    proof (cases "?k = ?n")
      case True
      then have all: "\<forall>c\<in>set (rev ?buf). ?P c"
        using len by (intro takeWhile_all) simp
      have "search_back no_faults k s off = search_back no_faults k s (off - ?n)"
        using False ln True by (subst search_back.simps) (simp add: Let_def)
      also have "\<dots> = Inr (off - ?n - length (takeWhile ?P (rev (take (off - ?n) s))))"
        using 1(1) [OF False refl _ refl] ln True 1(2) by simp
      also have "\<dots> = Inr (off - length (takeWhile ?P (rev (take off s))))"
      proof -
        have "takeWhile ?P (rev ?buf @ r) = rev ?buf @ takeWhile ?P r" for r
          using all by (intro takeWhile_append2) blast
        then show ?thesis unfolding split by (simp add: len)
      qed
      finally show ?thesis .
    next
      case neq: False
      have "\<exists>c\<in>set (rev ?buf). \<not> ?P c"
      proof (rule ccontr)
        assume "\<not> (\<exists>c\<in>set (rev ?buf). \<not> ?P c)"
        then have "takeWhile ?P (rev ?buf) = rev ?buf" by (intro takeWhile_eq_all_conv [THEN iffD2]) blast
        then have "?k = length ?buf" by (metis length_rev)
        with neq len show False by simp
      qed
      then have "takeWhile ?P (rev (take off s)) = takeWhile ?P (rev ?buf)"
        unfolding split by (auto intro: takeWhile_append1)
      moreover have "search_back no_faults k s off = Inr (off - ?n + (?n - ?k - 1) + 1)"
        using False ln neq by (subst search_back.simps) (simp add: Let_def)
      moreover have "off - ?n + (?n - ?k - 1) + 1 = off - ?k" using kn neq by linarith
      ultimately show ?thesis by simp
    qed
  qed (simp add: search_back.simps)
qed

text \<open>A file is whole lines: its last byte, if any, is a newline.\<close>

definition whole_lines :: "string \<Rightarrow> bool" where
  "whole_lines s \<longleftrightarrow> s = [] \<or> last s = newline_byte"

lemma takeWhile_rev_line:
  assumes "whole_lines p" "newline_byte \<notin> set x"
  shows "takeWhile (\<lambda>c. c \<noteq> newline_byte) (rev (p @ x)) = rev x"
proof (cases "p = []")
  case True
  with assms(2) show ?thesis by (auto simp: takeWhile_eq_all_conv)
next
  case False
  with assms(1) have "p = butlast p @ [newline_byte]"
    by (metis append_butlast_last_id whole_lines_def)
  then have "rev (p @ x) = rev x @ newline_byte # rev (butlast p)"
    by (metis append.assoc append_Cons append_Nil rev_append rev_rev_ident rev_singleton_conv)
  moreover have "takeWhile (\<lambda>c. c \<noteq> newline_byte) (rev x @ newline_byte # r) = rev x" for r
    using assms(2) by (intro takeWhile_append_stop) auto
  ultimately show ?thesis by (simp only:)
qed

lemma last_line_spec:
  assumes "whole_lines p" "newline_byte \<notin> set x" "t = [] \<or> t = [newline_byte]" "x @ t \<noteq> []"
  shows "last_line no_faults k (p @ x @ t) (length (p @ x @ t)) = Inr (length p, x @ t)"
proof -
  let ?s = "p @ x @ t"
  have stop: "(if length ?s > 0 \<and> ?s ! (length ?s - 1) = newline_byte then length ?s - 1 else length ?s)
      = length (p @ x)"
  proof (cases "t = []")
    case True
    then have "x \<noteq> []" using assms(4) by simp
    then have "?s ! (length ?s - 1) = last x"
      using True last_conv_nth [of ?s] by simp
    moreover have "last x \<noteq> newline_byte" using assms(2) \<open>x \<noteq> []\<close> last_in_set by metis
    ultimately show ?thesis using True by simp
  next
    case False
    then show ?thesis using assms(3) by (simp add: nth_append)
  qed
  have "take (length (p @ x)) ?s = p @ x" by simp
  then have "search_back no_faults k ?s (length (p @ x)) = Inr (length p)"
    using takeWhile_rev_line [OF assms(1,2)]
      search_back_spec [of "length (p @ x)" ?s k] by simp
  then show ?thesis
    unfolding last_line_def stop by (simp add: read_at_def)
qed

text \<open>Every non-empty file has such a last line.\<close>

lemma last_line_exists:
  assumes "s \<noteq> []"
  obtains p x t where "s = p @ x @ t" "whole_lines p" "newline_byte \<notin> set x"
    "t = [] \<or> t = [newline_byte]" "x @ t \<noteq> []"
proof -
  let ?P = "\<lambda>c. c \<noteq> newline_byte"
  have cut: "\<exists>p x. u = p @ x \<and> whole_lines p \<and> newline_byte \<notin> set x" for u
  proof -
    have "u = rev (dropWhile ?P (rev u)) @ rev (takeWhile ?P (rev u))"
      by (metis rev_append rev_rev_ident takeWhile_dropWhile_id)
    moreover have "whole_lines (rev (dropWhile ?P (rev u)))"
      using hd_dropWhile [of ?P "rev u"] by (auto simp: whole_lines_def last_rev)
    moreover have "newline_byte \<notin> set (rev (takeWhile ?P (rev u)))"
      by (auto dest: set_takeWhileD)
    ultimately show ?thesis by blast
  qed
  show thesis
  proof (cases "last s = newline_byte")
    case True
    obtain p x where c: "butlast s = p @ x" "whole_lines p" "newline_byte \<notin> set x"
      using cut by blast
    have "s = butlast s @ [newline_byte]" using True assms by (metis append_butlast_last_id)
    with c show thesis using that [of p x "[newline_byte]"] by simp
  next
    case False
    obtain p x where c: "s = p @ x" "whole_lines p" "newline_byte \<notin> set x"
      using cut by blast
    with False assms have "x \<noteq> []" by (auto simp: whole_lines_def)
    with c show thesis using that [of p x "[]"] by simp
  qed
qed

lemma repair_tail_step:
  assumes "whole_lines p" "newline_byte \<notin> set x" "t = [] \<or> t = [newline_byte]" "x @ t \<noteq> []"
  shows "repair_tail no_faults (Suc k) (p @ x @ t) =
    (if t \<noteq> [] \<and> json_valid x then (None, p @ x @ t) else repair_tail no_faults k p)"
proof -
  have "last (x @ t) = newline_byte \<longleftrightarrow> t \<noteq> []"
    using assms(2,3,4) by (cases "t = []") (auto dest: last_in_set)
  moreover have "butlast (x @ t) = x" if "t \<noteq> []" using that assms(3) by auto
  moreover have "take (length p) (p @ x @ t) = p" by simp
  ultimately show ?thesis
    using last_line_spec [OF assms] assms(4) by (auto simp: Let_def)
qed

section \<open>How long a record is\<close>

lemma length_commas: "length (commas xs) \<le> sum_list (map length xs) + length xs"
  by (induction xs rule: commas.induct) auto

lemma length_print_object:
  "length (json_print (JObj ms)) \<le>
    sum_list (map (\<lambda>(k, v). 6 * length k + length (json_print v) + 4) ms) + 2"
proof -
  have "length (commas (map print_member ms)) \<le> sum_list (map (length \<circ> print_member) ms) + length ms"
    using length_commas [of "map print_member ms"] by simp
  also have "\<dots> \<le> sum_list (map (\<lambda>(k, v). 6 * length k + length (json_print v) + 4) ms)"
  proof (induction ms)
    case (Cons m ms)
    then show ?case
      using length_json_quote(1) [of "fst m"] by (cases m) (simp add: print_member_def)
  qed simp
  finally show ?thesis by (simp add: print_member_def)
qed

lemma length_marshal_header:
  assumes "header_ok h"
  shows "length (marshal_header h) \<le> 6 * (length (h_room h) + length (h_nick h) + length (h_kind h) +
    length (h_hash h) + length (h_keyid h) + length (h_mime h)) + 400"
proof -
  have i: "length (int_str (h_v h)) \<le> 20" "length (int_str (h_ts h)) \<le> 20"
    "length (int_str (h_w h)) \<le> 20" "length (int_str (h_h h)) \<le> 20"
    using assms length_int_str by (simp_all add: header_ok_def)
  have "length (marshal_header h) \<le>
    sum_list (map (\<lambda>(k, v). 6 * length k + length (json_print v) + 4) (header_members h)) + 2"
    unfolding marshal_header_def by (rule length_print_object)
  also have "\<dots> \<le> 6 * (length (h_room h) + length (h_nick h) + length (h_kind h) +
    length (h_hash h) + length (h_keyid h) + length (h_mime h)) + 400"
    using i length_nat_str_u64 [of "h_seq h"] length_json_quote(1) [of "h_room h"]
      length_json_quote(1) [of "h_nick h"] length_json_quote(1) [of "h_kind h"]
      length_json_quote(1) [of "h_hash h"] length_json_quote(1) [of "h_keyid h"]
      length_json_quote(1) [of "h_mime h"]
    by (simp add: header_members_def)
  finally show ?thesis .
qed

lemma length_encode_wire:
  "length (encode_wire m) \<le> 6 * length (m_raw m) + 12 * length (m_sig m) + 6 * length (m_payload m) + 100"
proof -
  let ?b = "b64_encode b64_std True (m_sig m)"
  have "length (encode_wire m) \<le> sum_list (map (\<lambda>(k, v). 6 * length k + length (json_print v) + 4)
      (wire_members \<lparr>w_h = m_raw m, w_sig = ?b, w_p = m_payload m\<rparr>)) + 2"
    unfolding encode_wire_def by (rule length_print_object)
  also have "\<dots> \<le> 6 * length (m_raw m) + 12 * length (m_sig m) + 6 * length (m_payload m) + 100"
    using length_b64 [of b64_std True "m_sig m"] length_json_quote(1) [of "m_raw m"]
      length_json_quote(1) [of ?b] length_json_quote(1) [of "m_payload m"]
    by (simp add: wire_members_def)
  finally show ?thesis .
qed

lemma length_encode_wire_ge: "length (m_raw m) + length (m_payload m) \<le> length (encode_wire m)"
  using length_json_quote(2) [of "m_raw m"] length_json_quote(2) [of "m_payload m"]
  by (simp add: encode_wire_def wire_members_def)

lemma length_commas_ge: "x \<in> set xs \<Longrightarrow> length x \<le> length (commas xs)"
  by (induction xs rule: commas.induct) auto

lemma length_marshal_header_ge: "length (h_mime h) \<le> length (marshal_header h)"
proof (cases "h_mime h = []")
  case False
  let ?x = "print_member (''mime'', JStr (h_mime h))"
  have "length (h_mime h) \<le> length ?x"
    using length_json_quote(2) [of "h_mime h"] by (simp add: print_member_def)
  also have "\<dots> \<le> length (commas (map print_member (header_members h)))"
    using False by (intro length_commas_ge imageI) (simp add: header_members_def)
  also have "\<dots> \<le> length (marshal_header h)"
    by (simp add: marshal_header_def print_member_def [abs_def])
  finally show ?thesis .
qed simp

section \<open>What a scan sees in a log of records\<close>

definition log_bytes :: "message list \<Rightarrow> string" where
  "log_bytes ms = concat (map archive_line ms)"

lemma log_bytes_simps [simp]:
  "log_bytes [] = []" "log_bytes (m # ms) = m_wire m @ newline_byte # log_bytes ms"
  "log_bytes (ms @ ns) = log_bytes ms @ log_bytes ns"
  by (simp_all add: log_bytes_def archive_line_def)

lemma whole_lines_log: "whole_lines (log_bytes ms)"
  by (induction ms rule: rev_induct) (simp_all add: whole_lines_def)

lemma wf_message_wire:
  assumes "wf_message m"
  shows "newline_byte \<notin> set (m_wire m)" "CHR 0x0D \<notin> set (m_wire m)" "m_wire m \<noteq> []"
    "json_valid (m_wire m)"
proof -
  have w: "m_wire m = encode_wire m" using assms by (simp add: wf_message_def)
  show "newline_byte \<notin> set (m_wire m)" unfolding w by (intro printable_no_newline) simp
  have "printable (m_wire m)" unfolding w by simp
  then show "CHR 0x0D \<notin> set (m_wire m)" by (auto simp: printable_def list_all_iff)
  show "m_wire m \<noteq> []" unfolding w by simp
  have "unmarshal_wire (m_wire m) \<noteq> None" using unmarshal_encode_wire_sane [OF assms] by simp
  then show "json_valid (m_wire m)"
    by (auto simp: unmarshal_wire_def unmarshal_struct_def json_valid_def split: option.splits)
qed

lemma scan_tokens_line:
  assumes "newline_byte \<notin> set l" "length l < max_line"
  shows "scan_tokens (l @ newline_byte # s) = (drop_cr l # fst (scan_tokens s), snd (scan_tokens s))"
proof -
  have "takeWhile (\<lambda>c. c \<noteq> newline_byte) (l @ newline_byte # s) = l"
    using assms(1) by (intro takeWhile_append_stop) auto
  then show ?thesis
    using assms(2) by (subst scan_tokens.simps) (simp add: Let_def split_beta)
qed

lemma scan_tokens_long:
  assumes "newline_byte \<notin> set l" "max_line \<le> length l"
  shows "scan_tokens (l @ newline_byte # s) = ([], True)"
proof -
  have "takeWhile (\<lambda>c. c \<noteq> newline_byte) (l @ newline_byte # s) = l"
    using assms(1) by (intro takeWhile_append_stop) auto
  then show ?thesis
    using assms(2) by (subst scan_tokens.simps) (simp add: Let_def)
qed

lemma scan_tokens_record:
  assumes "wf_message m" "length (m_wire m) < max_line"
  shows "scan_tokens (m_wire m @ newline_byte # s) = (m_wire m # fst (scan_tokens s), snd (scan_tokens s))"
proof -
  have "drop_cr (m_wire m) = m_wire m"
    using wf_message_wire(2,3) [OF assms(1)] by (metis drop_cr_def last_in_set)
  with scan_tokens_line [OF wf_message_wire(1) [OF assms(1)] assms(2)] show ?thesis by simp
qed

lemma scan_tokens_log:
  "\<forall>m\<in>set ms. wf_message m \<and> length (m_wire m) < max_line \<Longrightarrow>
    scan_tokens (log_bytes ms) = (map m_wire ms, False)"
proof (induction ms)
  case (Cons m ms)
  with scan_tokens_record [of m "log_bytes ms"] show ?case by simp
qed (simp add: scan_tokens.simps)

lemma peek_header_marshal:
  assumes "header_ok h"
  shows "unmarshal_struct set_peek_header (0, []) (marshal_header h) = Some (h_seq h, h_kind h)"
proof -
  have "unmarshal_struct set_peek_header (0, []) (marshal_header h)
    = assign_members set_peek_header (header_members h) (0, [])"
    unfolding marshal_header_def using assms by (intro unmarshal_struct_flat flat_header_members)
  also have "\<dots> = Some (h_seq h, h_kind h)"
    by (simp add: header_members_def set_peek_header_def)
  finally show ?thesis .
qed

lemma peek_wire:
  assumes "wf_message m" "utf8_valid (m_payload m)"
  shows "peek (m_wire m) =
    Inr \<lparr>rec_seq = h_seq (m_header m), rec_kind = h_kind (m_header m), rec_payload = m_payload m\<rparr>"
proof -
  let ?w = "\<lparr>w_h = m_raw m, w_sig = b64_encode b64_std True (m_sig m), w_p = m_payload m\<rparr>"
  have "list_all flat_ok (wire_members ?w)"
    using assms by (simp add: wire_members_def wf_message_def utf8_valid_marshal_header b64_encode_valid)
  then have "unmarshal_struct set_peek_outer ([], []) (m_wire m)
    = assign_members set_peek_outer (wire_members ?w) ([], [])"
    using assms(1) by (simp only: wf_message_def encode_wire_def unmarshal_struct_flat)
  also have "\<dots> = Some (m_raw m, m_payload m)"
    by (simp add: wire_members_def set_peek_outer_def)
  finally have "unmarshal_struct set_peek_outer ([], []) (m_wire m) = Some (m_raw m, m_payload m)" .
  then show ?thesis
    using assms(1) peek_header_marshal [of "m_header m"] by (simp add: peek_def wf_message_def)
qed

section \<open>Repair, recovery and ranges of a log\<close>

lemma repair_tail_log:
  assumes "\<forall>m\<in>set ms. wf_message m"
  shows "repair_tail no_faults (Suc k) (log_bytes ms) = (None, log_bytes ms)"
proof (cases ms rule: rev_cases)
  case (snoc ns m)
  with assms have w: "wf_message m" by simp
  have "repair_tail no_faults (Suc k) (log_bytes ns @ m_wire m @ [newline_byte])
    = (None, log_bytes ns @ m_wire m @ [newline_byte])"
    using wf_message_wire(4) [OF w]
    by (subst repair_tail_step [OF whole_lines_log wf_message_wire(1) [OF w]]) simp_all
  with snoc show ?thesis by simp
qed simp

lemma repair_tail_torn:
  assumes "\<forall>m\<in>set ms. wf_message m" "newline_byte \<notin> set x"
  shows "repair_tail no_faults (Suc (Suc k)) (log_bytes ms @ x) = (None, log_bytes ms)"
proof (cases "x = []")
  case True
  with repair_tail_log [OF assms(1)] show ?thesis by simp
next
  case False
  then have "repair_tail no_faults (Suc (Suc k)) (log_bytes ms @ x @ [])
    = repair_tail no_faults (Suc k) (log_bytes ms)"
    by (subst repair_tail_step [OF whole_lines_log assms(2)]) simp_all
  with repair_tail_log [OF assms(1)] show ?thesis by simp
qed

definition shush_target :: "message \<Rightarrow> u64 option" where
  "shush_target m =
     (if h_kind (m_header m) = kind_shush then
        (case parse_shush (m_payload m) of Inl e \<Rightarrow> None | Inr t \<Rightarrow> Some t) else None)"

definition readable :: "message \<Rightarrow> bool" where
  "readable m \<longleftrightarrow> wf_message m \<and> utf8_valid (m_payload m) \<and> length (m_wire m) < max_line"

definition authentic :: "crypto \<Rightarrow> key_lookup \<Rightarrow> message \<Rightarrow> bool" where
  "authentic cr keys m \<longleftrightarrow> signed_by cr keys m \<and> hash_holds cr m"

lemma readable_facts:
  assumes "readable m"
  shows "wf_message m" "utf8_valid (m_payload m)" "length (m_wire m) < max_line"
  using assms by (simp_all add: readable_def)

lemma scan_recover_log:
  "\<forall>m\<in>set ms. readable m \<Longrightarrow>
    scan_records recover_step (map m_wire ms) (q, sh) =
      (True, fold max (map m_seq ms) q, sh \<union> {t. \<exists>m\<in>set ms. shush_target m = Some t})"
proof (induction ms arbitrary: q sh)
  case (Cons m ms)
  have m: "readable m" using Cons.prems by simp
  have "recover_step \<lparr>rec_seq = m_seq m, rec_kind = h_kind (m_header m), rec_payload = m_payload m\<rparr>
      (m_wire m) (q, sh) = (True, max (m_seq m) q, sh \<union> {t. shush_target m = Some t})"
    by (auto simp: recover_step_def shush_target_def max.commute split: sum.splits)
  then show ?case
    using Cons wf_message_wire(3) [OF readable_facts(1) [OF m]] peek_wire [OF readable_facts(1,2) [OF m]]
    by auto
qed simp

lemma archive_scan_log:
  assumes "d (a_path a) = Some (log_bytes ms)" "\<forall>m\<in>set ms. readable m"
  shows "archive_scan no_faults d a f st = (None, snd (scan_records f (map m_wire ms) st))"
  using assms scan_tokens_log [of ms]
  by (simp add: archive_scan_def readable_def split_beta Let_def)

lemma scan_range_log:
  assumes "\<forall>m\<in>set ms. readable m" "ascending ms"
  shows "snd (scan_records (range_step cr keys from to) (map m_wire ms) out) =
    out @ filter (\<lambda>m. from \<le> m_seq m \<and> m_seq m \<le> to \<and> authentic cr keys m) ms"
  using assms
proof (induction ms arbitrary: out)
  case (Cons m ms)
  have m: "readable m" using Cons.prems by simp
  note step = peek_wire [OF readable_facts(1,2) [OF m]] wf_message_wire(3) [OF readable_facts(1) [OF m]]
  have o: "open_envelope cr keys (m_wire m) = Inr m" if "authentic cr keys m"
    using that m by (intro open_wf_Inr) (simp_all add: authentic_def readable_def)
  have o': "\<exists>e. open_envelope cr keys (m_wire m) = Inl e" if "\<not> authentic cr keys m"
    using that open_wf [OF readable_facts(1,2) [OF m], of cr keys]
    by (auto simp: authentic_def signed_by_def hash_holds_def split: option.splits)
  show ?case
  proof (cases "m_seq m \<le> to")
    case True
    with Cons step o o' show ?thesis
      by (cases "authentic cr keys m") (auto simp: range_step_def ascending_def not_le)
  next
    case False
    then have "\<forall>x\<in>set ms. \<not> m_seq x \<le> to"
      using Cons.prems(2) by (auto simp: ascending_def)
    then have "filter (\<lambda>m. from \<le> m_seq m \<and> m_seq m \<le> to \<and> authentic cr keys m) ms = []"
      by (auto simp: filter_empty_conv)
    with False Cons step show ?thesis
      by (cases "m_seq m < from") (auto simp: range_step_def ascending_def)
  qed
qed simp

section \<open>The archive is a durable log\<close>

definition log_holds :: "crypto \<Rightarrow> archive \<Rightarrow> fs \<Rightarrow> message list \<Rightarrow> bool" where
  "log_holds cr a d ms \<longleftrightarrow> d (a_path a) = Some (log_bytes ms) \<and> ascending ms \<and>
     (\<forall>m\<in>set ms. readable m \<and> authentic cr (a_keys a) m)"

definition disk_after_append :: "archive \<Rightarrow> fs \<Rightarrow> message \<Rightarrow> fs" where
  "disk_after_append a d m = snd (archive_append no_faults d a m)"

definition disk_after_open :: "archive \<Rightarrow> fs \<Rightarrow> fs option" where
  "disk_after_open a d =
     (case open_archive no_faults d (a_path a) (a_keys a) of (Inl e, d') \<Rightarrow> None | (Inr a', d') \<Rightarrow> Some d')"

definition recovered :: "archive \<Rightarrow> fs \<Rightarrow> (u64 \<times> u64 set) option" where
  "recovered a d =
     (case archive_recover no_faults d a of (None, r) \<Rightarrow> Some r | (Some e, r) \<Rightarrow> None)"

definition archived_between :: "crypto \<Rightarrow> archive \<Rightarrow> u64 \<Rightarrow> u64 \<Rightarrow> fs \<Rightarrow> message list option" where
  "archived_between cr a from to d =
     (case archive_range cr no_faults d a from to of Inl e \<Rightarrow> None | Inr ms \<Rightarrow> Some ms)"

lemma archive_range_log:
  assumes "d (a_path a) = Some (log_bytes ms)" "\<forall>m\<in>set ms. readable m" "ascending ms"
  shows "archive_range cr no_faults d a from to =
    Inr (filter (\<lambda>m. from \<le> m_seq m \<and> m_seq m \<le> to \<and> authentic cr (a_keys a) m) ms)"
  using scan_range_log [OF assms(2,3)]
  by (simp add: archive_range_def archive_scan_log [where d = d and a = a and ms = ms, OF assms(1,2)])

lemma open_archive_log:
  assumes "d path = Some (log_bytes ms)" "\<forall>m\<in>set ms. wf_message m"
  shows "open_archive no_faults d path keys = (Inr \<lparr>a_path = path, a_keys = keys\<rparr>, d)"
proof -
  have "d(path \<mapsto> log_bytes ms) = d" using assms(1) by (simp add: fun_upd_idem)
  then show ?thesis
    using assms repair_tail_log [of ms 7] by (simp add: open_archive_def repair_attempts_def)
qed

interpretation archive_log: durable_log "log_holds cr a" "[a_path a \<mapsto> []]" "disk_after_append a"
  "disk_after_open a" "recovered a" "archived_between cr a"
  "\<lambda>m. readable m \<and> authentic cr (a_keys a) m" m_seq shush_target
  for cr :: crypto and a :: archive
proof unfold_locales
  show "log_holds cr a [a_path a \<mapsto> []] []" by (simp add: log_holds_def ascending_def)
next
  fix d ms m
  assume "log_holds cr a d ms" "readable m \<and> authentic cr (a_keys a) m" "\<forall>x\<in>set ms. m_seq x < m_seq m"
  then show "log_holds cr a (disk_after_append a d m) (ms @ [m])"
    by (auto simp: log_holds_def disk_after_append_def archive_append_def archive_line_def
        intro: ascending_snoc)
next
  fix d ms assume h: "log_holds cr a d ms"
  then show "sorted_wrt (\<lambda>a b. m_seq a < m_seq b) ms" by (simp add: log_holds_def ascending_def)
  show "disk_after_open a d = Some d"
    using h by (simp add: disk_after_open_def log_holds_def open_archive_log readable_def)
  show "recovered a d = Some (fold max (map m_seq ms) 0, {t. \<exists>m\<in>set ms. shush_target m = Some t})"
    using h scan_recover_log [of ms 0 "{}"]
    by (simp add: recovered_def archive_recover_def log_holds_def archive_scan_log)
  show "archived_between cr a from to d = Some (filter (\<lambda>m. from \<le> m_seq m \<and> m_seq m \<le> to) ms)" for "from" to
    using h by (auto simp: archived_between_def log_holds_def archive_range_log intro!: filter_cong)
qed

section \<open>Instances for the witnesses\<close>

lemma sample_facts:
  assumes "p \<noteq> []" "kind_valid kind" "\<not> (kind = kind_image \<and> mime = [])" "utf8_valid mime"
  shows "wf_message (sample_message q kind mime p)" "m_payload (sample_message q kind mime p) = p"
    "m_seq (sample_message q kind mime p) = q" "h_kind (m_header (sample_message q kind mime p)) = kind"
    "h_mime (m_header (sample_message q kind mime p)) = mime"
    "authentic sample_crypto sample_keys (sample_message q kind mime p)"
    "length (m_wire (sample_message q kind mime p)) \<le> 20000 + 120 * length mime + 6 * length p"
proof -
  let ?m = "sample_message q kind mime p"
  have s: "seal sample_crypto sample_signer (sample_header q kind mime) p = Inr ?m"
    using assms by (intro sample_sealed) auto
  have k: "utf8_valid kind" "length kind \<le> 5"
    using assms(2) by (auto simp: kind_valid_def kind_text_def kind_image_def kind_shush_def)
  show wf: "wf_message ?m"
    using s k assms(4) by (intro seal_wf) auto
  show "m_payload ?m = p" "m_seq ?m = q" "h_kind (m_header ?m) = kind" "h_mime (m_header ?m) = mime"
    using s by (simp_all add: seal_Inr sample_header_def)
  show "authentic sample_crypto sample_keys ?m"
    using seal_signed [OF crypto_ok_sample s, of sample_keys] by (simp add: authentic_def)
  have "length (marshal_header (m_header ?m)) \<le> 6 * (length (h_room (m_header ?m)) +
    length (h_nick (m_header ?m)) + length (h_kind (m_header ?m)) + length (h_hash (m_header ?m)) +
    length (h_keyid (m_header ?m)) + length (h_mime (m_header ?m))) + 400"
    using wf by (intro length_marshal_header) (simp add: wf_message_def)
  then have raw: "length (m_raw ?m) \<le> 6 * (81 + length mime) + 400"
    using s k(2) by (simp add: seal_Inr sample_header_def hash_payload_def sample_crypto_def sample_signer_def)
  moreover have "length (m_sig ?m) \<le> 64"
    using s by (simp add: seal_Inr sample_crypto_def sample_signer_def)
  moreover have "length (m_wire ?m) \<le> 6 * length (m_raw ?m) + 12 * length (m_sig ?m) + 6 * length p + 100"
    using s length_encode_wire [of ?m] by (simp add: seal_Inr)
  ultimately show "length (m_wire ?m) \<le> 20000 + 120 * length mime + 6 * length p" by simp
qed

lemma sample_readable:
  "p \<noteq> [] \<Longrightarrow> length p \<le> 1000 \<Longrightarrow> utf8_valid p \<Longrightarrow> readable (sample_message q kind_text [] p)"
  using sample_facts [of p kind_text "[]" q] by (simp add: readable_def max_line_def)

definition sample_archive :: archive where
  "sample_archive = \<lparr>a_path = ''general.jsonl'', a_keys = sample_keys\<rparr>"

lemma sample_log_holds:
  "log_holds sample_crypto sample_archive [''general.jsonl'' \<mapsto> log_bytes [sample_message 7 kind_text [] ''hello'']]
    [sample_message 7 kind_text [] ''hello'']"
  using sample_readable [of "''hello''" 7] sample_facts(6) [of "''hello''" kind_text "[]" 7]
  by (simp add: log_holds_def sample_archive_def ascending_def)

section \<open>Properties\<close>

lemma repair_tail_prefix: "\<exists>r. s = snd (repair_tail fl k s) @ r"
proof (induction k arbitrary: s)
  case (Suc k)
  have "\<exists>r. s = snd (repair_tail fl k (take n s)) @ r" for n
    using Suc [of "take n s"] by (metis append.assoc append_take_drop_id)
  then show ?case by (simp add: Let_def split: sum.splits prod.splits)
qed simp

lemma repair_tail_sound:
  assumes "fst (repair_tail no_faults k s) = None" "snd (repair_tail no_faults k s) \<noteq> []"
  shows "\<exists>p x. snd (repair_tail no_faults k s) = p @ x @ [newline_byte] \<and> whole_lines p \<and>
    newline_byte \<notin> set x \<and> json_valid x"
  using assms
proof (induction k arbitrary: s)
  case (Suc k)
  show ?case
  proof (cases "s = []")
    case False
    then obtain p x t where c: "s = p @ x @ t" "whole_lines p" "newline_byte \<notin> set x"
      "t = [] \<or> t = [newline_byte]" "x @ t \<noteq> []" by (rule last_line_exists)
    show ?thesis
    proof (cases "t \<noteq> [] \<and> json_valid x")
      case True
      with c have "repair_tail no_faults (Suc k) s = (None, p @ x @ [newline_byte])"
        by (simp only: repair_tail_step [OF c(2-5)]) auto
      with c True show ?thesis by auto
    next
      case False
      then have "repair_tail no_faults (Suc k) s = repair_tail no_faults k p"
        by (simp only: c(1) repair_tail_step [OF c(2-5)] if_False)
      with Suc show ?thesis by simp
    qed
  qed (use Suc.prems in simp)
qed simp

text \<open>Repair only ever cuts. Whatever the file holds and whichever call fails, what repair
  leaves is a prefix of the file; and when it succeeds on a disk without faults, the file is empty
  or ends in a complete line that is valid JSON.\<close>

theorem repair_only_cuts:
  assumes "repair_tail fl k s = (e, s')"
  shows "(\<exists>r. s = s' @ r) \<and>
    (fl = no_faults \<and> e = None \<and> s' \<noteq> [] \<longrightarrow>
      (\<exists>p x. s' = p @ x @ [newline_byte] \<and> whole_lines p \<and> newline_byte \<notin> set x \<and> json_valid x))"
  using repair_tail_prefix [of s fl k] repair_tail_sound [of k s] assms by auto

theorem repair_only_cuts_witness:
  "\<exists>p x. log_bytes [sample_message 7 kind_text [] ''hello''] = p @ x @ [newline_byte] \<and> json_valid x"
proof -
  have "repair_tail no_faults (Suc 7) (log_bytes [sample_message 7 kind_text [] ''hello''])
    = (None, log_bytes [sample_message 7 kind_text [] ''hello''])"
    by (rule repair_tail_log) (simp add: sample_facts)
  from repair_only_cuts [OF this] show ?thesis by auto
qed

lemma torn_append_open:
  assumes "d (a_path a) = Some (log_bytes ms)" "\<forall>x\<in>set ms. wf_message x" "wf_message m"
    and "d' = snd (archive_append (no_faults\<lparr>fl_write := Some n\<rparr>) d a m)"
  shows "open_archive no_faults d' (a_path a) keys =
    (Inr \<lparr>a_path = a_path a, a_keys = keys\<rparr>,
     d(a_path a \<mapsto> log_bytes (if n \<le> length (m_wire m) then ms else ms @ [m])))"
proof -
  have d': "d' = d(a_path a \<mapsto> log_bytes ms @ take n (archive_line m))"
    using assms(1,4) by (simp add: archive_append_def)
  show ?thesis
  proof (cases "n \<le> length (m_wire m)")
    case True
    then have "newline_byte \<notin> set (take n (archive_line m))"
      using wf_message_wire(1) [OF assms(3)] by (auto simp: archive_line_def dest: in_set_takeD)
    then have "repair_tail no_faults (Suc (Suc 6)) (log_bytes ms @ take n (archive_line m)) = (None, log_bytes ms)"
      by (rule repair_tail_torn [OF assms(2)])
    with True show ?thesis by (simp add: d' open_archive_def repair_attempts_def)
  next
    case False
    then have "log_bytes ms @ take n (archive_line m) = log_bytes (ms @ [m])" by (simp add: archive_line_def)
    moreover have "repair_tail no_faults (Suc 7) (log_bytes (ms @ [m])) = (None, log_bytes (ms @ [m]))"
      using assms(2,3) by (intro repair_tail_log) auto
    ultimately show ?thesis using False by (simp add: d' open_archive_def repair_attempts_def)
  qed
qed

text \<open>C19: a torn write is undone. If a crash leaves only the first \<open>n\<close> bytes of a record after a
  log of well-formed records, opening the archive succeeds and leaves exactly the log before the
  record, or the log with the record when every byte of it had been written.\<close>

theorem torn_append_repaired:
  assumes "d (a_path a) = Some (log_bytes ms)" "\<forall>x\<in>set ms. wf_message x" "wf_message m"
    and "d' = snd (archive_append (no_faults\<lparr>fl_write := Some n\<rparr>) d a m)"
  shows "open_archive no_faults d' (a_path a) keys =
    (Inr \<lparr>a_path = a_path a, a_keys = keys\<rparr>,
     d(a_path a \<mapsto> log_bytes (if n \<le> length (m_wire m) then ms else ms @ [m])))"
  using assms by (rule torn_append_open)

theorem torn_append_repaired_witness:
  "open_archive no_faults
     (snd (archive_append (no_faults\<lparr>fl_write := Some 10\<rparr>) [''general.jsonl'' \<mapsto> []] sample_archive
        (sample_message 7 kind_text [] ''hello''))) ''general.jsonl'' sample_keys
    = (Inr sample_archive, [''general.jsonl'' \<mapsto> []])"
proof -
  have l: "length (marshal_header h) \<ge> 10" for h
    by (simp add: marshal_header_def header_members_def json_quote_def)
  have "10 \<le> length (m_wire (sample_message 7 kind_text [] ''hello''))"
    using sample_facts(1) [of "''hello''" kind_text "[]" 7]
      length_encode_wire_ge [of "sample_message 7 kind_text [] ''hello''"]
      l [of "m_header (sample_message 7 kind_text [] ''hello'')"]
    by (simp add: wf_message_def)
  then show ?thesis
    using torn_append_repaired [of "[''general.jsonl'' \<mapsto> []]" sample_archive "[]"
        "sample_message 7 kind_text [] ''hello''" _ 10 sample_keys] sample_facts(1) [of "''hello''" kind_text "[]" 7]
    by (simp add: sample_archive_def)
qed

text \<open>What a restart recovers. After a record is appended to a log, reopening and scanning the
  archive recovers as the counter exactly that record's sequence, and as the shushed set exactly
  the sequences the log's shush markers refer to.\<close>

theorem restart_recovers:
  assumes "log_holds cr a d ms" "readable m \<and> authentic cr (a_keys a) m" "\<forall>x\<in>set ms. m_seq x < m_seq m"
  shows "\<exists>d'. disk_after_open a (disk_after_append a d m) = Some d' \<and>
    recovered a d' = Some (m_seq m, {t. \<exists>x\<in>set (ms @ [m]). shush_target x = Some t})"
  using archive_log.restart_append [OF assms]
    archive_log.reopen_holds [OF archive_log.holds_append [OF assms]] by auto

theorem restart_recovers_witness:
  "\<exists>d'. recovered sample_archive d' = Some (8, {})"
proof -
  have "readable (sample_message 8 kind_text [] ''bye'') \<and>
      authentic sample_crypto (a_keys sample_archive) (sample_message 8 kind_text [] ''bye'')"
    using sample_readable [of "''bye''" 8] sample_facts(6) [of "''bye''" kind_text "[]" 8]
    by (simp add: sample_archive_def)
  moreover have "shush_target (sample_message 8 kind_text [] ''bye'') = None"
    "shush_target (sample_message 7 kind_text [] ''hello'') = None"
    by (simp_all add: shush_target_def sample_facts)
  ultimately show ?thesis
    using restart_recovers [OF sample_log_holds, of "sample_message 8 kind_text [] ''bye''"]
    by (auto simp: sample_facts)
qed

text \<open>C20: a range of the archive. From an ascending log of readable records, \<open>Range\<close> returns, in
  order, exactly the records with sequences in the range whose signature and hash hold; the early
  stop past the upper bound loses nothing, and a record that does not verify is left out rather
  than failing the read.\<close>

theorem range_serves_authentic:
  assumes "d (a_path a) = Some (log_bytes ms)" "\<forall>m\<in>set ms. readable m" "ascending ms"
  shows "archive_range cr no_faults d a from to =
    Inr (filter (\<lambda>m. from \<le> m_seq m \<and> m_seq m \<le> to \<and> authentic cr (a_keys a) m) ms)"
  using assms by (rule archive_range_log)

theorem range_serves_authentic_witness:
  "archive_range sample_crypto no_faults
     [''general.jsonl'' \<mapsto> log_bytes [sample_message 7 kind_text [] ''hello'']] sample_archive 1 9
    = Inr [sample_message 7 kind_text [] ''hello'']"
  using range_serves_authentic [of _ sample_archive "[sample_message 7 kind_text [] ''hello'']" sample_crypto 1 9]
    sample_log_holds sample_facts [of "''hello''" kind_text "[]" 7]
  by (simp add: log_holds_def sample_archive_def)

lemma long_record_recovery:
  assumes "d (a_path a) = Some (log_bytes (ms @ m # ns))" "\<forall>x\<in>set ms. readable x"
    and "\<forall>x\<in>set ns. wf_message x" "wf_message m" "max_line \<le> length (m_wire m)"
  shows "fst (archive_recover no_faults d a) = Some ScanTooLong \<and>
    open_archive no_faults d (a_path a) keys = (Inr \<lparr>a_path = a_path a, a_keys = keys\<rparr>, d)"
proof -
  have "scan_tokens (log_bytes (ms @ m # ns)) = (map m_wire ms, True)"
    using assms(2)
  proof (induction ms)
    case Nil
    show ?case
      using scan_tokens_long [OF wf_message_wire(1) [OF assms(4)] assms(5)] by simp
  next
    case (Cons x xs)
    then show ?case
      using scan_tokens_record [of x "log_bytes (xs @ m # ns)"] by (simp add: readable_def)
  qed
  then have "fst (archive_recover no_faults d a) = Some ScanTooLong"
    using assms(1) scan_recover_log [OF assms(2), of 0 "{}"]
    by (simp add: archive_recover_def archive_scan_def)
  moreover have "\<forall>x\<in>set (ms @ m # ns). wf_message x" using assms(2-4) by (auto simp: readable_def)
  ultimately show ?thesis using open_archive_log [of d "a_path a" _ keys] assms(1) by blast
qed

text \<open>A record can be too long to read back. If a record of \<open>maxLine\<close> bytes or more was
  appended, every recovery of the archive fails at it, and \<open>OpenArchive\<close> leaves it in place.\<close>

theorem long_record_blocks_recovery:
  assumes "d (a_path a) = Some (log_bytes (ms @ m # ns))" "\<forall>x\<in>set ms. readable x"
    and "\<forall>x\<in>set ns. wf_message x" "wf_message m" "max_line \<le> length (m_wire m)"
  shows "fst (archive_recover no_faults d a) = Some ScanTooLong \<and>
    open_archive no_faults d (a_path a) keys = (Inr \<lparr>a_path = a_path a, a_keys = keys\<rparr>, d)"
  using assms by (rule long_record_recovery)

theorem long_record_blocks_recovery_witness:
  "\<exists>m. h_kind (m_header m) = kind_text \<and>
    fst (archive_recover no_faults [''general.jsonl'' \<mapsto> log_bytes [m]] sample_archive) = Some ScanTooLong"
proof -
  let ?m = "sample_message 7 kind_text [] (replicate (2 ^ 20) CHR ''a'')"
  have f: "wf_message ?m" "m_payload ?m = replicate (2 ^ 20) CHR ''a''"
    "h_kind (m_header ?m) = kind_text"
    by (rule sample_facts; simp)+
  then have "length (m_payload ?m) \<le> length (m_wire ?m)"
    using length_encode_wire_ge [of ?m] by (simp add: wf_message_def)
  then have "max_line \<le> length (m_wire ?m)" by (simp only: f(2) max_line_def length_replicate)
  then show ?thesis
    using long_record_blocks_recovery [of "[''general.jsonl'' \<mapsto> log_bytes [?m]]" sample_archive "[]" ?m "[]"]
      f(1,3) by (auto simp: sample_archive_def)
qed

end
