(* ===== verification/History.thy ===== *)
theory History
  imports Archive "HOL-Library.List_Lexorder" "HOL-Library.Char_ord"
begin

text \<open>
  \<^verbatim>\<open>internal/store/history.go\<close>: a room's two-tier history, the warm ring in front of the
  archive, with the state a restart recovers: the sequence counter and the shushed set.

  The data directory is the file system of \<open>Archive\<close>, keyed by file name. The loops that count a
  \<open>uint64\<close> up to a bound are partial functions on words: a loop that wraps around and never ends
  has no result. The abstract state of a history is the list of all messages ever appended to it;
  \<open>history_inv\<close> relates the two, and the served views are functions of that list.
\<close>

section \<open>Configuration, gaps, state\<close>

record store_config =
  c_max_text :: int
  c_max_image_bytes :: int
  c_max_backfill :: int

record gap =
  g_from :: u64
  g_to :: u64

record history =
  hi_ring :: ring
  hi_archive :: archive
  hi_shushed :: "u64 set"
  hi_last :: u64
  hi_cfg :: store_config

section \<open>Room names\<close>

definition max_room_name_len :: nat where
  "max_room_name_len = 64"

definition room_rune :: "nat \<Rightarrow> bool" where
  "room_rune r \<longleftrightarrow> (r \<ge> 97 \<and> r \<le> 122) \<or> (r \<ge> 48 \<and> r \<le> 57) \<or> r = 45 \<or> r = 95"

definition validate_room_name :: "string \<Rightarrow> store_error option" where
  "validate_room_name name =
     (if name = [] then Some EmptyName
      else if length name > max_room_name_len then Some NameTooLong
      else if list_all room_rune (runes name) then None
      else Some BadName)"

definition jsonl :: string where
  "jsonl = ''.jsonl''"

definition room_path :: "string \<Rightarrow> string" where
  "room_path room = room @ jsonl"

text \<open>What \<open>os.ReadDir\<close> returns: no such directory, another error, or the entries and whether
  each is a directory.\<close>

datatype listing = DirMissing | DirError | Entries "(string \<times> bool) list"

fun entry_names :: "(string \<times> bool) list \<Rightarrow> string list" where
  "entry_names [] = []"
| "entry_names ((n, is_dir) # es) =
     (if is_dir then entry_names es
      else case cut_suffix jsonl n of
        None \<Rightarrow> entry_names es
      | Some name \<Rightarrow>
          if validate_room_name name = None then name # entry_names es else entry_names es)"

definition room_names :: "listing \<Rightarrow> store_error + string list" where
  "room_names l =
     (case l of
        DirMissing \<Rightarrow> Inr []
      | DirError \<Rightarrow> Inl ListFailed
      | Entries es \<Rightarrow> Inr (sort (entry_names es)))"

section \<open>Opening, numbering, appending\<close>

definition open_history ::
  "faults \<Rightarrow> fs \<Rightarrow> string \<Rightarrow> store_config \<Rightarrow> key_lookup \<Rightarrow> (store_error + history) \<times> fs" where
  "open_history fl d room cfg keys =
     (case validate_room_name room of
        Some e \<Rightarrow> (Inl e, d)
      | None \<Rightarrow>
          if fl_op fl IoMkdir then (Inl MkdirFailed, d)
          else case open_archive fl d (room_path room) keys of
            (Inl e, d') \<Rightarrow> (Inl e, d')
          | (Inr a, d') \<Rightarrow>
              (case archive_recover fl d' a of
                 (Some e, r) \<Rightarrow> (Inl e, d')
               | (None, r) \<Rightarrow>
                   (Inr \<lparr>hi_ring = new_ring (c_max_text cfg) (c_max_image_bytes cfg), hi_archive = a,
                         hi_shushed = snd r, hi_last = fst r, hi_cfg = cfg\<rparr>, d')))"

definition last_seq :: "history \<Rightarrow> u64" where
  "last_seq h = hi_last h"

definition next_seq :: "history \<Rightarrow> u64 \<times> history" where
  "next_seq h = (hi_last h + 1, h\<lparr>hi_last := hi_last h + 1\<rparr>)"

definition is_shushed :: "history \<Rightarrow> u64 \<Rightarrow> bool" where
  "is_shushed h q \<longleftrightarrow> q \<in> hi_shushed h"

definition history_append ::
  "faults \<Rightarrow> fs \<Rightarrow> history \<Rightarrow> message \<Rightarrow> (store_error option \<times> fs \<times> history) option" where
  "history_append fl d h m =
     (let h1 = (if m_seq m > hi_last h then h\<lparr>hi_last := m_seq m\<rparr> else h)
      in case ring_append (hi_ring h1) m of
           None \<Rightarrow> None
         | Some r \<Rightarrow>
             let h2 = h1\<lparr>hi_ring := r\<rparr>;
                 h3 = (if h_kind (m_header m) = kind_shush then
                         (case parse_shush (m_payload m) of
                            Inl e \<Rightarrow> h2 | Inr t \<Rightarrow> h2\<lparr>hi_shushed := insert t (hi_shushed h2)\<rparr>)
                       else h2);
                 (e, d') = archive_append fl d (hi_archive h3) (archival m)
             in Some (e, d', h3))"

section \<open>Serving\<close>

partial_function (option) missing :: "u64 set \<Rightarrow> (u64 \<rightharpoonup> message) \<Rightarrow> u64 \<Rightarrow> u64 \<Rightarrow> bool option" where
  "missing sh found to q =
     (if q \<le> to then
        (if found q = None \<and> q \<notin> sh then Some True else missing sh found to (q + 1))
      else Some False)"

text \<open>The messages, the gaps and the index of the gap \<open>run\<close> points to.\<close>

type_synonym serve_state = "message list \<times> gap list \<times> nat option"

definition serve_step :: "u64 set \<Rightarrow> (u64 \<rightharpoonup> message) \<Rightarrow> u64 \<Rightarrow> serve_state \<Rightarrow> serve_state" where
  "serve_step sh found q st =
     (let (msgs, gaps, run) = st
      in if q \<in> sh then st
         else case found q of
           Some m \<Rightarrow> (msgs @ [m], gaps, run)
         | None \<Rightarrow>
             (case run of
                Some i \<Rightarrow>
                  if g_to (gaps ! i) = q - 1 then (msgs, gaps[i := (gaps ! i)\<lparr>g_to := q\<rparr>], run)
                  else (msgs, gaps @ [\<lparr>g_from = q, g_to = q\<rparr>], Some (length gaps))
              | None \<Rightarrow> (msgs, gaps @ [\<lparr>g_from = q, g_to = q\<rparr>], Some (length gaps))))"

partial_function (option) serve_loop ::
  "u64 set \<Rightarrow> (u64 \<rightharpoonup> message) \<Rightarrow> u64 \<Rightarrow> u64 \<Rightarrow> serve_state \<Rightarrow> serve_state option" where
  "serve_loop sh found to q st =
     (if q \<le> to then serve_loop sh found to (q + 1) (serve_step sh found q st) else Some st)"

text \<open>The comparison \<open>int(a.Header.Seq) - int(b.Header.Seq)\<close> wraps around in 64 bits.\<close>

definition seq_cmp :: "message \<Rightarrow> message \<Rightarrow> int" where
  "seq_cmp a b = sint (m_seq a - m_seq b)"

fun insert_by :: "('a \<Rightarrow> 'a \<Rightarrow> int) \<Rightarrow> 'a \<Rightarrow> 'a list \<Rightarrow> 'a list" where
  "insert_by cmp x [] = [x]"
| "insert_by cmp x (y # ys) = (if cmp y x < 0 then y # insert_by cmp x ys else x # y # ys)"

definition sort_func :: "('a \<Rightarrow> 'a \<Rightarrow> int) \<Rightarrow> 'a list \<Rightarrow> 'a list" where
  "sort_func cmp xs = foldr (insert_by cmp) xs []"

definition ring_found :: "message list \<Rightarrow> u64 \<Rightarrow> u64 \<rightharpoonup> message" where
  "ring_found ms to = fold (\<lambda>m f. if m_seq m \<le> to then f(m_seq m \<mapsto> m) else f) ms Map.empty"

definition add_archived :: "message list \<Rightarrow> (u64 \<rightharpoonup> message) \<Rightarrow> (u64 \<rightharpoonup> message)" where
  "add_archived ms f = fold (\<lambda>m f. if f (m_seq m) = None then f(m_seq m \<mapsto> m) else f) ms f"

type_synonym served = "message list \<times> gap list \<times> store_error option"

definition serve :: "crypto \<Rightarrow> faults \<Rightarrow> fs \<Rightarrow> history \<Rightarrow> u64 \<Rightarrow> u64 \<Rightarrow> served option" where
  "serve cr fl d h from to =
     (case ring_since (hi_ring h) (from - 1) of
        None \<Rightarrow> None
      | Some warm \<Rightarrow>
          let found = ring_found warm to;
              finish = (\<lambda>f. case serve_loop (hi_shushed h) f to from ([], [], None) of
                            None \<Rightarrow> None
                          | Some (msgs, gaps, run) \<Rightarrow> Some (sort_func seq_cmp msgs, gaps, None))
          in case missing (hi_shushed h) found to from of
               None \<Rightarrow> None
             | Some False \<Rightarrow> finish found
             | Some True \<Rightarrow>
                 (case archive_range cr fl d (hi_archive h) from to of
                    Inl e \<Rightarrow> Some ([], [], Some e)
                  | Inr archived \<Rightarrow> finish (add_archived archived found)))"

definition backfill_limit :: "store_config \<Rightarrow> u64" where
  "backfill_limit cfg = word_of_int (c_max_backfill cfg)"

definition history_since :: "crypto \<Rightarrow> faults \<Rightarrow> fs \<Rightarrow> history \<Rightarrow> u64 \<Rightarrow> served option" where
  "history_since cr fl d h since =
     (if since \<ge> hi_last h then Some ([], [], None)
      else let from = since + 1; to = hi_last h; limit = backfill_limit (hi_cfg h);
               (truncated, from') =
                 (if limit > 0 \<and> to - from + 1 > limit
                  then ([\<lparr>g_from = from, g_to = to - limit + 1 - 1\<rparr>], to - limit + 1)
                  else ([], from))
           in case serve cr fl d h from' to of
                None \<Rightarrow> None
              | Some (msgs, gaps, e) \<Rightarrow> Some (msgs, truncated @ gaps, e))"

definition history_range :: "crypto \<Rightarrow> faults \<Rightarrow> fs \<Rightarrow> history \<Rightarrow> u64 \<Rightarrow> u64 \<Rightarrow> served option" where
  "history_range cr fl d h from0 to0 =
     (let from = (if from0 = 0 then 1 else from0);
          to = (if to0 > hi_last h then hi_last h else to0)
      in if from > to then Some ([], [], None)
         else let limit = backfill_limit (hi_cfg h);
                  (truncated, to') =
                    (if limit > 0 \<and> to - from + 1 > limit
                     then ([\<lparr>g_from = from + limit - 1 + 1, g_to = to\<rparr>], from + limit - 1)
                     else ([], to))
              in case serve cr fl d h from to' of
                   None \<Rightarrow> None
                 | Some (msgs, gaps, e) \<Rightarrow> Some (msgs, gaps @ truncated, e))"

section \<open>The loops over a span\<close>

definition span :: "u64 \<Rightarrow> u64 \<Rightarrow> u64 list" where
  "span q to = map word_of_nat [unat q..<Suc (unat to)]"

lemma span_Nil: "to < q \<Longrightarrow> span q to = []"
  by (simp add: span_def word_less_nat_alt)

lemma unat_Suc_u64: "q \<le> to \<Longrightarrow> to \<noteq> - 1 \<Longrightarrow> unat ((q :: u64) + 1) = Suc (unat q)"
proof -
  assume "q \<le> to" "to \<noteq> - 1"
  then have "q \<noteq> - 1" by (metis word_order.extremum_unique)
  then have "1 + q \<noteq> 0" by (simp add: add_eq_0_iff)
  then show ?thesis using unatSuc [of q] by (simp add: add.commute)
qed

lemma span_Cons:
  assumes "q \<le> to" "to \<noteq> - 1"
  shows "span q to = q # span (q + 1) to"
proof -
  have "unat q \<le> unat to" using assms(1) by (simp add: word_le_nat_alt)
  then show ?thesis
    unfolding span_def unat_Suc_u64 [OF assms] by (subst upt_conv_Cons) simp_all
qed

lemma set_span: "set (span q to) = {x. q \<le> x \<and> x \<le> to}"
proof -
  have "x \<in> word_of_nat ` {unat q..<Suc (unat to)} \<longleftrightarrow> q \<le> x \<and> x \<le> to" for x :: u64
  proof
    assume "x \<in> word_of_nat ` {unat q..<Suc (unat to)}"
    then obtain n where n: "x = word_of_nat n" "unat q \<le> n" "n \<le> unat to" by auto
    then have "n < 2 ^ 64" using unat_u64(1) [of to] by (rule_tac le_less_trans) auto
    then have "unat x = n" using n(1) by (simp add: unat_of_nat take_bit_nat_eq_self)
    with n show "q \<le> x \<and> x \<le> to" by (simp add: word_le_nat_alt)
  next
    assume "q \<le> x \<and> x \<le> to"
    then have "unat x \<in> {unat q..<Suc (unat to)}" by (simp add: word_le_nat_alt less_Suc_eq_le)
    then show "x \<in> word_of_nat ` {unat q..<Suc (unat to)}" by (rule rev_image_eqI) simp
  qed
  then show ?thesis unfolding span_def set_map set_upt by blast
qed

lemma span_induct [consumes 1, case_names stop step]:
  assumes "to \<noteq> - 1"
    and "\<And>q. to < q \<Longrightarrow> P q"
    and "\<And>q. q \<le> to \<Longrightarrow> P (q + 1) \<Longrightarrow> P q"
  shows "P (q :: u64)"
proof (induction "unat to + 1 - unat q" arbitrary: q rule: less_induct)
  case less
  show ?case
  proof (cases "q \<le> to")
    case True
    then have "unat to + 1 - unat (q + 1) < unat to + 1 - unat q"
      using unat_Suc_u64 [OF True assms(1)] by (simp add: word_le_nat_alt)
    with less True assms(3) show ?thesis by blast
  next
    case False
    with assms(2) show ?thesis by simp
  qed
qed

lemma missing_loop_span:
  assumes "to \<noteq> - 1"
  shows "missing sh found to q = Some (\<exists>x\<in>set (span q to). found x = None \<and> x \<notin> sh)"
  using assms
proof (induction q rule: span_induct)
  case (stop q)
  then have "\<not> q \<le> to" by simp
  with stop show ?case by (subst missing.simps) (simp add: span_Nil)
next
  case (step q)
  then show ?case
    by (subst missing.simps, cases "found q") (simp_all add: span_Cons [OF step(1) assms])
qed

lemma missing_span:
  assumes "to \<noteq> - 1"
  shows "missing sh found to q = Some (\<exists>x. q \<le> x \<and> x \<le> to \<and> found x = None \<and> x \<notin> sh)"
  unfolding missing_loop_span [OF assms] by (auto simp: set_span)

lemma serve_loop_span:
  assumes "to \<noteq> - 1"
  shows "serve_loop sh found to q st = Some (fold (serve_step sh found) (span q to) st)"
  using assms
proof (induction q arbitrary: st rule: span_induct)
  case (stop q)
  then have "\<not> q \<le> to" by simp
  with stop show ?case by (subst serve_loop.simps) (simp add: span_Nil)
next
  case (step q)
  then show ?case by (subst serve_loop.simps) (simp add: span_Cons [OF step(1) assms])
qed

section \<open>The gaps are the maximal runs\<close>

definition covered :: "gap list \<Rightarrow> u64 \<Rightarrow> bool" where
  "covered gaps x \<longleftrightarrow> (\<exists>g\<in>set gaps. g_from g \<le> x \<and> x \<le> g_to g)"

text \<open>Ascending non-empty gaps, no two of them adjacent, that cover exactly what is missing.\<close>

definition gap_runs :: "(u64 \<Rightarrow> bool) \<Rightarrow> gap list \<Rightarrow> bool" where
  "gap_runs M gaps \<longleftrightarrow> (\<forall>g\<in>set gaps. g_from g \<le> g_to g) \<and> (\<forall>x. covered gaps x \<longleftrightarrow> M x) \<and>
     sorted_wrt (\<lambda>g g'. unat (g_to g) + 1 < unat (g_from g')) gaps"

lemma covered_simps [simp]:
  "\<not> covered [] x" "covered (g # gs) x \<longleftrightarrow> (g_from g \<le> x \<and> x \<le> g_to g) \<or> covered gs x"
  "covered (gs @ gs') x \<longleftrightarrow> covered gs x \<or> covered gs' x"
  by (auto simp: covered_def)

lemma gap_runs_cong: "gap_runs M gaps \<Longrightarrow> (\<And>x. M x \<longleftrightarrow> M' x) \<Longrightarrow> gap_runs M' gaps"
  by (simp add: gap_runs_def)

lemma less_Suc_u64: "q \<le> to \<Longrightarrow> to \<noteq> - 1 \<Longrightarrow> x < (q :: u64) + 1 \<longleftrightarrow> x \<le> q"
  using unat_Suc_u64 [of q to] by (simp add: word_less_nat_alt word_le_nat_alt less_Suc_eq_le)

text \<open>Adding the next sequence to the gaps: a gap of its own, or the last gap grown by one.\<close>

lemma gap_runs_new:
  assumes "gap_runs (\<lambda>x. x < y \<and> N x) gaps" "N y"
    and "\<forall>g\<in>set gaps. unat (g_to g) + 1 < unat y"
  shows "gap_runs (\<lambda>x. x \<le> y \<and> N x) (gaps @ [\<lparr>g_from = y, g_to = y\<rparr>])"
  using assms by (auto simp: gap_runs_def sorted_wrt_append)

lemma gap_runs_grow:
  assumes "gap_runs (\<lambda>x. x < y \<and> N x) (gs @ [g])" "N y" "unat (g_to g) + 1 = unat y"
  shows "gap_runs (\<lambda>x. x \<le> y \<and> N x) (gs @ [g\<lparr>g_to := y\<rparr>])"
proof -
  have below: "x < y \<longleftrightarrow> x \<le> g_to g" for x
    using assms(3) by (simp add: word_less_nat_alt word_le_nat_alt) linarith
  have "g_from g \<le> g_to g" using assms(1) by (simp add: gap_runs_def)
  then have "g_from g \<le> y" using below [of "g_from g"] by simp
  moreover have "covered gs x \<or> g_from g \<le> x \<and> x \<le> y \<longleftrightarrow> x \<le> y \<and> N x" for x
  proof -
    have c: "covered gs x \<or> g_from g \<le> x \<and> x < y \<longleftrightarrow> x < y \<and> N x"
      using assms(1) below by (simp add: gap_runs_def)
    show ?thesis
      using c assms(2) \<open>g_from g \<le> y\<close> by (cases "x = y") auto
  qed
  ultimately show ?thesis
    using assms(1) by (auto simp: gap_runs_def sorted_wrt_append)
qed

definition run_ok :: "gap list \<Rightarrow> nat option \<Rightarrow> bool" where
  "run_ok gaps run \<longleftrightarrow> run = (if gaps = [] then None else Some (length gaps - 1))"

lemma gaps_far:
  assumes "gap_runs P (gs @ [g])" "unat (g_to g) + 1 < unat y" "g' \<in> set (gs @ [g])"
  shows "unat (g_to g') + 1 < unat y"
proof (cases "g' = g")
  case False
  then have "unat (g_to g') + 1 < unat (g_from g)" "g_from g \<le> g_to g"
    using assms(1,3) by (auto simp: gap_runs_def sorted_wrt_append)
  with assms(2) show ?thesis by (simp add: word_le_nat_alt)
qed (use assms(2) in simp)

lemma serve_step_gaps:
  assumes "gap_runs (\<lambda>x. x < y \<and> N x) gaps" "run_ok gaps run"
    and N: "\<And>x. N x \<longleftrightarrow> q \<le> x \<and> x \<notin> sh \<and> found x = None" and "q \<le> y"
  shows "\<exists>ms gaps' run'. serve_step sh found y (msgs, gaps, run) = (ms, gaps', run') \<and>
    gap_runs (\<lambda>x. x \<le> y \<and> N x) gaps' \<and> run_ok gaps' run'"
proof (cases "N y")
  case False
  then have "gap_runs (\<lambda>x. x \<le> y \<and> N x) gaps"
    using assms(1) by (rule_tac gap_runs_cong [OF assms(1)]) (auto simp: order.order_iff_strict)
  moreover have "y \<in> sh \<or> (\<exists>m. found y = Some m)" using False N assms(4) by auto
  ultimately show ?thesis using assms(2) by (auto simp: serve_step_def split: option.splits)
next
  case True
  then have y: "y \<notin> sh" "found y = None" using N by auto
  have below: "unat (g_to g) < unat y" if "g \<in> set gaps" for g
  proof -
    have "covered gaps (g_to g)" using that assms(1) by (auto simp: covered_def gap_runs_def)
    then have "g_to g < y" using assms(1) by (simp add: gap_runs_def)
    then show ?thesis by (simp add: word_less_nat_alt)
  qed
  show ?thesis
  proof (cases gaps rule: rev_cases)
    case Nil
    then show ?thesis
      using y gap_runs_new [OF assms(1) True] assms(2) by (auto simp: serve_step_def run_ok_def)
  next
    case (snoc gs g)
    then have run: "run = Some (length gs)" using assms(2) by (simp add: run_ok_def)
    have "unat (y - 1) = unat y - 1"
      using below [of g] snoc by (intro unat_minus_one) (auto simp: unat_eq_zero)
    then have adj: "g_to g = y - 1 \<longleftrightarrow> unat (g_to g) + 1 = unat y"
      using below [of g] snoc by (auto simp: word_unat_eq_iff)
    show ?thesis
    proof (cases "g_to g = y - 1")
      case True
      with adj have "gap_runs (\<lambda>x. x \<le> y \<and> N x) (gs @ [g\<lparr>g_to := y\<rparr>])"
        using assms(1) \<open>N y\<close> snoc by (intro gap_runs_grow) auto
      with True y run snoc show ?thesis by (simp add: serve_step_def run_ok_def)
    next
      case False
      have "unat (g_to g) + 1 < unat y" using False adj below [of g] snoc by simp
      then have "\<forall>g'\<in>set gaps. unat (g_to g') + 1 < unat y"
        using gaps_far [OF assms(1) [unfolded snoc]] snoc by blast
      then have "gap_runs (\<lambda>x. x \<le> y \<and> N x) (gaps @ [\<lparr>g_from = y, g_to = y\<rparr>])"
        by (rule gap_runs_new [OF assms(1) True])
      with False y run snoc show ?thesis by (simp add: serve_step_def run_ok_def nth_append)
    qed
  qed
qed

lemma serve_fold_gaps:
  assumes "to \<noteq> - 1" "gap_runs (\<lambda>x. x < y \<and> N x) gaps" "run_ok gaps run" "q \<le> y" "y \<le> to + 1"
    and N: "\<And>x. N x \<longleftrightarrow> q \<le> x \<and> x \<notin> sh \<and> found x = None"
  shows "\<exists>ms gaps' run'. fold (serve_step sh found) (span y to) (msgs, gaps, run) = (ms, gaps', run') \<and>
    gap_runs (\<lambda>x. x \<le> to \<and> N x) gaps'"
  using assms(1-5)
proof (induction y arbitrary: msgs gaps run rule: span_induct)
  case (stop y)
  have "x < y \<longleftrightarrow> x \<le> to" for x
    using stop(1,5) less_Suc_u64 [of to to x] assms(1) by auto
  with stop(2) have "gap_runs (\<lambda>x. x \<le> to \<and> N x) gaps" by (simp add: gap_runs_def)
  with stop(1) show ?case by (simp add: span_Nil)
next
  case (step y)
  obtain ms g r where st: "serve_step sh found y (msgs, gaps, run) = (ms, g, r)"
    "gap_runs (\<lambda>x. x \<le> y \<and> N x) g" "run_ok g r"
    using serve_step_gaps [OF step(3,4) N step(5)] by blast
  have "gap_runs (\<lambda>x. x < y + 1 \<and> N x) g"
    using st(2) less_Suc_u64 [OF step(1) assms(1)] by simp
  moreover have "q \<le> y + 1" "y + 1 \<le> to + 1"
    using step(1,5) unat_Suc_u64 [OF step(1) assms(1)] unat_Suc_u64 [OF order_refl assms(1)]
    by (simp_all add: word_le_nat_alt)
  ultimately show ?case
    using step(2) [of g r ms] st by (simp add: span_Cons [OF step(1) assms(1)])
qed

lemma serve_fold_msgs:
  "fst (fold (serve_step sh found) qs (msgs, gaps, run)) =
    msgs @ map (the \<circ> found) (filter (\<lambda>q. q \<notin> sh \<and> found q \<noteq> None) qs)"
proof (induction qs arbitrary: msgs gaps run)
  case (Cons q qs)
  obtain ms g r where st: "serve_step sh found q (msgs, gaps, run) = (ms, g, r)" by (metis prod_cases3)
  then have "ms = (if q \<in> sh then msgs else case found q of None \<Rightarrow> msgs | Some m \<Rightarrow> msgs @ [m])"
    by (auto simp: serve_step_def split: option.splits if_splits)
  with Cons [of ms g r] st show ?case by (auto split: option.splits)
qed simp

section \<open>The sort\<close>

lemma sort_func_sorted:
  "sorted_wrt (\<lambda>a b. cmp b a \<ge> 0) xs \<Longrightarrow> sort_func cmp xs = xs"
proof (induction xs)
  case (Cons x xs)
  then show ?case by (cases xs) (simp_all add: sort_func_def)
qed (simp add: sort_func_def)

lemma sint_diff_nonneg:
  assumes "a \<le> (b :: u64)" "unat b - unat a < 2 ^ 63"
  shows "0 \<le> sint (b - a)"
proof -
  have "unat (b - a) = unat b - unat a" using assms(1) by (rule unat_sub)
  then have "unat (b - a) < 2 ^ 63" using assms(2) by simp
  then have "uint (b - a) < 2 ^ 63"
    unfolding uint_nat by (simp only: of_nat_less_numeral_power_cancel_iff)
  then have "\<not> bit (uint (b - a)) 63" by (simp add: bit_iff_odd)
  then show ?thesis by (simp add: sint_uint)
qed

lemma sorted_span:
  assumes "to \<noteq> - 1"
  shows "sorted_wrt (<) (span q to)"
  using assms
proof (induction q rule: span_induct)
  case (step q)
  then have "\<forall>x\<in>set (span (q + 1) to). q < x"
    using less_Suc_u64 [OF step(1) assms] by (auto simp: set_span not_le [symmetric] dest: leD)
  with step show ?case by (simp add: span_Cons [OF step(1) assms])
qed (simp add: span_Nil)

section \<open>The maps a serve builds\<close>

lemma ascending_unique:
  "ascending ms \<Longrightarrow> m \<in> set ms \<Longrightarrow> m' \<in> set ms \<Longrightarrow> m_seq m = m_seq m' \<Longrightarrow> m = m'"
  by (induction ms) (auto simp: ascending_def)

lemma ring_found_eq:
  assumes "ascending ms"
  shows "ring_found ms to q = Some m \<longleftrightarrow> m \<in> set ms \<and> m_seq m = q \<and> q \<le> to"
proof -
  have "fold (\<lambda>m f. if m_seq m \<le> to then f(m_seq m \<mapsto> m) else f) ms f q = Some m \<longleftrightarrow>
    (m \<in> set ms \<and> m_seq m = q \<and> q \<le> to) \<or>
    (f q = Some m \<and> \<not> (\<exists>x\<in>set ms. m_seq x = q \<and> q \<le> to))" for f
    using assms
  proof (induction ms arbitrary: f)
    case (Cons x xs)
    then have "ascending xs" "\<forall>y\<in>set xs. m_seq y \<noteq> m_seq x" by (auto simp: ascending_def)
    with Cons.IH show ?case by auto
  qed simp
  then show ?thesis by (simp add: ring_found_def)
qed

lemma add_archived_eq:
  assumes "ascending ms"
  shows "add_archived ms f q = Some m \<longleftrightarrow> f q = Some m \<or> (f q = None \<and> m \<in> set ms \<and> m_seq m = q)"
proof -
  have "fold (\<lambda>m f. if f (m_seq m) = None then f(m_seq m \<mapsto> m) else f) ms f q = Some m \<longleftrightarrow>
    f q = Some m \<or> (f q = None \<and> m \<in> set ms \<and> m_seq m = q)"
    using assms
  proof (induction ms arbitrary: f)
    case (Cons x xs)
    then have "ascending xs" "\<forall>y\<in>set xs. m_seq y \<noteq> m_seq x" by (auto simp: ascending_def)
    with Cons.IH show ?case by auto
  qed simp
  then show ?thesis by (simp add: add_archived_def)
qed

section \<open>The abstract history\<close>

text \<open>\<open>ms\<close> is every message of the room, as broadcast where the ring still has it.\<close>

definition history_inv :: "crypto \<Rightarrow> fs \<Rightarrow> history \<Rightarrow> message list \<Rightarrow> bool" where
  "history_inv cr d h ms \<longleftrightarrow> log_holds cr (hi_archive h) d (map archival ms) \<and>
     ring_inv (hi_ring h) \<and> ring_messages (hi_ring h) \<subseteq> set ms \<and>
     hi_shushed h = {t. \<exists>m\<in>set ms. shush_target m = Some t} \<and>
     (\<forall>m\<in>set ms. m_seq m \<le> hi_last h)"

definition served_copy :: "ring \<Rightarrow> message \<Rightarrow> message" where
  "served_copy r m = (if m \<in> ring_messages r then m else archival m)"

definition lost :: "history \<Rightarrow> message list \<Rightarrow> u64 \<Rightarrow> bool" where
  "lost h ms q \<longleftrightarrow> q \<notin> hi_shushed h \<and> (\<forall>m\<in>set ms. m_seq m \<noteq> q)"

lemma history_inv_facts:
  assumes "history_inv cr d h ms"
  shows "log_holds cr (hi_archive h) d (map archival ms)" "ring_inv (hi_ring h)"
    "ring_messages (hi_ring h) \<subseteq> set ms" "ascending ms" "\<forall>m\<in>set ms. m_seq m \<le> hi_last h"
    "hi_shushed h = {t. \<exists>m\<in>set ms. shush_target m = Some t}"
  using assms by (auto simp: history_inv_def log_holds_def ascending_def sorted_wrt_map)

lemma pred_less_u64: "(q :: u64) \<noteq> 0 \<Longrightarrow> q - 1 < x \<longleftrightarrow> q \<le> x"
proof -
  assume "q \<noteq> 0"
  then have "unat (q - 1) = unat q - 1" "unat q \<noteq> 0" by (simp_all add: unat_minus_one unat_eq_zero)
  then show ?thesis by (simp add: word_less_nat_alt word_le_nat_alt) linarith
qed

lemma served_copy_seq [simp]: "m_seq (served_copy r m) = m_seq m"
  by (simp add: served_copy_def)

lemma archive_range_inv:
  assumes "history_inv cr d h ms"
  shows "archive_range cr no_faults d (hi_archive h) from to =
    Inr (filter (\<lambda>m. from \<le> m_seq m \<and> m_seq m \<le> to) (map archival ms))"
  using archive_log.range_holds [OF history_inv_facts(1) [OF assms], of "from" to]
  by (auto simp: archived_between_def split: sum.splits)

lemma ring_since_inv:
  assumes "history_inv cr d h ms" "from \<noteq> 0"
  obtains warm where "ring_since (hi_ring h) (from - 1) = Some warm" "ascending warm"
    "set warm = {m \<in> ring_messages (hi_ring h). from \<le> m_seq m}"
proof -
  obtain warm where "ring_since (hi_ring h) (from - 1) = Some warm" "ascending warm"
    "set warm = {m \<in> ring_messages (hi_ring h). from - 1 < m_seq m}"
    using ring_since_spec [OF history_inv_facts(2) [OF assms(1)]] by blast
  then show thesis using that by (simp add: pred_less_u64 [OF assms(2)])
qed

text \<open>With or without the archive, what is found for a sequence that is not shushed is the served
  copy of the room's message of that sequence.\<close>

lemma serve_found:
  assumes inv: "history_inv cr d h ms" and "ascending warm"
    and "set warm = {m \<in> ring_messages (hi_ring h). from \<le> m_seq m}"
    and "f = (if \<exists>x. from \<le> x \<and> x \<le> to \<and> ring_found warm to x = None \<and> x \<notin> hi_shushed h
      then add_archived (filter (\<lambda>m. from \<le> m_seq m \<and> m_seq m \<le> to) (map archival ms)) (ring_found warm to)
      else ring_found warm to)"
    and q: "from \<le> q" "q \<le> to" "q \<notin> hi_shushed h"
  shows "f q = Some x \<longleftrightarrow> (\<exists>m\<in>set ms. m_seq m = q \<and> x = served_copy (hi_ring h) m)"
proof -
  note F = history_inv_facts [OF inv]
  have ring: "ring_found warm to q = Some x \<longleftrightarrow> x \<in> ring_messages (hi_ring h) \<and> m_seq x = q" for x
    using assms(3) q(1,2) by (auto simp: ring_found_eq [OF assms(2)])
  have uniq: "m = m'" if "m \<in> set ms" "m' \<in> set ms" "m_seq m = m_seq m'" for m m'
    using ascending_unique [OF F(4)] that by blast
  show ?thesis
  proof (cases "ring_found warm to q")
    case None
    then have f: "f = add_archived (filter (\<lambda>m. from \<le> m_seq m \<and> m_seq m \<le> to) (map archival ms))
        (ring_found warm to)" using assms(4) q by auto
    have asc: "ascending (filter (\<lambda>m. from \<le> m_seq m \<and> m_seq m \<le> to) (map archival ms))"
      using F(1) by (simp add: log_holds_def ascending_def sorted_wrt_filter)
    have none: "m \<notin> ring_messages (hi_ring h)" if "m_seq m = q" for m
      using ring [of m] None that by auto
    show ?thesis unfolding f add_archived_eq [OF asc] None
      using q(1,2) none by (auto simp: served_copy_def)
  next
    case (Some y)
    then have y: "y \<in> ring_messages (hi_ring h)" "m_seq y = q" "y \<in> set ms" using ring F(3) by auto
    have "f q = Some y"
      using assms(4) Some F(1)
      by (auto simp: add_archived_eq log_holds_def ascending_def sorted_wrt_filter)
    moreover have "(\<exists>m\<in>set ms. m_seq m = q \<and> x = served_copy (hi_ring h) m) \<longleftrightarrow> x = y"
      using y uniq by (auto simp: served_copy_def)
    ultimately show ?thesis by auto
  qed
qed

section \<open>The view of a span\<close>

definition view_of :: "history \<Rightarrow> message list \<Rightarrow> u64 \<Rightarrow> u64 \<Rightarrow> message list \<Rightarrow> gap list \<Rightarrow> bool" where
  "view_of h ms from to msgs gaps \<longleftrightarrow> ascending msgs \<and>
     set msgs = served_copy (hi_ring h) `
       {m \<in> set ms. from \<le> m_seq m \<and> m_seq m \<le> to \<and> m_seq m \<notin> hi_shushed h} \<and>
     gap_runs (\<lambda>x. from \<le> x \<and> x \<le> to \<and> lost h ms x) gaps \<and>
     length msgs \<le> Suc (unat to) - unat from"

lemma small_top: "unat (q :: u64) < 2 ^ 63 \<Longrightarrow> q \<noteq> - 1"
  by (auto simp: unsigned_minus_1_eq_mask mask_eq_exp_minus_1)

lemma serve_gaps:
  assumes "to \<noteq> - 1" "fold (serve_step sh f) (span from to) ([], [], None) = (msgs, gaps, run)"
  shows "gap_runs (\<lambda>x. x \<le> to \<and> (from \<le> x \<and> x \<notin> sh \<and> f x = None)) gaps"
proof (cases "from \<le> to + 1")
  case True
  then have "\<exists>ms' gaps' run'. fold (serve_step sh f) (span from to) ([], [], None) = (ms', gaps', run') \<and>
    gap_runs (\<lambda>x. x \<le> to \<and> (from \<le> x \<and> x \<notin> sh \<and> f x = None)) gaps'"
    by (intro serve_fold_gaps [OF assms(1)]) (auto simp: gap_runs_def run_ok_def)
  with assms(2) show ?thesis by auto
next
  case False
  then have "span from to = []" "\<And>x. \<not> (x \<le> to \<and> from \<le> x)"
    using unat_Suc_u64 [OF order_refl assms(1)] by (auto simp: span_def word_le_nat_alt not_le)
  with assms(2) show ?thesis by (auto simp: gap_runs_def)
qed

text \<open>Messages in the order of their sequences are left alone by the sort, whose comparison subtracts.\<close>

lemma sort_served:
  assumes "sorted_wrt (<) qs" "\<And>q. q \<in> set qs \<Longrightarrow> m_seq (g q) = q" "\<And>q. q \<in> set qs \<Longrightarrow> unat q < 2 ^ 63"
  shows "ascending (map g qs)" "sort_func seq_cmp (map g qs) = map g qs"
proof -
  show "ascending (map g qs)"
    unfolding ascending_def sorted_wrt_map by (rule sorted_wrt_mono_rel [OF _ assms(1)]) (simp add: assms(2))
  have "sorted_wrt (\<lambda>a b. seq_cmp b a \<ge> 0) (map g qs)"
    unfolding sorted_wrt_map
  proof (rule sorted_wrt_mono_rel [OF _ assms(1)])
    fix a b assume ab: "a \<in> set qs" "b \<in> set qs" "a < b"
    then have "unat b - unat a < 2 ^ 63" using assms(3) [of b] by linarith
    with ab sint_diff_nonneg [of a b] show "0 \<le> seq_cmp (g b) (g a)" by (simp add: seq_cmp_def assms(2))
  qed
  then show "sort_func seq_cmp (map g qs) = map g qs" by (rule sort_func_sorted)
qed

lemma serve_finish:
  assumes small: "unat to < 2 ^ 63"
    and f: "\<And>q x. from \<le> q \<Longrightarrow> q \<le> to \<Longrightarrow> q \<notin> hi_shushed h \<Longrightarrow>
      f q = Some x \<longleftrightarrow> (\<exists>m\<in>set ms. m_seq m = q \<and> x = served_copy (hi_ring h) m)"
  shows "\<exists>msgs gaps run. serve_loop (hi_shushed h) f to from ([], [], None) = Some (msgs, gaps, run) \<and>
    sort_func seq_cmp msgs = msgs \<and> view_of h ms from to msgs gaps"
proof -
  let ?sh = "hi_shushed h"
  let ?P = "\<lambda>q. q \<notin> ?sh \<and> f q \<noteq> None"
  let ?qs = "filter ?P (span from to)"
  have top: "to \<noteq> - 1" using small by (rule small_top)
  obtain msgs gaps run where st: "fold (serve_step ?sh f) (span from to) ([], [], None) = (msgs, gaps, run)"
    by (metis prod_cases3)
  have msgs: "msgs = map (the \<circ> f) ?qs"
    using serve_fold_msgs [of ?sh f "span from to" "[]" "[]" None] st by simp
  have inq: "from \<le> q \<and> q \<le> to" if "q \<in> set ?qs" for q using that by (auto simp: set_span)
  have seqs: "m_seq (the (f q)) = q" if "q \<in> set ?qs" for q
  proof -
    obtain x where "f q = Some x" using \<open>q \<in> set ?qs\<close> by auto
    with f [of q x] inq [OF that] that show ?thesis by auto
  qed
  have qs: "sorted_wrt (<) ?qs" using sorted_span [OF top, of "from"] by (rule sorted_wrt_filter)
  have small_q: "unat q < 2 ^ 63" if "q \<in> set ?qs" for q using inq [OF that] small by (auto simp: word_le_nat_alt)
  have asc: "ascending msgs" and sort: "sort_func seq_cmp msgs = msgs"
    unfolding msgs using sort_served [OF qs, of "the \<circ> f"] seqs small_q by simp_all
  have set: "set msgs = served_copy (hi_ring h) `
      {m \<in> set ms. from \<le> m_seq m \<and> m_seq m \<le> to \<and> m_seq m \<notin> ?sh}" (is "_ = ?R")
  proof -
    have "x \<in> set msgs \<longleftrightarrow> (\<exists>q. from \<le> q \<and> q \<le> to \<and> q \<notin> ?sh \<and> f q = Some x)" for x
      by (force simp: msgs set_span)
    also have "\<dots> x \<longleftrightarrow> x \<in> ?R" for x using f by auto
    finally show ?thesis by blast
  qed
  have "length (span from to) = Suc (unat to) - unat from" by (simp add: span_def Suc_diff_le)
  then have len: "length msgs \<le> Suc (unat to) - unat from"
    unfolding msgs using length_filter_le [of ?P "span from to"] by simp
  have "gap_runs (\<lambda>x. x \<le> to \<and> (from \<le> x \<and> x \<notin> ?sh \<and> f x = None)) gaps" using top st by (rule serve_gaps)
  moreover have "f x = None \<longleftrightarrow> (\<forall>m\<in>set ms. m_seq m \<noteq> x)" if "from \<le> x" "x \<le> to" "x \<notin> ?sh" for x
    using f [OF that] by (metis not_Some_eq)
  ultimately have "gap_runs (\<lambda>x. from \<le> x \<and> x \<le> to \<and> lost h ms x) gaps"
    by (elim gap_runs_cong) (auto simp: lost_def)
  with asc set len have "view_of h ms from to msgs gaps" by (simp add: view_of_def)
  with st sort show ?thesis by (simp add: serve_loop_span [OF top])
qed

lemma serve_spec:
  assumes inv: "history_inv cr d h ms" and "from \<noteq> 0" "unat to < 2 ^ 63"
  shows "\<exists>msgs gaps. serve cr no_faults d h from to = Some (msgs, gaps, None) \<and>
    view_of h ms from to msgs gaps"
proof -
  have top: "to \<noteq> - 1" using assms(3) by (rule small_top)
  obtain warm where w: "ring_since (hi_ring h) (from - 1) = Some warm" "ascending warm"
    "set warm = {m \<in> ring_messages (hi_ring h). from \<le> m_seq m}"
    using ring_since_inv [OF inv assms(2)] by blast
  let ?found = "ring_found warm to"
  let ?arch = "filter (\<lambda>m. from \<le> m_seq m \<and> m_seq m \<le> to) (map archival ms)"
  let ?miss = "\<exists>x. from \<le> x \<and> x \<le> to \<and> ?found x = None \<and> x \<notin> hi_shushed h"
  let ?f = "if ?miss then add_archived ?arch ?found else ?found"
  have "?f q = Some x \<longleftrightarrow> (\<exists>m\<in>set ms. m_seq m = q \<and> x = served_copy (hi_ring h) m)"
    if "from \<le> q" "q \<le> to" "q \<notin> hi_shushed h" for q x
    by (rule serve_found [OF inv w(2,3) refl that])
  then obtain msgs gaps run where
    l: "serve_loop (hi_shushed h) ?f to from ([], [], None) = Some (msgs, gaps, run)"
    "sort_func seq_cmp msgs = msgs" "view_of h ms from to msgs gaps"
    using serve_finish [of to "from" h ?f ms] assms(3) by blast
  have miss: "missing (hi_shushed h) ?found to from = Some ?miss" by (rule missing_span [OF top])
  show ?thesis
  proof (cases ?miss)
    case True
    then have "missing (hi_shushed h) ?found to from = Some True" using miss by (simp only: True)
    moreover have "?f = add_archived ?arch ?found" using True by (simp only: if_True)
    ultimately show ?thesis
      using l by (simp add: serve_def w(1) Let_def archive_range_inv [OF inv])
  next
    case False
    then have "missing (hi_shushed h) ?found to from = Some False" using miss by (simp only: False)
    moreover have "?f = ?found" using False by (simp only: if_False)
    ultimately show ?thesis
      using l by (simp add: serve_def w(1) Let_def)
  qed
qed

section \<open>Windows\<close>

text \<open>Nothing in the span is silently dropped: each sequence is withheld as shushed, delivered, or
  covered by a gap.\<close>

definition accounted :: "history \<Rightarrow> u64 \<Rightarrow> u64 \<Rightarrow> message list \<Rightarrow> gap list \<Rightarrow> bool" where
  "accounted h from to msgs gaps \<longleftrightarrow>
     (\<forall>q. from \<le> q \<and> q \<le> to \<longrightarrow>
        q \<in> hi_shushed h \<or> (\<exists>m\<in>set msgs. m_seq m = q) \<or> covered gaps q)"

lemma view_accounted: "view_of h ms from to msgs gaps \<Longrightarrow> accounted h from to msgs gaps"
proof -
  assume v: "view_of h ms from to msgs gaps"
  show ?thesis unfolding accounted_def
  proof (intro allI impI)
    fix q assume q: "from \<le> q \<and> q \<le> to"
    show "q \<in> hi_shushed h \<or> (\<exists>m\<in>set msgs. m_seq m = q) \<or> covered gaps q"
    proof (cases "q \<in> hi_shushed h \<or> lost h ms q")
      case True
      with v q show ?thesis by (auto simp: view_of_def gap_runs_def)
    next
      case False
      then obtain m where "m \<in> set ms" "m_seq m = q" "q \<notin> hi_shushed h" by (auto simp: lost_def)
      then have "served_copy (hi_ring h) m \<in> set msgs" using v q by (auto simp: view_of_def)
      with \<open>m_seq m = q\<close> show ?thesis by (metis served_copy_seq)
    qed
  qed
qed

definition since_start :: "history \<Rightarrow> u64 \<Rightarrow> u64" where
  "since_start h since =
     (let lim = backfill_limit (hi_cfg h)
      in if 0 < lim \<and> lim < hi_last h - since then hi_last h - lim + 1 else since + 1)"

definition since_truncated :: "history \<Rightarrow> u64 \<Rightarrow> gap list" where
  "since_truncated h since =
     (if since_start h since = since + 1 then []
      else [\<lparr>g_from = since + 1, g_to = since_start h since - 1\<rparr>])"

lemma since_start_facts:
  assumes "since < hi_last h" "unat (hi_last h) < 2 ^ 63"
  shows "unat (since + 1) = Suc (unat since)" "since + 1 \<le> since_start h since"
    "since_start h since \<le> hi_last h"
    "0 < backfill_limit (hi_cfg h) \<Longrightarrow>
      Suc (unat (hi_last h)) - unat (since_start h since) \<le> unat (backfill_limit (hi_cfg h))"
    "0 < backfill_limit (hi_cfg h) \<and> backfill_limit (hi_cfg h) < hi_last h - since \<longleftrightarrow>
      since_start h since \<noteq> since + 1"
proof -
  let ?lim = "backfill_limit (hi_cfg h)"
  have top: "hi_last h \<noteq> - 1" using assms(2) by (rule small_top)
  have lt: "unat since < unat (hi_last h)" using assms(1) by (simp add: word_less_nat_alt)
  show s1: "unat (since + 1) = Suc (unat since)"
    using unat_Suc_u64 [OF less_imp_le [OF assms(1)] top] .
  have d: "unat (hi_last h - since) = unat (hi_last h) - unat since"
    using assms(1) by (intro unat_sub) simp
  consider "0 < ?lim \<and> ?lim < hi_last h - since" | "\<not> (0 < ?lim \<and> ?lim < hi_last h - since)" by blast
  then have "since + 1 \<le> since_start h since \<and> since_start h since \<le> hi_last h \<and>
    (0 < ?lim \<longrightarrow> Suc (unat (hi_last h)) - unat (since_start h since) \<le> unat ?lim) \<and>
    (0 < ?lim \<and> ?lim < hi_last h - since \<longleftrightarrow> since_start h since \<noteq> since + 1)"
  proof cases
    case 1
    then have l: "0 < unat ?lim" "unat ?lim < unat (hi_last h) - unat since"
      using d by (simp_all add: word_less_nat_alt)
    then have "unat (hi_last h - ?lim) = unat (hi_last h) - unat ?lim"
      by (intro unat_sub) (simp add: word_le_nat_alt)
    moreover from this have "hi_last h - ?lim \<le> hi_last h" by (simp add: word_le_nat_alt)
    ultimately have "unat (hi_last h - ?lim + 1) = Suc (unat (hi_last h) - unat ?lim)"
      using unat_Suc_u64 [OF _ top] by simp
    with 1 l lt s1 show ?thesis
      by (auto simp: since_start_def Let_def word_le_nat_alt word_unat_eq_iff)
  next
    case 2
    then have "since_start h since = since + 1" unfolding since_start_def Let_def by (rule if_not_P)
    with 2 s1 lt d show ?thesis by (auto simp: word_le_nat_alt word_less_nat_alt)
  qed
  then show "since + 1 \<le> since_start h since" "since_start h since \<le> hi_last h"
    "0 < ?lim \<Longrightarrow> Suc (unat (hi_last h)) - unat (since_start h since) \<le> unat ?lim"
    "0 < ?lim \<and> ?lim < hi_last h - since \<longleftrightarrow> since_start h since \<noteq> since + 1" by blast+
qed

lemma history_since_spec:
  assumes inv: "history_inv cr d h ms" and small: "unat (hi_last h) < 2 ^ 63" and "since < hi_last h"
  shows "\<exists>msgs gaps. history_since cr no_faults d h since =
      Some (msgs, since_truncated h since @ gaps, None) \<and>
    view_of h ms (since_start h since) (hi_last h) msgs gaps"
proof -
  note f = since_start_facts [OF assms(3) small]
  have "since_start h since \<noteq> 0"
    using f(1,2) by (auto simp: word_le_nat_alt)
  then obtain msgs gaps where s: "serve cr no_faults d h (since_start h since) (hi_last h) = Some (msgs, gaps, None)"
    "view_of h ms (since_start h since) (hi_last h) msgs gaps"
    using serve_spec [OF inv _ small] by blast
  have "history_since cr no_faults d h since = Some (msgs, since_truncated h since @ gaps, None)"
  proof (cases "0 < backfill_limit (hi_cfg h) \<and> backfill_limit (hi_cfg h) < hi_last h - since")
    case True
    then have "since_start h since = hi_last h - backfill_limit (hi_cfg h) + 1"
      by (simp add: since_start_def Let_def)
    with True f(5) s(1) assms(3) show ?thesis
      by (simp add: history_since_def Let_def since_truncated_def)
  next
    case False
    then have "since_start h since = since + 1" unfolding since_start_def Let_def by (rule if_not_P)
    with False s(1) assms(3) show ?thesis
      by (auto simp: history_since_def Let_def since_truncated_def)
  qed
  with s(2) show ?thesis by blast
qed

lemma since_accounted:
  assumes "since < hi_last h" "unat (hi_last h) < 2 ^ 63"
    and "view_of h ms (since_start h since) (hi_last h) msgs gaps"
  shows "accounted h (since + 1) (hi_last h) msgs (since_truncated h since @ gaps)"
proof -
  have "covered (since_truncated h since) q" if "since + 1 \<le> q" "\<not> since_start h since \<le> q" for q
  proof -
    have "since_start h since \<noteq> 0" using that(2) by auto
    then have "unat (since_start h since - 1) = unat (since_start h since) - 1" by (rule unat_minus_one)
    then have "q \<le> since_start h since - 1" using that(2) by (simp add: word_le_nat_alt)
    with that show ?thesis by (auto simp: since_truncated_def)
  qed
  with view_accounted [OF assms(3)] show ?thesis unfolding accounted_def covered_simps by blast
qed

text \<open>The window \<open>Range\<close> serves of a span, and what it leaves out.\<close>

definition range_end :: "history \<Rightarrow> u64 \<Rightarrow> u64 \<Rightarrow> u64" where
  "range_end h from to =
     (let lim = backfill_limit (hi_cfg h)
      in if 0 < lim \<and> lim < to - from + 1 then from + lim - 1 else to)"

definition range_truncated :: "history \<Rightarrow> u64 \<Rightarrow> u64 \<Rightarrow> gap list" where
  "range_truncated h from to =
     (if range_end h from to = to then [] else [\<lparr>g_from = range_end h from to + 1, g_to = to\<rparr>])"

lemma range_end_facts:
  assumes "from \<le> to" "unat to < 2 ^ 63"
  shows "range_end h from to \<le> to"
    "0 < backfill_limit (hi_cfg h) \<and> backfill_limit (hi_cfg h) < to - from + 1 \<longleftrightarrow>
      range_end h from to \<noteq> to"
    "0 < backfill_limit (hi_cfg h) \<Longrightarrow>
      Suc (unat (range_end h from to)) - unat from \<le> unat (backfill_limit (hi_cfg h))"
proof -
  let ?lim = "backfill_limit (hi_cfg h)"
  have top: "to \<noteq> - 1" using assms(2) by (rule small_top)
  have le: "unat from \<le> unat to" using assms(1) by (simp add: word_le_nat_alt)
  have d: "unat (to - from) = unat to - unat from" using assms(1) by (rule unat_sub)
  then have "to - from \<le> to" by (simp add: word_le_nat_alt)
  then have d1: "unat (to - from + 1) = Suc (unat to - unat from)"
    using unat_Suc_u64 [OF _ top] d by simp
  consider "0 < ?lim \<and> ?lim < to - from + 1" | "\<not> (0 < ?lim \<and> ?lim < to - from + 1)" by blast
  then have "range_end h from to \<le> to \<and>
    (0 < ?lim \<and> ?lim < to - from + 1 \<longleftrightarrow> range_end h from to \<noteq> to) \<and>
    (0 < ?lim \<longrightarrow> Suc (unat (range_end h from to)) - unat from \<le> unat ?lim)"
  proof cases
    case 1
    then have e: "range_end h from to = from + (?lim - 1)"
      by (simp add: range_end_def Let_def)
    have l: "0 < unat ?lim" "unat ?lim \<le> unat to - unat from"
      using 1 d1 by (auto simp: word_less_nat_alt)
    then have lm: "unat (?lim - 1) = unat ?lim - 1" by (intro unat_minus_one) auto
    then have "unat from + unat (?lim - 1) < 2 ^ 64" using lm l le assms(2) by simp
    then have "unat (from + (?lim - 1)) = unat from + unat (?lim - 1)"
      by (intro unat_add_lem [THEN iffD1]) simp
    then have "unat (range_end h from to) = unat from + (unat ?lim - 1)" using e lm by simp
    with l le 1 show ?thesis
      by (auto simp: word_le_nat_alt word_unat_eq_iff [of _ to])
  next
    case 2
    then have "range_end h from to = to" unfolding range_end_def Let_def by (rule if_not_P)
    with 2 le d1 show ?thesis by (auto simp: word_less_nat_alt)
  qed
  then show "range_end h from to \<le> to"
    "0 < ?lim \<and> ?lim < to - from + 1 \<longleftrightarrow> range_end h from to \<noteq> to"
    "0 < ?lim \<Longrightarrow> Suc (unat (range_end h from to)) - unat from \<le> unat ?lim" by blast+
qed

lemma history_range_spec:
  assumes inv: "history_inv cr d h ms" and small: "unat (hi_last h) < 2 ^ 63"
    and "from \<noteq> 0" "from \<le> to" "to \<le> hi_last h"
  shows "\<exists>msgs gaps. history_range cr no_faults d h from to =
      Some (msgs, gaps @ range_truncated h from to, None) \<and>
    view_of h ms from (range_end h from to) msgs gaps"
proof -
  have smallt: "unat to < 2 ^ 63" using assms(5) small by (simp add: word_le_nat_alt)
  note f = range_end_facts [OF assms(4) smallt, of h]
  have "unat (range_end h from to) < 2 ^ 63" using f(1) smallt by (simp add: word_le_nat_alt)
  then obtain msgs gaps where s: "serve cr no_faults d h from (range_end h from to) = Some (msgs, gaps, None)"
    "view_of h ms from (range_end h from to) msgs gaps"
    using serve_spec [OF inv assms(3)] by blast
  have le: "\<not> to > hi_last h" "\<not> from > to" using assms(4,5) by auto
  have "history_range cr no_faults d h from to = Some (msgs, gaps @ range_truncated h from to, None)"
  proof (cases "0 < backfill_limit (hi_cfg h) \<and> backfill_limit (hi_cfg h) < to - from + 1")
    case True
    then have e: "range_end h from to = from + backfill_limit (hi_cfg h) - 1"
      by (simp add: range_end_def Let_def)
    with True f(2) have "range_truncated h from to = [\<lparr>g_from = from + backfill_limit (hi_cfg h) - 1 + 1, g_to = to\<rparr>]"
      by (simp add: range_truncated_def)
    with True e s(1) assms(3) le show ?thesis
      unfolding history_range_def Let_def by (simp only: if_False if_True prod.case simp_thms) simp
  next
    case False
    then have "range_end h from to = to" unfolding range_end_def Let_def by (rule if_not_P)
    with s(1) assms(3) le show ?thesis
      unfolding history_range_def Let_def by (simp only: False if_False prod.case) (simp add: range_truncated_def)
  qed
  with s(2) show ?thesis by blast
qed

lemma range_accounted:
  assumes "from \<le> to" "unat to < 2 ^ 63" "view_of h ms from (range_end h from to) msgs gaps"
  shows "accounted h from to msgs (gaps @ range_truncated h from to)"
proof -
  have "covered (range_truncated h from to) q" if "q \<le> to" "\<not> q \<le> range_end h from to" for q
  proof -
    have "range_end h from to \<noteq> to" using that by auto
    moreover have "range_end h from to + 1 \<le> q"
      using that less_Suc_u64 [OF range_end_facts(1) [OF assms(1,2), of h] small_top [OF assms(2)], where x = q]
      by (simp add: not_le not_less [symmetric])
    ultimately show ?thesis using that by (simp add: range_truncated_def)
  qed
  with view_accounted [OF assms(3)] show ?thesis unfolding accounted_def covered_simps by blast
qed

section \<open>Appending and reopening\<close>

lemma archival_twice [simp]: "archival (archival m) = archival m"
  by (simp add: archival_def stripped_def Let_def)

lemma shush_target_archival [simp]: "shush_target (archival m) = shush_target m"
  by (simp add: shush_target_def)

lemma ring_append_subset:
  assumes "ring_inv r" "\<forall>x\<in>ring_messages r. m_seq x < m_seq m"
  shows "\<exists>r'. ring_append r m = Some r' \<and> ring_inv r' \<and> ring_messages r' \<subseteq> insert m (ring_messages r)"
proof (cases "h_kind (m_header m) = kind_image")
  case True
  from ring_append_image [OF assms True] show ?thesis
    by (fastforce simp: ring_messages_def dest: longest_fit_subset)
next
  case False
  from ring_append_text [OF assms False] show ?thesis
    by (fastforce simp: ring_messages_def dest: in_set_dropD)
qed

text \<open>What a message must be to enter the history of an archive under some keys.\<close>

definition storable :: "crypto \<Rightarrow> key_lookup \<Rightarrow> message \<Rightarrow> bool" where
  "storable cr keys m \<longleftrightarrow> readable (archival m) \<and> authentic cr keys (archival m)"

lemma history_append_spec:
  assumes inv: "history_inv cr d h ms" and "\<forall>x\<in>set ms. m_seq x < m_seq m"
    and "storable cr (a_keys (hi_archive h)) m"
  shows "\<exists>h'. history_append no_faults d h m =
      Some (None, disk_after_append (hi_archive h) d (archival m), h') \<and>
    history_inv cr (disk_after_append (hi_archive h) d (archival m)) h' (ms @ [m]) \<and>
    hi_last h' = max (hi_last h) (m_seq m) \<and> hi_archive h' = hi_archive h \<and> hi_cfg h' = hi_cfg h"
proof -
  note F = history_inv_facts [OF inv]
  let ?d = "disk_after_append (hi_archive h) d (archival m)"
  obtain r where r: "ring_append (hi_ring h) m = Some r" "ring_inv r"
    "ring_messages r \<subseteq> insert m (ring_messages (hi_ring h))"
    using ring_append_subset [OF F(2), of m] F(3) assms(2) by blast
  define h' where "h' = h\<lparr>hi_last := max (hi_last h) (m_seq m), hi_ring := r,
    hi_shushed := hi_shushed h \<union> {t. shush_target m = Some t}\<rparr>"
  have "log_holds cr (hi_archive h) ?d (map archival ms @ [archival m])"
    using assms(2,3) by (intro archive_log.holds_append [OF F(1)]) (auto simp: storable_def)
  moreover have "ring_messages r \<subseteq> set (ms @ [m])" using r(3) F(3) by auto
  ultimately have "history_inv cr ?d h' (ms @ [m])"
    using r(2) F(5,6) unfolding history_inv_def h'_def by (auto simp: le_max_iff_disj)
  moreover have "history_append no_faults d h m = Some (None, ?d, h')"
  proof -
    have "archive_append no_faults d (hi_archive h) (archival m) = (None, ?d)"
      by (simp add: disk_after_append_def archive_append_def)
    then show ?thesis
      using r(1)
      by (cases h)
        (auto simp: history_append_def h'_def Let_def shush_target_def max_def split: sum.splits)
  qed
  ultimately show ?thesis by (auto simp: h'_def)
qed

lemma seqs_le_fold_max: "\<forall>m\<in>set ms. m_seq m \<le> fold max (map m_seq ms) q"
proof -
  have "q \<le> fold max (map m_seq ms) q \<and> (\<forall>m\<in>set ms. m_seq m \<le> fold max (map m_seq ms) q)"
    by (induction ms arbitrary: q)
      (auto intro: order_trans [OF max.cobounded1] order_trans [OF max.cobounded2])
  then show ?thesis by blast
qed

lemma ring_messages_new [simp]: "ring_messages (new_ring t b) = {}"
  by (simp add: ring_messages_def new_ring_def dq.items_empty)

text \<open>Opening a history whose archive opens to a log.\<close>

lemma open_history_repaired:
  assumes "validate_room_name room = None" "a = \<lparr>a_path = room_path room, a_keys = keys\<rparr>"
    and "open_archive no_faults d' (room_path room) keys = (Inr a, d)" "log_holds cr a d (map archival ms)"
  shows "\<exists>h. open_history no_faults d' room cfg keys = (Inr h, d) \<and>
    history_inv cr d h (map archival ms) \<and> hi_last h = fold max (map m_seq ms) 0 \<and>
    hi_archive h = a \<and> hi_cfg h = cfg"
proof -
  have "archive_recover no_faults d a =
      (None, fold max (map m_seq (map archival ms)) 0, {t. \<exists>m\<in>set (map archival ms). shush_target m = Some t})"
    using archive_log.recover_holds [OF assms(4)] by (auto simp: recovered_def split: option.splits prod.splits)
  then show ?thesis
    using assms seqs_le_fold_max [of ms 0] ring_inv_new
    by (simp add: open_history_def history_inv_def comp_def)
qed

lemma open_history_spec:
  assumes "validate_room_name room = None" "a = \<lparr>a_path = room_path room, a_keys = keys\<rparr>"
    and "log_holds cr a d (map archival ms)"
  shows "\<exists>h. open_history no_faults d room cfg keys = (Inr h, d) \<and>
    history_inv cr d h (map archival ms) \<and> hi_last h = fold max (map m_seq ms) 0 \<and>
    hi_archive h = a \<and> hi_cfg h = cfg"
proof -
  have "open_archive no_faults d (room_path room) keys = (Inr a, d)"
    using assms(2,3) by (auto simp: log_holds_def readable_def intro!: open_archive_log)
  from open_history_repaired [OF assms(1,2) this assms(3)] show ?thesis .
qed

text \<open>Whatever the length of a record or the outcome of the write, the file grows by the record, or
  by the part of it that was written.\<close>

lemma history_append_writes:
  assumes "history_inv cr d h ms" "\<forall>x\<in>set ms. m_seq x < m_seq m" "fl_op fl = fl_op no_faults"
  shows "\<exists>h'. history_append fl d h m =
    Some (fst (archive_append fl d (hi_archive h) (archival m)),
          snd (archive_append fl d (hi_archive h) (archival m)), h')"
proof -
  note F = history_inv_facts [OF assms(1)]
  obtain r where "ring_append (hi_ring h) m = Some r"
    using ring_append_subset [OF F(2), of m] F(3) assms(2) by blast
  then show ?thesis
    by (auto simp: history_append_def Let_def split_beta split: sum.splits)
qed

section \<open>Room names\<close>

lemma decode_rune_high: "0x80 \<le> byte c \<Longrightarrow> 0x80 \<le> fst (decode_rune (c # s))"
proof (cases "bad_rune (c # s)")
  case True
  then show ?thesis by (simp add: bad_rune_def rune_error_def del: decode_rune.simps)
next
  case False
  assume high: "0x80 \<le> byte c"
  obtain r t where r: "rune_scalar r" "c # s = encode_scalar r @ t"
    using decode_rune_sound [OF False] by blast
  have "fst (decode_rune (c # s)) = r" unfolding r(2) decode_encode_scalar [OF r(1)] by simp
  moreover have "0x80 \<le> r"
  proof (rule ccontr)
    assume "\<not> 0x80 \<le> r"
    then have "c = char_of r" using r(2) by (simp add: encode_scalar_def)
    with \<open>\<not> 0x80 \<le> r\<close> high show False by simp
  qed
  ultimately show ?thesis by simp
qed

lemma room_runes_ascii: "list_all room_rune (runes s) \<Longrightarrow> \<forall>c\<in>set s. byte c < 0x80"
proof (induction s rule: runes.induct)
  case (2 c s)
  then have "\<not> 0x80 \<le> byte c"
    using decode_rune_high [of c s] by (auto simp: room_rune_def simp del: decode_rune.simps)
  then have "byte c < 0x80" by simp
  with 2 show ?case by (simp add: rune_width_def)
qed simp

lemma validate_room_name_None:
  "validate_room_name name = None \<longleftrightarrow>
    name \<noteq> [] \<and> length name \<le> 64 \<and> (\<forall>c\<in>set name. room_rune (byte c))"
proof -
  have "list_all room_rune (runes name) \<longleftrightarrow> (\<forall>c\<in>set name. room_rune (byte c))"
  proof
    assume r: "list_all room_rune (runes name)"
    then show "\<forall>c\<in>set name. room_rune (byte c)"
      using runes_ascii [OF room_runes_ascii [OF r]] by (simp add: list_all_iff)
  next
    assume r: "\<forall>c\<in>set name. room_rune (byte c)"
    then have "\<forall>c\<in>set name. byte c < 0x80" by (auto simp: room_rune_def)
    with r show "list_all room_rune (runes name)" by (simp add: runes_ascii list_all_iff)
  qed
  then show ?thesis by (simp add: validate_room_name_def max_room_name_len_def)
qed

lemma set_entry_names:
  "set (entry_names es) = {n. validate_room_name n = None \<and> (room_path n, False) \<in> set es}"
  by (induction es rule: entry_names.induct)
    (auto simp: room_path_def cut_suffix_Some split: option.splits)

section \<open>Instances for the witnesses\<close>

definition sample_config :: store_config where
  "sample_config = \<lparr>c_max_text = 100, c_max_image_bytes = 1000, c_max_backfill = 10\<rparr>"

abbreviation sample_text :: "u64 \<Rightarrow> string \<Rightarrow> message" where
  "sample_text q p \<equiv> sample_message q kind_text [] p"

definition sample_disk :: fs where
  "sample_disk = [room_path ''general'' \<mapsto> log_bytes [sample_text 7 ''hello'']]"

lemma sample_text_archival: "p \<noteq> [] \<Longrightarrow> archival (sample_text q p) = sample_text q p"
  using sample_facts(4) [of p kind_text "[]" q] by (simp add: archival_def)

lemma sample_room_valid: "validate_room_name ''general'' = None"
  by (simp add: validate_room_name_None room_rune_def)

definition sample_history :: history where
  "sample_history = projl (Inl (\<lparr>hi_ring = new_ring 100 1000, hi_archive = sample_archive,
     hi_shushed = {}, hi_last = 7, hi_cfg = sample_config\<rparr>) :: history + unit)"

lemma sample_history_inv: "history_inv sample_crypto sample_disk sample_history [sample_text 7 ''hello'']"
  using sample_log_holds sample_facts(3,4) [of "''hello''" kind_text "[]" 7]
  by (auto simp: history_inv_def sample_history_def sample_disk_def room_path_def jsonl_def
      sample_archive_def sample_text_archival ring_inv_new shush_target_def)

lemma sample_storable:
  "p \<noteq> [] \<Longrightarrow> length p \<le> 1000 \<Longrightarrow> utf8_valid p \<Longrightarrow> storable sample_crypto sample_keys (sample_text q p)"
  using sample_readable [of p q] sample_facts(6) [of p kind_text "[]" q]
  by (simp add: storable_def sample_text_archival)

lemma sample_shush_storable:
  "storable sample_crypto sample_keys (sample_message q kind_shush [] (marshal_shush t))"
proof -
  let ?m = "sample_message q kind_shush [] (marshal_shush t)"
  note f = sample_facts [of "marshal_shush t" kind_shush "[]" q, simplified]
  have "length (marshal_shush t) \<le> 1000"
    using length_print_object [of "[(''seq'', JNum (nat_str (unat t)))]"] length_nat_str_u64 [of t]
    by (simp add: marshal_shush_def del: json_print.simps) simp
  then have "readable ?m" using f by (simp add: readable_def max_line_def)
  moreover have "archival ?m = ?m" using f(4) by (simp add: archival_def)
  ultimately show ?thesis using f(6) by (simp add: storable_def)
qed

section \<open>Properties\<close>

text \<open>C22: appending keeps the two tiers in step. A storable message with a sequence above all
  earlier ones is appended without error: the archive then holds its archival form after the
  others, the ring holds messages of the room only, the shushed set follows its marker, and the
  counter is at least its sequence.\<close>

theorem append_keeps_history:
  assumes "history_inv cr d h ms" "\<forall>x\<in>set ms. m_seq x < m_seq m"
    and "storable cr (a_keys (hi_archive h)) m"
  shows "\<exists>d' h'. history_append no_faults d h m = Some (None, d', h') \<and>
    history_inv cr d' h' (ms @ [m]) \<and> hi_last h' = max (hi_last h) (m_seq m)"
  using history_append_spec [OF assms] by blast

theorem append_keeps_history_witness:
  "\<exists>d' h'. history_append no_faults sample_disk sample_history (sample_text 8 ''bye'') = Some (None, d', h') \<and>
    hi_last h' = 8"
proof -
  have "\<forall>x\<in>set [sample_text 7 ''hello'']. m_seq x < m_seq (sample_text 8 ''bye'')"
    by (simp add: sample_facts)
  moreover have "storable sample_crypto (a_keys (hi_archive sample_history)) (sample_text 8 ''bye'')"
    by (simp add: sample_history_def sample_archive_def sample_storable)
  ultimately obtain d' h' where "history_append no_faults sample_disk sample_history (sample_text 8 ''bye'')
      = Some (None, d', h')" "hi_last h' = max (hi_last sample_history) (m_seq (sample_text 8 ''bye''))"
    using append_keeps_history [OF sample_history_inv] by blast
  then show ?thesis by (simp add: sample_facts sample_history_def)
qed

text \<open>C21: the counter survives a restart. Opening the history of a room over the disk an earlier
  history left succeeds without touching the file, re-establishes the invariant for the archival
  forms of all messages, and the next sequence is above every sequence ever archived.\<close>

theorem restart_resumes_counter:
  assumes "history_inv cr d h ms" "validate_room_name room = None"
    and "hi_archive h = \<lparr>a_path = room_path room, a_keys = keys\<rparr>" "unat (hi_last h) < 2 ^ 63"
  shows "\<exists>h'. open_history no_faults d room cfg keys = (Inr h', d) \<and>
    history_inv cr d h' (map archival ms) \<and> hi_shushed h' = hi_shushed h \<and>
    hi_last h' \<le> hi_last h \<and> (\<forall>m\<in>set ms. m_seq m < fst (next_seq h'))"
proof -
  note F = history_inv_facts [OF assms(1)]
  obtain h' where h': "open_history no_faults d room cfg keys = (Inr h', d)"
    "history_inv cr d h' (map archival ms)" "hi_last h' = fold max (map m_seq ms) 0"
    using open_history_spec [OF assms(2) refl, of cr keys d ms cfg] F(1) assms(3) by auto
  have "fold max (map m_seq ms) q \<le> hi_last h" if "q \<le> hi_last h" for q
    using that F(5) by (induction ms arbitrary: q) auto
  then have le: "hi_last h' \<le> hi_last h" unfolding h'(3) by simp
  then have "unat (hi_last h') < 2 ^ 63" using assms(4) by (simp add: word_le_nat_alt)
  then have "m_seq m < hi_last h' + 1" if "m \<in> set ms" for m
    using less_Suc_u64 [OF order_refl small_top, of "hi_last h'" "m_seq m"]
      history_inv_facts(5) [OF h'(2)] that by simp
  with h'(1,2) le history_inv_facts(6) [OF h'(2)] F(6) show ?thesis
    by (auto simp: next_seq_def)
qed

theorem restart_resumes_counter_witness:
  "\<exists>h'. open_history no_faults sample_disk ''general'' sample_config sample_keys = (Inr h', sample_disk) \<and>
    7 < fst (next_seq h')"
proof -
  have "hi_archive sample_history = \<lparr>a_path = room_path ''general'', a_keys = sample_keys\<rparr>"
    "unat (hi_last sample_history) < 2 ^ 63"
    by (simp_all add: sample_history_def sample_archive_def room_path_def jsonl_def)
  from restart_resumes_counter [OF sample_history_inv sample_room_valid this, of sample_config]
  show ?thesis by (auto simp: sample_facts)
qed

text \<open>C23: catching up. For a client whose newest sequence is below the counter, \<open>Since\<close> returns
  the messages of the newest window in ascending order, the ring's copy where the ring still has it and
  the archival form otherwise, none of them shushed, and as gaps what was cut off in front of the
  window followed by the maximal runs of lost sequences in it. Every sequence the client misses is
  delivered, covered by a gap, or withheld as shushed, and there are no more messages than the
  limit.\<close>

theorem since_view:
  assumes "history_inv cr d h ms" "unat (hi_last h) < 2 ^ 63" "since < hi_last h"
  shows "\<exists>msgs gaps. history_since cr no_faults d h since = Some (msgs, since_truncated h since @ gaps, None) \<and>
    view_of h ms (since_start h since) (hi_last h) msgs gaps \<and>
    accounted h (since + 1) (hi_last h) msgs (since_truncated h since @ gaps) \<and>
    (0 < backfill_limit (hi_cfg h) \<longrightarrow> length msgs \<le> unat (backfill_limit (hi_cfg h)))"
proof -
  obtain msgs gaps where s: "history_since cr no_faults d h since = Some (msgs, since_truncated h since @ gaps, None)"
    "view_of h ms (since_start h since) (hi_last h) msgs gaps"
    using history_since_spec [OF assms] by blast
  moreover have "accounted h (since + 1) (hi_last h) msgs (since_truncated h since @ gaps)"
    by (rule since_accounted [OF assms(3,2) s(2)])
  moreover have "length msgs \<le> unat (backfill_limit (hi_cfg h))" if "0 < backfill_limit (hi_cfg h)"
    using s(2) since_start_facts(4) [OF assms(3,2) that] by (simp add: view_of_def)
  ultimately show ?thesis by blast
qed

theorem since_view_witness:
  "\<exists>msgs gaps. history_since sample_crypto no_faults sample_disk sample_history 6 = Some (msgs, gaps, None) \<and>
    map m_seq msgs = [7]"
proof -
  have start: "since_start sample_history 6 = 7"
    by (simp add: since_start_def sample_history_def sample_config_def backfill_limit_def)
  have "unat (hi_last sample_history) < 2 ^ 63" "6 < hi_last sample_history"
    by (simp_all add: sample_history_def)
  from since_view [OF sample_history_inv this] obtain msgs gaps where
    s: "history_since sample_crypto no_faults sample_disk sample_history 6 = Some (msgs, gaps, None)"
    "\<exists>gaps. view_of sample_history [sample_text 7 ''hello''] 7 7 msgs gaps"
    unfolding start by (auto simp: sample_history_def)
  have seq: "m_seq (sample_text 7 ''hello'') = 7" by (simp add: sample_facts)
  have "served_copy (hi_ring sample_history) (sample_text 7 ''hello'') = sample_text 7 ''hello''"
    by (simp add: served_copy_def sample_history_def sample_text_archival)
  moreover have "{m \<in> set [sample_text 7 ''hello'']. 7 \<le> m_seq m \<and> m_seq m \<le> 7 \<and>
      m_seq m \<notin> hi_shushed sample_history} = {sample_text 7 ''hello''}"
    using seq by (auto simp: sample_history_def)
  ultimately have "set msgs = {sample_text 7 ''hello''}" "length msgs \<le> 1"
    using s(2) unfolding view_of_def by simp_all
  then have "msgs = [sample_text 7 ''hello'']" by (cases msgs) auto
  with s(1) seq show ?thesis by simp
qed

text \<open>C24: walking back. A requested span within the room's sequences is served from its start:
  the oldest window of it as above, then, as a gap, what the limit left out.\<close>

theorem range_view:
  assumes "history_inv cr d h ms" "unat (hi_last h) < 2 ^ 63"
    and "from \<noteq> 0" "from \<le> to" "to \<le> hi_last h"
  shows "\<exists>msgs gaps. history_range cr no_faults d h from to = Some (msgs, gaps @ range_truncated h from to, None) \<and>
    view_of h ms from (range_end h from to) msgs gaps \<and>
    accounted h from to msgs (gaps @ range_truncated h from to) \<and>
    (0 < backfill_limit (hi_cfg h) \<longrightarrow> length msgs \<le> unat (backfill_limit (hi_cfg h)))"
proof -
  have small: "unat to < 2 ^ 63" using assms(2,5) by (simp add: word_le_nat_alt)
  obtain msgs gaps where s: "history_range cr no_faults d h from to = Some (msgs, gaps @ range_truncated h from to, None)"
    "view_of h ms from (range_end h from to) msgs gaps"
    using history_range_spec [OF assms] by blast
  moreover have "accounted h from to msgs (gaps @ range_truncated h from to)"
    by (rule range_accounted [OF assms(4) small s(2)])
  moreover have "length msgs \<le> unat (backfill_limit (hi_cfg h))" if "0 < backfill_limit (hi_cfg h)"
    using s(2) range_end_facts(3) [OF assms(4) small that] by (simp add: view_of_def)
  ultimately show ?thesis by blast
qed

theorem range_view_witness:
  "\<exists>msgs gaps. history_range sample_crypto no_faults sample_disk sample_history 1 7 = Some (msgs, gaps, None) \<and>
    covered gaps 3"
proof -
  have "range_end sample_history 1 7 = 7"
    by (simp add: range_end_def sample_history_def sample_config_def backfill_limit_def)
  moreover have "unat (hi_last sample_history) < 2 ^ 63" "1 \<noteq> (0 :: u64)" "1 \<le> (7 :: u64)"
    "7 \<le> hi_last sample_history"
    by (simp_all add: sample_history_def)
  ultimately obtain msgs gaps where
    s: "history_range sample_crypto no_faults sample_disk sample_history 1 7 = Some (msgs, gaps, None)"
    "\<exists>gaps. view_of sample_history [sample_text 7 ''hello''] 1 7 msgs gaps"
    "accounted sample_history 1 7 msgs gaps"
    using range_view [OF sample_history_inv, of 1 7] by (auto simp: sample_history_def)
  from s(2) have "\<forall>m\<in>set msgs. m_seq m = 7" by (auto simp: view_of_def sample_facts)
  moreover have "3 \<in> hi_shushed sample_history \<or> (\<exists>m\<in>set msgs. m_seq m = 3) \<or> covered gaps 3"
    using s(3) unfolding accounted_def by (elim allE [of _ 3]) simp
  ultimately have "covered gaps 3" by (auto simp: sample_history_def)
  with s(1) show ?thesis by blast
qed

lemma shushed_range_empty:
  assumes "history_inv cr d h ms" "unat (hi_last h) < 2 ^ 63" "m \<in> set ms" "shush_target m = Some t"
    and "t \<noteq> 0" "t \<le> hi_last h"
  shows "history_range cr no_faults d h t t = Some ([], [], None)"
proof -
  have sh: "t \<in> hi_shushed h" using history_inv_facts(6) [OF assms(1)] assms(3,4) by auto
  have e: "range_end h t t = t"
  proof -
    have "\<not> (0 < backfill_limit (hi_cfg h) \<and> backfill_limit (hi_cfg h) < t - t + 1)"
      by (auto simp: word_less_nat_alt)
    then show ?thesis unfolding range_end_def Let_def by (rule if_not_P)
  qed
  obtain msgs gaps where r: "history_range cr no_faults d h t t = Some (msgs, gaps @ range_truncated h t t, None)"
    "view_of h ms t (range_end h t t) msgs gaps"
    using history_range_spec [OF assms(1,2,5) order_refl assms(6)] by blast
  have "x \<notin> set msgs" for x
  proof
    assume "x \<in> set msgs"
    then obtain m where "t \<le> m_seq m" "m_seq m \<le> t" "m_seq m \<notin> hi_shushed h"
      using r(2) unfolding view_of_def e by auto
    then have "m_seq m = t" by simp
    with sh \<open>m_seq m \<notin> hi_shushed h\<close> show False by simp
  qed
  then have "msgs = []" by (cases msgs) auto
  moreover have "gaps = []"
  proof (rule ccontr)
    assume "gaps \<noteq> []"
    then have "covered gaps (g_from (hd gaps))" using r(2)
      by (auto simp: view_of_def gap_runs_def covered_def intro!: bexI [of _ "hd gaps"])
    then show False using r(2) sh by (auto simp: view_of_def gap_runs_def e lost_def)
  qed
  ultimately show "history_range cr no_faults d h t t = Some ([], [], None)"
    using r(1) by (simp add: range_truncated_def e)
qed

text \<open>C25: a shushed sequence leaves no trace. Once a marker in the room refers to a sequence,
  catching up never delivers that sequence again, and asking for it returns neither a message nor
  a gap. This holds of any sequence, that of a marker included.\<close>

theorem shushed_vanishes:
  assumes "history_inv cr d h ms" "unat (hi_last h) < 2 ^ 63" "m \<in> set ms" "shush_target m = Some t"
    and "t \<noteq> 0" "t \<le> hi_last h" "since < hi_last h"
  shows "history_range cr no_faults d h t t = Some ([], [], None) \<and>
    (\<exists>msgs gaps. history_since cr no_faults d h since = Some (msgs, gaps, None) \<and>
      (\<forall>x\<in>set msgs. m_seq x \<noteq> t))"
proof -
  have sh: "t \<in> hi_shushed h" using history_inv_facts(6) [OF assms(1)] assms(3,4) by auto
  obtain out gaps' where "history_since cr no_faults d h since = Some (out, since_truncated h since @ gaps', None)"
    "view_of h ms (since_start h since) (hi_last h) out gaps'"
    using history_since_spec [OF assms(1,2,7)] by blast
  moreover from this(2) sh have "\<forall>x\<in>set out. m_seq x \<noteq> t" by (auto simp: view_of_def)
  ultimately show ?thesis using shushed_range_empty [OF assms(1-6)] by blast
qed

theorem shushed_vanishes_witness:
  "\<exists>d h. 8 \<le> hi_last h \<and> history_range sample_crypto no_faults d h 7 7 = Some ([], [], None)"
proof -
  let ?m = "sample_message 8 kind_shush [] (marshal_shush 7)"
  have seqs: "\<forall>x\<in>set [sample_text 7 ''hello'']. m_seq x < m_seq ?m" by (simp add: sample_facts)
  obtain d' h' where a: "history_inv sample_crypto d' h' [sample_text 7 ''hello'', ?m]"
    "hi_last h' = max (hi_last sample_history) (m_seq ?m)"
    using history_append_spec [OF sample_history_inv seqs] sample_shush_storable [of 8 7]
    by (auto simp: sample_history_def sample_archive_def)
  have l: "hi_last h' = 8" using a(2) by (simp add: sample_history_def sample_facts)
  have "shush_target ?m = Some 7" by (simp add: shush_target_def sample_facts parse_marshal_shush)
  then have "history_range sample_crypto no_faults d' h' 7 7 = Some ([], [], None)"
    using shushed_vanishes [OF a(1), of ?m 7 0] l by simp
  with l show ?thesis by (intro exI [of _ d'] exI [of _ h']) simp
qed

lemma serve_loop_max: "serve_loop sh found to q st = Some st' \<Longrightarrow> to \<noteq> - 1"
proof (erule serve_loop.raw_induct [where P = "\<lambda>sh found to q st st'. to \<noteq> - 1", rotated])
  fix loop and sh :: "u64 set" and found to q st st'
  assume "\<And>sh found to q st st'. loop sh found to q st = Some st' \<Longrightarrow> to \<noteq> - 1"
    and "(if q \<le> to then loop sh found to (q + 1) (serve_step sh found q st) else Some st) = Some st'"
  then show "to \<noteq> - 1" by (cases "q \<le> to") auto
qed

text \<open>C26: when the serving loop ends. The loop over a span ends, in every state of the maps,
  exactly unless its upper bound is the largest \<open>uint64\<close>: then the counter wraps around and the
  loop never ends.\<close>

theorem serve_loop_terminates:
  "(\<exists>st'. serve_loop sh found to q st = Some st') \<longleftrightarrow> to \<noteq> - 1"
  using serve_loop_span serve_loop_max by blast

text \<open>A room name is safe as a file name. A name is accepted exactly if it has 1 to 64
  bytes, each of them a lower-case letter, a digit, a hyphen or an underscore: no separator, no dot,
  no byte outside ASCII.\<close>

theorem room_name_safe:
  "validate_room_name name = None \<longleftrightarrow>
    0 < length name \<and> length name \<le> 64 \<and>
    list_all (\<lambda>c. byte c \<in> {97..122} \<union> {48..57} \<union> {45, 95}) name"
  by (auto simp: validate_room_name_None room_rune_def list_all_iff)

text \<open>Listing rooms. \<open>RoomNames\<close> returns, sorted, exactly the valid room names whose archive
  file is in the directory: what opening a room creates is what the listing finds.\<close>

theorem room_names_found:
  "\<exists>names. room_names (Entries es) = Inr names \<and> sorted names \<and>
    set names = {n. validate_room_name n = None \<and> (room_path n, False) \<in> set es}"
  by (simp add: room_names_def set_entry_names)

end
