(* ===== verification/Protocol.thy ===== *)
theory Protocol
  imports History
begin

text \<open>
  \<^verbatim>\<open>internal/hub/protocol.go\<close>: the frames a client sends and the control frames the server sends
  beside signed messages. A client frame is one struct for every type, parsed by the JSON library;
  control frames are marshalled, which cannot fail for these structs.
\<close>

section \<open>Client frames\<close>

definition frame_join :: string where "frame_join = ''join''"

definition frame_send :: string where "frame_send = ''send''"

definition frame_shush :: string where "frame_shush = ''shush''"

definition frame_backfill :: string where "frame_backfill = ''backfill''"

definition frame_rooms :: string where "frame_rooms = ''rooms''"

record client_frame =
  f_t :: string
  f_room :: string
  f_nick :: string
  f_since :: u64
  f_from :: u64
  f_to :: u64
  f_kind :: string
  f_p :: string
  f_mime :: string
  f_w :: int
  f_h :: int
  f_seq :: u64

definition zero_frame :: client_frame where
  "zero_frame = \<lparr>f_t = [], f_room = [], f_nick = [], f_since = 0, f_from = 0, f_to = 0, f_kind = [],
     f_p = [], f_mime = [], f_w = 0, f_h = 0, f_seq = 0\<rparr>"

definition set_frame :: "string \<Rightarrow> json \<Rightarrow> client_frame \<Rightarrow> client_frame option" where
  "set_frame k v f =
     (if k = ''t'' then set_string (\<lambda>x. f\<lparr>f_t := x\<rparr>) v f
      else if k = ''room'' then set_string (\<lambda>x. f\<lparr>f_room := x\<rparr>) v f
      else if k = ''nick'' then set_string (\<lambda>x. f\<lparr>f_nick := x\<rparr>) v f
      else if k = ''since'' then set_uint (\<lambda>x. f\<lparr>f_since := x\<rparr>) v f
      else if k = ''from'' then set_uint (\<lambda>x. f\<lparr>f_from := x\<rparr>) v f
      else if k = ''to'' then set_uint (\<lambda>x. f\<lparr>f_to := x\<rparr>) v f
      else if k = ''kind'' then set_string (\<lambda>x. f\<lparr>f_kind := x\<rparr>) v f
      else if k = ''p'' then set_string (\<lambda>x. f\<lparr>f_p := x\<rparr>) v f
      else if k = ''mime'' then set_string (\<lambda>x. f\<lparr>f_mime := x\<rparr>) v f
      else if k = ''w'' then set_int (\<lambda>x. f\<lparr>f_w := x\<rparr>) v f
      else if k = ''h'' then set_int (\<lambda>x. f\<lparr>f_h := x\<rparr>) v f
      else if k = ''seq'' then set_uint (\<lambda>x. f\<lparr>f_seq := x\<rparr>) v f
      else Some f)"

definition unmarshal_frame :: "string \<Rightarrow> client_frame option" where
  "unmarshal_frame raw = unmarshal_struct set_frame zero_frame raw"

text \<open>Strings a frame carries come out of the JSON decoder, so they are valid UTF-8.\<close>

definition frame_ok :: "client_frame \<Rightarrow> bool" where
  "frame_ok f \<longleftrightarrow> utf8_valid (f_t f) \<and> utf8_valid (f_room f) \<and> utf8_valid (f_nick f) \<and>
     utf8_valid (f_kind f) \<and> utf8_valid (f_p f) \<and> utf8_valid (f_mime f) \<and>
     int64_range (f_w f) \<and> int64_range (f_h f)"

section \<open>Control frames\<close>

definition frame_joined :: string where "frame_joined = ''joined''"

definition frame_activity :: string where "frame_activity = ''activity''"

definition frame_gap :: string where "frame_gap = ''gap''"

definition frame_error :: string where "frame_error = ''error''"

definition encode_frame :: "(string \<times> json) list \<Rightarrow> string" where
  "encode_frame members = json_print (JObj members)"

definition joined_members :: "string \<Rightarrow> string \<Rightarrow> u64 \<Rightarrow> (string \<times> json) list" where
  "joined_members t room q =
     [(''t'', JStr t), (''room'', JStr room), (''seq'', JNum (nat_str (unat q)))]"

definition joined_bytes :: "string \<Rightarrow> u64 \<Rightarrow> string" where
  "joined_bytes room q = encode_frame (joined_members frame_joined room q)"

definition activity_bytes :: "string \<Rightarrow> u64 \<Rightarrow> string" where
  "activity_bytes room q = encode_frame (joined_members frame_activity room q)"

definition gap_members :: "string \<Rightarrow> gap \<Rightarrow> (string \<times> json) list" where
  "gap_members room g =
     [(''t'', JStr frame_gap), (''room'', JStr room), (''from'', JNum (nat_str (unat (g_from g)))),
      (''to'', JNum (nat_str (unat (g_to g))))]"

definition gap_bytes :: "string \<Rightarrow> gap \<Rightarrow> string" where
  "gap_bytes room g = encode_frame (gap_members room g)"

definition rooms_members :: "string list \<Rightarrow> (string \<times> json) list" where
  "rooms_members names = [(''t'', JStr frame_rooms), (''rooms'', JArr (map JStr names))]"

definition rooms_bytes :: "string list \<Rightarrow> string" where
  "rooms_bytes names = encode_frame (rooms_members names)"

definition error_members :: "string \<Rightarrow> (string \<times> json) list" where
  "error_members msg = [(''t'', JStr frame_error), (''msg'', JStr msg)]"

definition error_bytes :: "string \<Rightarrow> string" where
  "error_bytes msg = encode_frame (error_members msg)"

section \<open>What a parsed client frame is\<close>

lemma parse_int_range: "parse_int n = Some i \<Longrightarrow> int64_range i"
  by (auto simp: parse_int_def Let_def split: if_splits)

lemma set_frame_ok:
  assumes "set_frame k v f = Some g" "frame_ok f" "json_utf8 v"
  shows "frame_ok g"
  using assms by (cases v) (auto simp: set_frame_def frame_ok_def parse_int_range split: if_splits)

lemma unmarshal_frame_ok: "unmarshal_frame raw = Some f \<Longrightarrow> frame_ok f"
  unfolding unmarshal_frame_def
  by (erule unmarshal_struct_inv) (simp add: frame_ok_def zero_frame_def int64_range_def, rule set_frame_ok)

section \<open>Telling control frames from messages\<close>

text \<open>The member names a peer sees after parsing.\<close>

definition object_keys :: "string \<Rightarrow> string list" where
  "object_keys s = (case json_unmarshal s of Some (JObj ms) \<Rightarrow> map fst ms | _ \<Rightarrow> [])"

definition is_control :: "string \<Rightarrow> bool" where
  "is_control s \<longleftrightarrow> ''t'' \<in> set (object_keys s) \<and> ''h'' \<notin> set (object_keys s)"

definition is_envelope :: "string \<Rightarrow> bool" where
  "is_envelope s \<longleftrightarrow> ''h'' \<in> set (object_keys s) \<and> ''t'' \<notin> set (object_keys s)"

lemma object_keys_print:
  assumes "json_ints (JObj ms)" "json_depth (JObj ms) \<le> max_depth"
  shows "object_keys (json_print (JObj ms)) = map (to_valid \<circ> fst) ms"
  using parse_print [OF assms] by (simp add: object_keys_def split_def)

lemma to_valid_ascii: "\<forall>c\<in>set s. byte c < 0x80 \<Longrightarrow> to_valid s = s"
  by (rule to_valid_id) (rule ascii_valid)

section \<open>Properties\<close>

text \<open>C28: control frames and messages cannot be confused. Every control frame the server encodes
  parses to an object with a member \<open>t\<close> and none named \<open>h\<close>, every message envelope to one with \<open>h\<close>
  and no \<open>t\<close>, whatever strings they carry.\<close>

theorem control_frames_told_apart:
  "is_control (joined_bytes room q) \<and> is_control (activity_bytes room q) \<and> is_control (gap_bytes room g) \<and>
   is_control (rooms_bytes names) \<and> is_control (error_bytes msg) \<and> is_envelope (encode_wire m)"
proof -
  have flat: "object_keys (json_print (JObj ms)) = map (to_valid \<circ> fst) ms"
    if "list_all (\<lambda>(k, v). (\<exists>s. v = JStr s) \<or> (\<exists>n. v = JNum n \<and> int_literal n)) ms" for ms
  proof (rule object_keys_print)
    show "json_ints (JObj ms)" using that by (fastforce simp: list_all_iff)
    have "fold max (map (\<lambda>(k, v). json_depth v) ms) 0 = 0"
      using that by (intro fold_max_zero) (fastforce simp: list_all_iff)
    then show "json_depth (JObj ms) \<le> max_depth" by (simp add: max_depth_def)
  qed
  have rooms: "object_keys (rooms_bytes names) = map (to_valid \<circ> fst)
      [(''t'', JStr frame_rooms), (''rooms'', JArr (map JStr names))]"
    unfolding rooms_bytes_def encode_frame_def rooms_members_def
    by (intro object_keys_print) (simp_all add: list_all_iff max_depth_def fold_max_zero)
  have keys: "to_valid ''t'' = ''t''" "to_valid ''room'' = ''room''" "to_valid ''seq'' = ''seq''"
    "to_valid ''from'' = ''from''" "to_valid ''to'' = ''to''" "to_valid ''rooms'' = ''rooms''"
    "to_valid ''msg'' = ''msg''" "to_valid ''h'' = ''h''" "to_valid ''sig'' = ''sig''" "to_valid ''p'' = ''p''"
    by (rule to_valid_ascii; simp)+
  show ?thesis
    unfolding is_control_def is_envelope_def rooms
    by (simp add: joined_bytes_def activity_bytes_def gap_bytes_def error_bytes_def encode_wire_def encode_frame_def
        joined_members_def gap_members_def error_members_def wire_members_def flat keys del: json_print.simps)
qed

text \<open>The member of a frame by its name in the protocol, as its JSON value.\<close>

definition frame_names :: "string list" where
  "frame_names = [''t'', ''room'', ''nick'', ''since'', ''from'', ''to'', ''kind'', ''p'', ''mime'', ''w'', ''h'', ''seq'']"

definition frame_member :: "client_frame \<Rightarrow> string \<Rightarrow> json" where
  "frame_member f k =
     (let str = (\<lambda>s. JStr s); uint = (\<lambda>q. JNum (nat_str (unat (q :: u64)))); int = (\<lambda>i. JNum (int_str i))
      in if k = ''t'' then str (f_t f) else if k = ''room'' then str (f_room f)
         else if k = ''nick'' then str (f_nick f) else if k = ''since'' then uint (f_since f)
         else if k = ''from'' then uint (f_from f) else if k = ''to'' then uint (f_to f)
         else if k = ''kind'' then str (f_kind f) else if k = ''p'' then str (f_p f)
         else if k = ''mime'' then str (f_mime f) else if k = ''w'' then int (f_w f)
         else if k = ''h'' then int (f_h f) else uint (f_seq f))"

lemma frame_names_lower: "k \<in> set frame_names \<Longrightarrow> fold_name k = k \<and> utf8_valid k"
  by (auto simp: frame_names_def intro!: fold_name_lower ascii_valid)

lemma frame_member_flat: "frame_ok f \<Longrightarrow> k \<in> set frame_names \<Longrightarrow> flat_ok (k, frame_member f k)"
  using frame_names_lower [of k]
  by (auto simp: frame_names_def frame_member_def frame_ok_def Let_def)

lemma set_frame_member:
  assumes "k \<in> set frame_names" "int64_range (f_w f)" "int64_range (f_h f)"
  shows "\<exists>g'. set_frame k (frame_member f k) g = Some g' \<and> (\<forall>j\<in>set frame_names.
    frame_member g' j = (if j = k then frame_member f k else frame_member g j))"
  using assms by (auto simp: frame_names_def set_frame_def frame_member_def Let_def)

lemma assign_frame:
  assumes "set ks \<subseteq> set frame_names" "int64_range (f_w f)" "int64_range (f_h f)"
  shows "\<exists>g'. assign_members set_frame (map (\<lambda>k. (k, frame_member f k)) ks) g = Some g' \<and> (\<forall>j\<in>set frame_names.
    frame_member g' j = (if j \<in> set ks then frame_member f j else frame_member g j))"
  using assms(1)
proof (induction ks arbitrary: g)
  case (Cons k ks)
  then have k: "k \<in> set frame_names" "set ks \<subseteq> set frame_names" by simp_all
  obtain g1 where g1: "set_frame k (frame_member f k) g = Some g1"
    "\<forall>j\<in>set frame_names. frame_member g1 j = (if j = k then frame_member f k else frame_member g j)"
    using set_frame_member [OF k(1) assms(2,3)] by blast
  obtain g2 where g2: "assign_members set_frame (map (\<lambda>k. (k, frame_member f k)) ks) g1 = Some g2"
    "\<forall>j\<in>set frame_names. frame_member g2 j = (if j \<in> set ks then frame_member f j else frame_member g1 j)"
    using Cons.IH [OF k(2)] by blast
  have "assign_members set_frame (map (\<lambda>k. (k, frame_member f k)) (k # ks)) g = Some g2"
    using g1(1) g2(1) frame_names_lower [OF k(1)] by simp
  moreover have "frame_member g2 j = (if j \<in> set (k # ks) then frame_member f j else frame_member g j)"
    if "j \<in> set frame_names" for j
    using g1(2) [rule_format, OF that] g2(2) [rule_format, OF that] by auto
  ultimately show ?case by blast
qed simp

text \<open>C29: a client's frame is read as it was meant. Let a client print, in any order and leaving out
  what it likes, the members of a frame under the names of the protocol, with strings in valid UTF-8 and
  dimensions within \<open>int64\<close>: the server reads a frame with exactly these values in these fields, and
  the zero value in all the others.\<close>

theorem client_frame_decodes:
  assumes "frame_ok f" "set ks \<subseteq> set frame_names"
  shows "\<exists>g. unmarshal_frame (json_print (JObj (map (\<lambda>k. (k, frame_member f k)) ks))) = Some g \<and>
    (\<forall>k\<in>set frame_names. frame_member g k = (if k \<in> set ks then frame_member f k else frame_member zero_frame k))"
proof -
  have "list_all flat_ok (map (\<lambda>k. (k, frame_member f k)) ks)"
    using assms frame_member_flat by (auto simp: list_all_iff)
  note read = unmarshal_struct_flat [OF this]
  have "int64_range (f_w f)" "int64_range (f_h f)" using assms(1) by (simp_all add: frame_ok_def)
  then show ?thesis unfolding unmarshal_frame_def read by (rule assign_frame [OF assms(2)])
qed

theorem client_frame_decodes_witness:
  "\<exists>g. unmarshal_frame (json_print (JObj [(''seq'', JNum ''7''), (''t'', JStr ''shush'')])) = Some g \<and>
    frame_member g ''t'' = JStr ''shush'' \<and> frame_member g ''seq'' = JNum ''7'' \<and> frame_member g ''nick'' = JStr []"
proof -
  let ?f = "zero_frame\<lparr>f_t := ''shush'', f_seq := 7\<rparr>"
  have seven: "nat_str 7 = ''7''" by code_simp
  have "frame_ok ?f" by (simp add: frame_ok_def zero_frame_def int64_range_def)
  moreover have "set [''seq'', ''t''] \<subseteq> set frame_names" by (simp add: frame_names_def)
  moreover have "frame_member ?f ''seq'' = JNum ''7''" "frame_member ?f ''t'' = JStr ''shush''"
    "frame_member zero_frame ''nick'' = JStr []"
    using seven by (simp_all add: frame_member_def zero_frame_def)
  ultimately show ?thesis using client_frame_decodes [of ?f "[''seq'', ''t'']"] by (auto simp: frame_names_def)
qed

end
