(* ===== verification/Room.thy ===== *)
theory Room
  imports Client Protocol
begin

text \<open>
  \<^verbatim>\<open>internal/hub/room.go\<close>: a room's goroutine. Clients are numbers; what a handler sends, kills and
  tells the registry is returned as a list of actions in program order (the order among the clients
  of a fan-out, a Go map iteration, is that of the list). A handler that would panic or hang has no
  result. The clock, the failing system calls and the wording of wrapped errors are arguments.
\<close>

section \<open>Configuration and state\<close>

record hub_config =
  hc_store :: store_config
  hc_image_max :: int
  hc_max_text :: int
  hc_outbound :: int
  hc_idle :: int
  hc_sweep :: int

record server =
  sv_crypto :: crypto
  sv_signer :: signer
  sv_keys :: key_lookup
  sv_cfg :: hub_config
  sv_env_text :: "env_error \<Rightarrow> string"
  sv_store_text :: "store_error \<Rightarrow> string"

record room =
  rm_name :: string
  rm_clients :: "nat list"
  rm_hist :: history

datatype action = Send nat string | KillClient nat int string | Activity string u64 | Evict string
  | JoinReply nat "string option"

text \<open>A fatal error if any, the disk, the room, the actions.\<close>

type_synonym room_result = "(store_error option \<times> fs \<times> room \<times> action list) option"

section \<open>Nicknames\<close>

definition max_nick_len :: nat where
  "max_nick_len = 32"

definition clean_nick :: "string \<Rightarrow> string + string" where
  "clean_nick nick0 =
     (let nick = trim_space nick0
      in if nick = [] then Inl ''nickname required''
         else if length nick > max_nick_len then Inl (''nickname over '' @ nat_str max_nick_len @ '' bytes'')
         else if \<not> utf8_valid nick then Inl ''nickname is not valid UTF-8''
         else if list_ex (\<lambda>r. r < 0x20 \<or> r = 0x7F) (runes nick)
              then Inl ''nickname contains control characters''
         else Inr nick)"

section \<open>Handlers\<close>

definition refuse :: "fs \<Rightarrow> room \<Rightarrow> nat \<Rightarrow> string \<Rightarrow> room_result" where
  "refuse d r c msg = Some (None, d, r, [Send c (error_bytes msg)])"

definition broadcast ::
  "server \<Rightarrow> faults \<Rightarrow> int \<Rightarrow> fs \<Rightarrow> room \<Rightarrow> nat \<Rightarrow> header \<Rightarrow> string \<Rightarrow> room_result" where
  "broadcast sv fl now d r c header payload =
     (let (q, h1) = next_seq (rm_hist r);
          header = header\<lparr>h_seq := q, h_ts := now\<rparr>
      in case seal (sv_crypto sv) (sv_signer sv) header payload of
           Inl e \<Rightarrow> refuse d (r\<lparr>rm_hist := h1\<rparr>) c (sv_env_text sv e)
         | Inr m \<Rightarrow>
             (case history_append fl d h1 m of
                None \<Rightarrow> None
              | Some (Some e, d', h2) \<Rightarrow> Some (Some e, d', r\<lparr>rm_hist := h2\<rparr>, [])
              | Some (None, d', h2) \<Rightarrow>
                  Some (None, d', r\<lparr>rm_hist := h2\<rparr>,
                    map (\<lambda>cl. Send cl (m_wire m)) (rm_clients r) @
                    [Activity (rm_name r) (m_seq m)])))"

definition publish ::
  "server \<Rightarrow> faults \<Rightarrow> int \<Rightarrow> fs \<Rightarrow> room \<Rightarrow> nat \<Rightarrow> client_frame \<Rightarrow> room_result" where
  "publish sv fl now d r c f =
     (case clean_nick (f_nick f) of
        Inl e \<Rightarrow> refuse d r c e
      | Inr nick \<Rightarrow>
          let kind = f_kind f;
              header = zero_header\<lparr>h_room := rm_name r, h_nick := nick, h_kind := kind\<rparr>
          in if kind = kind_text then
               (if length (f_p f) = 0 then refuse d r c ''empty message''
                else if int (length (f_p f)) > hc_max_text (sv_cfg sv) then
                  refuse d r c (''message over '' @ int_str (hc_max_text (sv_cfg sv)) @ '' bytes'')
                else if \<not> utf8_valid (f_p f) then refuse d r c ''message is not valid UTF-8''
                else broadcast sv fl now d r c header (f_p f))
             else if kind = kind_image then
               (if length (f_p f) = 0 then refuse d r c ''empty image''
                else if int (length (f_p f)) > hc_image_max (sv_cfg sv) then
                  refuse d r c (''image over '' @ int_str (hc_image_max (sv_cfg sv)) @ '' bytes'')
                else if f_mime f = [] then refuse d r c ''image without mime type''
                else broadcast sv fl now d r c
                       (header\<lparr>h_mime := f_mime f, h_w := f_w f, h_h := f_h f\<rparr>) (f_p f))
             else refuse d r c (''cannot send kind '' @ f_kind f))"

definition shush ::
  "server \<Rightarrow> faults \<Rightarrow> int \<Rightarrow> fs \<Rightarrow> room \<Rightarrow> nat \<Rightarrow> client_frame \<Rightarrow> room_result" where
  "shush sv fl now d r c f =
     (case clean_nick (f_nick f) of
        Inl e \<Rightarrow> refuse d r c e
      | Inr nick \<Rightarrow>
          if f_seq f = 0 \<or> f_seq f > last_seq (rm_hist r)
          then refuse d r c ''shush references an unknown sequence''
          else if is_shushed (rm_hist r) (f_seq f) then Some (None, d, r, [])
          else broadcast sv fl now d r c
                 (zero_header\<lparr>h_room := rm_name r, h_nick := nick, h_kind := kind_shush\<rparr>)
                 (marshal_shush (f_seq f)))"

definition deliver :: "room \<Rightarrow> nat \<Rightarrow> message list \<Rightarrow> gap list \<Rightarrow> action list" where
  "deliver r c msgs gaps =
     map (\<lambda>g. Send c (gap_bytes (rm_name r) g)) gaps @ map (\<lambda>m. Send c (m_wire m)) msgs"

definition backfill ::
  "server \<Rightarrow> faults \<Rightarrow> fs \<Rightarrow> room \<Rightarrow> nat \<Rightarrow> client_frame \<Rightarrow> room_result" where
  "backfill sv fl d r c f =
     (if f_from f = 0 \<or> f_to f < f_from f then refuse d r c ''backfill needs from <= to''
      else case history_range (sv_crypto sv) fl d (rm_hist r) (f_from f) (f_to f) of
        None \<Rightarrow> None
      | Some (msgs, gaps, Some e) \<Rightarrow> refuse d r c ''history unavailable''
      | Some (msgs, gaps, None) \<Rightarrow> Some (None, d, r, deliver r c msgs gaps))"

definition handle ::
  "server \<Rightarrow> faults \<Rightarrow> int \<Rightarrow> fs \<Rightarrow> room \<Rightarrow> nat \<Rightarrow> client_frame \<Rightarrow> room_result" where
  "handle sv fl now d r c f =
     (if f_t f = frame_send then publish sv fl now d r c f
      else if f_t f = frame_shush then shush sv fl now d r c f
      else if f_t f = frame_backfill then backfill sv fl d r c f
      else refuse d r c (''unknown frame type '' @ f_t f))"

definition join :: "server \<Rightarrow> faults \<Rightarrow> fs \<Rightarrow> room \<Rightarrow> nat \<Rightarrow> u64 \<Rightarrow> (room \<times> action list) option" where
  "join sv fl d r c since =
     (let r = r\<lparr>rm_clients := List.insert c (rm_clients r)\<rparr>;
          hello = Send c (joined_bytes (rm_name r) (last_seq (rm_hist r)))
      in case history_since (sv_crypto sv) fl d (rm_hist r) since of
           None \<Rightarrow> None
         | Some (msgs, gaps, Some e) \<Rightarrow> Some (r, [hello, Send c (error_bytes ''history unavailable'')])
         | Some (msgs, gaps, None) \<Rightarrow> Some (r, hello # deliver r c msgs gaps))"

section \<open>The goroutine\<close>

datatype room_event = Shutdown | Register nat u64 | Unregister nat | Request nat client_frame

definition open_room ::
  "server \<Rightarrow> faults \<Rightarrow> fs \<Rightarrow> string \<Rightarrow> (store_error + room) \<times> fs" where
  "open_room sv fl d name =
     (case open_history fl d name (hc_store (sv_cfg sv)) (sv_keys sv) of
        (Inl e, d') \<Rightarrow> (Inl e, d')
      | (Inr h, d') \<Rightarrow> (Inr \<lparr>rm_name = name, rm_clients = [], rm_hist = h\<rparr>, d'))"

text \<open>\<open>failOpen\<close> drains what is waiting on the room's channels.\<close>

fun drain :: "server \<Rightarrow> string \<Rightarrow> store_error \<Rightarrow> room_event list \<Rightarrow> action list" where
  "drain sv name e [] = []"
| "drain sv name e (Register c since # evs) =
     JoinReply c (Some (''hub: room '' @ name @ '' unavailable: '' @ sv_store_text sv e)) #
     drain sv name e evs"
| "drain sv name e (Request c f # evs) = Send c (error_bytes ''room unavailable'') # drain sv name e evs"
| "drain sv name e (Unregister c # evs) = drain sv name e evs"
| "drain sv name e (Shutdown # evs) = drain sv name e evs"

definition fail_open :: "server \<Rightarrow> string \<Rightarrow> store_error \<Rightarrow> room_event list \<Rightarrow> action list" where
  "fail_open sv name e pending = Evict name # drain sv name e pending"

definition fail_fatal :: "room \<Rightarrow> action list" where
  "fail_fatal r =
     Evict (rm_name r) #
     map (\<lambda>c. KillClient c close_server_error ''room archive unavailable'') (rm_clients r)"

text \<open>One turn of the loop: the room is gone (\<open>None\<close>) after a shutdown or a fatal error.\<close>

definition room_turn ::
  "server \<Rightarrow> faults \<Rightarrow> int \<Rightarrow> fs \<Rightarrow> room \<Rightarrow> room_event \<Rightarrow> (room option \<times> fs \<times> action list) option" where
  "room_turn sv fl now d r ev =
     (case ev of
        Shutdown \<Rightarrow> Some (None, d, [])
      | Register c since \<Rightarrow>
          (case join sv fl d r c since of
             None \<Rightarrow> None | Some (r', acts) \<Rightarrow> Some (Some r', d, acts @ [JoinReply c None]))
      | Unregister c \<Rightarrow> Some (Some (r\<lparr>rm_clients := remove1 c (rm_clients r)\<rparr>), d, [])
      | Request c f \<Rightarrow>
          (case handle sv fl now d r c f of
             None \<Rightarrow> None
           | Some (None, d', r', acts) \<Rightarrow> Some (Some r', d', acts)
           | Some (Some e, d', r', acts) \<Rightarrow> Some (None, d', acts @ fail_fatal r')))"

section \<open>The room's invariant\<close>

text \<open>What the deployment must give: working signatures of the usual sizes, and a key lookup that
  knows the server's own key.\<close>

definition server_ok :: "server \<Rightarrow> bool" where
  "server_ok sv \<longleftrightarrow> crypto_ok (sv_crypto sv) \<and>
     sv_keys sv (s_keyid (sv_signer sv)) = Some (signer_public (sv_crypto sv) (sv_signer sv)) \<and>
     utf8_valid (s_keyid (sv_signer sv)) \<and> length (s_keyid (sv_signer sv)) \<le> 64 \<and>
     (\<forall>x. length (sha256 (sv_crypto sv) x) = 32) \<and>
     (\<forall>k x. length (ed_sign (sv_crypto sv) k x) = 64)"

text \<open>The counter is the sequence of the last message: no sequence has been burned.\<close>

definition room_inv :: "server \<Rightarrow> fs \<Rightarrow> room \<Rightarrow> message list \<Rightarrow> bool" where
  "room_inv sv d r ms \<longleftrightarrow> history_inv (sv_crypto sv) d (rm_hist r) ms \<and>
     hi_last (rm_hist r) = fold max (map m_seq ms) 0 \<and>
     hi_archive (rm_hist r) = \<lparr>a_path = room_path (rm_name r), a_keys = sv_keys sv\<rparr> \<and>
     validate_room_name (rm_name r) = None \<and> distinct (rm_clients r) \<and>
     (\<forall>m\<in>set ms. h_room (m_header m) = rm_name r)"

lemma room_inv_facts:
  assumes "room_inv sv d r ms"
  shows "history_inv (sv_crypto sv) d (rm_hist r) ms" "hi_last (rm_hist r) = fold max (map m_seq ms) 0"
    "hi_archive (rm_hist r) = \<lparr>a_path = room_path (rm_name r), a_keys = sv_keys sv\<rparr>"
    "validate_room_name (rm_name r) = None" "distinct (rm_clients r)"
    "\<forall>m\<in>set ms. h_room (m_header m) = rm_name r"
  using assms by (simp_all add: room_inv_def)

lemma server_ok_facts:
  assumes "server_ok sv"
  shows "crypto_ok (sv_crypto sv)"
    "sv_keys sv (s_keyid (sv_signer sv)) = Some (signer_public (sv_crypto sv) (sv_signer sv))"
    "utf8_valid (s_keyid (sv_signer sv))" "length (s_keyid (sv_signer sv)) \<le> 64"
    "length (sha256 (sv_crypto sv) x) = 32" "length (ed_sign (sv_crypto sv) k x) = 64"
  using assms by (simp_all add: server_ok_def)

lemma clean_nick_Inr:
  assumes "clean_nick s = Inr nick"
  shows "nick = trim_space s" "nick \<noteq> []" "length nick \<le> 32" "utf8_valid nick"
    "\<forall>r\<in>set (runes nick). 0x20 \<le> r \<and> r \<noteq> 0x7F"
  using assms by (auto simp: clean_nick_def Let_def max_nick_len_def list_ex_iff not_less split: if_splits)

lemma room_name_facts:
  assumes "validate_room_name name = None"
  shows "name \<noteq> []" "length name \<le> 64" "utf8_valid name"
  using assms by (auto simp: validate_room_name_None room_rune_def intro!: ascii_valid)

text \<open>A bound that keeps the archived record below the scanner's limit.\<close>

definition record_fits :: "header \<Rightarrow> string \<Rightarrow> bool" where
  "record_fits header payload \<longleftrightarrow>
     36 * length (h_mime header) + (if h_kind header = kind_image then 0 else 6 * length payload) \<le> 1000000"

definition header_fields_ok :: "room \<Rightarrow> header \<Rightarrow> bool" where
  "header_fields_ok r header \<longleftrightarrow> h_room header = rm_name r \<and> h_nick header \<noteq> [] \<and>
     length (h_nick header) \<le> 32 \<and> kind_valid (h_kind header) \<and>
     \<not> (h_kind header = kind_image \<and> h_mime header = []) \<and> header_ok header"

lemma sealed_storable:
  assumes "server_ok sv" "header_fields_ok r header" "validate_room_name (rm_name r) = None"
    and "payload \<noteq> []" "utf8_valid payload" "record_fits header payload"
  shows "\<exists>m. seal (sv_crypto sv) (sv_signer sv) header payload = Inr m \<and>
    storable (sv_crypto sv) (sv_keys sv) m \<and> m_payload m = payload \<and>
    m_header m = sealed_header (sv_crypto sv) (sv_signer sv) header payload"
proof -
  note S = server_ok_facts [OF assms(1)]
  have v: "validate header = None"
    using assms(2) room_name_facts(1) [OF assms(3)] by (auto simp: validate_def header_fields_ok_def)
  then obtain m where m: "seal (sv_crypto sv) (sv_signer sv) header payload = Inr m"
    using validate_sealed [of "sv_crypto sv" "sv_signer sv" header payload] assms(4)
    by (auto simp: seal_def Let_def sealed_header_def split: option.splits)
  have hd: "header_ok header" using assms(2) by (simp add: header_fields_ok_def)
  have wf: "wf_message m" using m hd S(3) by (rule seal_wf)
  have kl: "length (h_kind header) \<le> 5"
    using assms(2) by (auto simp: header_fields_ok_def kind_valid_def kind_text_def kind_image_def kind_shush_def)
  have hash: "length (h_hash (m_header m)) = 64"
    using m S(5) by (simp add: seal_Inr hash_payload_def)
  have "length (m_raw m) \<le> 6 * (64 + 32 + 5 + 64 + 64 + length (h_mime header)) + 400"
  proof -
    have "length (m_raw m) \<le> 6 * (length (h_room (m_header m)) + length (h_nick (m_header m)) +
      length (h_kind (m_header m)) + length (h_hash (m_header m)) + length (h_keyid (m_header m)) +
      length (h_mime (m_header m))) + 400"
      using wf length_marshal_header [of "m_header m"] by (simp add: wf_message_def)
    also have "\<dots> \<le> 6 * (64 + 32 + 5 + 64 + 64 + length (h_mime header)) + 400"
      using hash m kl S(4) assms(2) room_name_facts(2) [OF assms(3)]
      by (simp add: seal_Inr header_fields_ok_def)
    finally show ?thesis .
  qed
  moreover have "length (m_sig m) = 64" using m S(6) by (simp add: seal_Inr)
  moreover have "length (m_wire (archival m)) \<le>
    6 * length (m_raw (archival m)) + 12 * length (m_sig (archival m)) + 6 * length (m_payload (archival m)) + 100"
    using archival_wf [OF wf] length_encode_wire [of "archival m"] by (simp add: wf_message_def)
  ultimately have "length (m_wire (archival m)) < max_line"
    using assms(6) m by (auto simp: record_fits_def max_line_def seal_Inr split: if_splits)
  moreover have "utf8_valid (m_payload (archival m))" using m assms(5) by (simp add: seal_Inr)
  ultimately have "readable (archival m)" using archival_wf [OF wf] by (simp add: readable_def)
  moreover have "authentic (sv_crypto sv) (sv_keys sv) (archival m)"
    using seal_signed [where keys = "sv_keys sv", OF S(1) m S(2)] by (simp add: authentic_def archival_signed archival_hash_holds)
  ultimately show ?thesis using m by (auto simp: storable_def seal_Inr)
qed

section \<open>A broadcast\<close>

lemma next_seq_fresh:
  assumes "history_inv cr d h ms" "hi_last h \<noteq> - 1"
  shows "history_inv cr d (h\<lparr>hi_last := hi_last h + 1\<rparr>) ms" "\<forall>x\<in>set ms. m_seq x < hi_last h + 1"
proof -
  note F = history_inv_facts [OF assms(1)]
  show fresh: "\<forall>x\<in>set ms. m_seq x < hi_last h + 1"
    using F(5) less_Suc_u64 [OF order_refl assms(2)] by simp
  then show "history_inv cr d (h\<lparr>hi_last := hi_last h + 1\<rparr>) ms"
    using assms(1) by (auto simp: history_inv_def less_imp_le)
qed

lemma fold_max_snoc:
  "\<forall>x\<in>set ms. m_seq x < m_seq m \<Longrightarrow> fold max (map m_seq (ms @ [m])) 0 = m_seq m"
proof -
  assume a: "\<forall>x\<in>set ms. m_seq x < m_seq m"
  have "fold max (map m_seq ms) q \<le> m_seq m" if "q \<le> m_seq m" for q
    using a that by (induction ms arbitrary: q) (auto simp: less_imp_le)
  from this [of 0] show ?thesis by (simp add: max_def)
qed

text \<open>The effect of a successful broadcast of the sealed message \<open>m\<close>.\<close>

definition broadcast_done :: "server \<Rightarrow> room \<Rightarrow> message list \<Rightarrow> message \<Rightarrow> room_result \<Rightarrow> bool" where
  "broadcast_done sv r ms m res \<longleftrightarrow>
     (\<exists>d' h'. res = Some (None, d', r\<lparr>rm_hist := h'\<rparr>,
         map (\<lambda>cl. Send cl (m_wire m)) (rm_clients r) @ [Activity (rm_name r) (m_seq m)]) \<and>
       room_inv sv d' (r\<lparr>rm_hist := h'\<rparr>) (ms @ [m]) \<and>
       m_seq m = hi_last (rm_hist r) + 1 \<and> hi_last h' = hi_last (rm_hist r) + 1)"

lemma broadcast_spec:
  assumes inv: "room_inv sv d r ms" and "server_ok sv" "hi_last (rm_hist r) \<noteq> - 1" "int64_range now"
    and "header_fields_ok r header" "payload \<noteq> []" "utf8_valid payload" "record_fits header payload"
  shows "\<exists>m. broadcast_done sv r ms m (broadcast sv no_faults now d r c header payload) \<and>
    m_payload m = payload \<and> h_nick (m_header m) = h_nick header \<and> h_kind (m_header m) = h_kind header \<and>
    h_mime (m_header m) = h_mime header"
proof -
  note R = room_inv_facts [OF inv]
  let ?h = "rm_hist r"
  let ?q = "hi_last ?h + 1"
  let ?h1 = "?h\<lparr>hi_last := ?q\<rparr>"
  let ?hdr = "header\<lparr>h_seq := ?q, h_ts := now\<rparr>"
  note N = next_seq_fresh [OF R(1) assms(3)]
  have "header_fields_ok r ?hdr" "record_fits ?hdr payload"
    using assms(4,5,8) by (auto simp: header_fields_ok_def header_ok_def record_fits_def)
  then obtain m where m: "seal (sv_crypto sv) (sv_signer sv) ?hdr payload = Inr m"
    "storable (sv_crypto sv) (sv_keys sv) m" "m_payload m = payload"
    "m_header m = sealed_header (sv_crypto sv) (sv_signer sv) ?hdr payload"
    using sealed_storable [OF assms(2) _ R(4) assms(6,7)] by blast
  have seq: "m_seq m = ?q" using m(4) by simp
  have fresh: "\<forall>x\<in>set ms. m_seq x < m_seq m" using N(2) seq by simp
  have "storable (sv_crypto sv) (a_keys (hi_archive ?h1)) m" using m(2) R(3) by simp
  from history_append_spec [OF N(1) fresh this] obtain h' where
    h': "history_append no_faults d ?h1 m =
        Some (None, disk_after_append (hi_archive ?h) d (archival m), h')"
      "history_inv (sv_crypto sv) (disk_after_append (hi_archive ?h) d (archival m)) h' (ms @ [m])"
      "hi_last h' = ?q" "hi_archive h' = hi_archive ?h"
    using seq by auto
  have "room_inv sv (disk_after_append (hi_archive ?h) d (archival m)) (r\<lparr>rm_hist := h'\<rparr>) (ms @ [m])"
    using h'(2-4) R(3-6) m(4) seq fold_max_snoc [OF fresh] assms(5)
    by (auto simp: room_inv_def header_fields_ok_def)
  moreover have "broadcast sv no_faults now d r c header payload =
      Some (None, disk_after_append (hi_archive ?h) d (archival m), r\<lparr>rm_hist := h'\<rparr>,
        map (\<lambda>cl. Send cl (m_wire m)) (rm_clients r) @ [Activity (rm_name r) (m_seq m)])"
    using m(1) h'(1) by (simp add: broadcast_def next_seq_def)
  ultimately have "broadcast_done sv r ms m (broadcast sv no_faults now d r c header payload)"
    using seq h'(3) by (auto simp: broadcast_done_def)
  with m(3,4) show ?thesis by auto
qed

lemma text_header_ok:
  assumes "clean_nick s = Inr nick" "kind_valid kind" "validate_room_name (rm_name r) = None"
    and "\<not> (kind = kind_image \<and> mime = [])" "utf8_valid mime" "int64_range w" "int64_range hh"
  shows "header_fields_ok r (zero_header\<lparr>h_room := rm_name r, h_nick := nick, h_kind := kind,
    h_mime := mime, h_w := w, h_h := hh\<rparr>)"
proof -
  have "utf8_valid kind" using assms(2) by (auto simp: kind_valid_def)
  then show ?thesis
    using clean_nick_Inr [OF assms(1)] room_name_facts [OF assms(3)] assms(2,4-7)
    by (auto simp: header_fields_ok_def header_ok_def zero_header_def int64_range_def)
qed

lemma publish_text_spec:
  assumes inv: "room_inv sv d r ms" and "server_ok sv" "hi_last (rm_hist r) \<noteq> - 1" "int64_range now"
    and "clean_nick (f_nick f) = Inr nick" "f_kind f = kind_text" "f_p f \<noteq> []" "utf8_valid (f_p f)"
    and "int (length (f_p f)) \<le> hc_max_text (sv_cfg sv)" "hc_max_text (sv_cfg sv) \<le> 160000"
  shows "\<exists>m. broadcast_done sv r ms m (publish sv no_faults now d r c f) \<and>
    m_payload m = f_p f \<and> h_nick (m_header m) = nick \<and> h_kind (m_header m) = kind_text"
proof -
  let ?hdr = "zero_header\<lparr>h_room := rm_name r, h_nick := nick, h_kind := kind_text\<rparr>"
  have "header_fields_ok r ?hdr"
    using text_header_ok [OF assms(5), of kind_text r "[]" 0 0] room_inv_facts(4) [OF inv]
    by (simp add: int64_range_def zero_header_def)
  moreover have "record_fits ?hdr (f_p f)"
    using assms(9,10) by (simp add: record_fits_def zero_header_def)
  moreover have "publish sv no_faults now d r c f = broadcast sv no_faults now d r c ?hdr (f_p f)"
    using assms(5-9) by (simp add: publish_def)
  ultimately show ?thesis
    using broadcast_spec [OF inv assms(2-4) _ assms(7,8)] by fastforce
qed

lemma length_marshal_shush: "length (marshal_shush q) \<le> 100"
  using length_print_object [of "[(''seq'', JNum (nat_str (unat q)))]"] length_nat_str_u64 [of q]
  by (simp add: marshal_shush_def del: json_print.simps) simp

lemma shush_spec:
  assumes inv: "room_inv sv d r ms" and "server_ok sv" "hi_last (rm_hist r) \<noteq> - 1" "int64_range now"
    and "clean_nick (f_nick f) = Inr nick" "f_seq f \<noteq> 0" "f_seq f \<le> hi_last (rm_hist r)"
    and "f_seq f \<notin> hi_shushed (rm_hist r)"
  shows "\<exists>m. broadcast_done sv r ms m (shush sv no_faults now d r c f) \<and> shush_target m = Some (f_seq f)"
proof -
  let ?hdr = "zero_header\<lparr>h_room := rm_name r, h_nick := nick, h_kind := kind_shush\<rparr>"
  have "header_fields_ok r ?hdr"
    using text_header_ok [OF assms(5), of kind_shush r "[]" 0 0] room_inv_facts(4) [OF inv]
    by (simp add: int64_range_def zero_header_def)
  moreover have "record_fits ?hdr (marshal_shush (f_seq f))"
    using length_marshal_shush [of "f_seq f"] by (simp add: record_fits_def zero_header_def)
  moreover have "\<not> f_seq f > hi_last (rm_hist r)" using assms(7) by simp
  then have "shush sv no_faults now d r c f = broadcast sv no_faults now d r c ?hdr (marshal_shush (f_seq f))"
    using assms(5-8) by (simp add: shush_def last_seq_def is_shushed_def)
  ultimately obtain m where "broadcast_done sv r ms m (shush sv no_faults now d r c f)"
    "m_payload m = marshal_shush (f_seq f)" "h_kind (m_header m) = kind_shush"
    using broadcast_spec [OF inv assms(2-4), of ?hdr "marshal_shush (f_seq f)" c] by auto
  then show ?thesis using assms(6) by (auto simp: shush_target_def parse_marshal_shush)
qed

section \<open>Failed and unreadable writes\<close>

lemma broadcast_seals:
  assumes "room_inv sv d r ms" "hi_last (rm_hist r) \<noteq> - 1"
    and "header_fields_ok r header" "payload \<noteq> []"
  obtains m where "seal (sv_crypto sv) (sv_signer sv)
      (header\<lparr>h_seq := hi_last (rm_hist r) + 1, h_ts := now\<rparr>) payload = Inr m"
    "m_seq m = hi_last (rm_hist r) + 1" "\<forall>x\<in>set ms. m_seq x < m_seq m"
    "history_inv (sv_crypto sv) d ((rm_hist r)\<lparr>hi_last := hi_last (rm_hist r) + 1\<rparr>) ms"
    "h_mime (m_header m) = h_mime header" "h_kind (m_header m) = h_kind header"
proof -
  note R = room_inv_facts [OF assms(1)]
  let ?hdr = "header\<lparr>h_seq := hi_last (rm_hist r) + 1, h_ts := now\<rparr>"
  have "validate ?hdr = None"
    using assms(3) room_name_facts(1) [OF R(4)] by (auto simp: validate_def header_fields_ok_def)
  then obtain m where m: "seal (sv_crypto sv) (sv_signer sv) ?hdr payload = Inr m"
    using validate_sealed [of "sv_crypto sv" "sv_signer sv" ?hdr payload] assms(4)
    by (auto simp: seal_def Let_def sealed_header_def split: option.splits)
  then have "m_seq m = hi_last (rm_hist r) + 1" "h_mime (m_header m) = h_mime header"
    "h_kind (m_header m) = h_kind header" by (simp_all add: seal_Inr)
  with next_seq_fresh [OF R(1) assms(2)] m that show thesis by simp
qed

text \<open>What a write that stopped leaves opens again, with the message or without it.\<close>

lemma torn_room_reopens:
  assumes inv: "room_inv sv d r ms" and m: "storable (sv_crypto sv) (sv_keys sv) m" "\<forall>x\<in>set ms. m_seq x < m_seq m"
    "h_room (m_header m) = rm_name r"
    and d': "d' = snd (archive_append (no_faults\<lparr>fl_write := Some n\<rparr>) d (hi_archive (rm_hist r)) (archival m))"
  shows "\<exists>r'' d'' ms''. open_room sv no_faults d' (rm_name r) = (Inr r'', d'') \<and> room_inv sv d'' r'' ms'' \<and>
    (ms'' = map archival ms \<or> ms'' = map archival (ms @ [m]))"
proof -
  note R = room_inv_facts [OF inv]
  let ?a = "hi_archive (rm_hist r)"
  let ?torn = "n \<le> length (m_wire (archival m))"
  let ?ms = "if ?torn then ms else ms @ [m]"
  let ?d'' = "d(a_path ?a \<mapsto> log_bytes (map archival ?ms))"
  have log: "log_holds (sv_crypto sv) ?a d (map archival ms)" by (rule history_inv_facts(1) [OF R(1)])
  have wf: "wf_message (archival m)" using m(1) by (simp add: storable_def readable_def)
  have "open_archive no_faults d' (a_path ?a) (sv_keys sv) =
    (Inr \<lparr>a_path = a_path ?a, a_keys = sv_keys sv\<rparr>,
     d(a_path ?a \<mapsto> log_bytes (if ?torn then map archival ms else map archival ms @ [archival m])))"
    unfolding d' by (rule torn_append_open [OF _ _ wf refl]) (use log in \<open>auto simp: log_holds_def readable_def\<close>)
  then have o: "open_archive no_faults d' (room_path (rm_name r)) (sv_keys sv) = (Inr ?a, ?d'')"
    using R(3) by (auto split: if_splits)
  have "log_holds (sv_crypto sv) ?a ?d'' (map archival ?ms)"
  proof (cases ?torn)
    case True
    then show ?thesis using log by (simp add: log_holds_def)
  next
    case False
    have "log_holds (sv_crypto sv) ?a (disk_after_append ?a d (archival m)) (map archival ms @ [archival m])"
      using m(1,2) R(3) by (intro archive_log.holds_append [OF log]) (auto simp: storable_def)
    then show ?thesis using False by (simp add: log_holds_def)
  qed
  from open_history_repaired [OF R(4,3) o this]
  obtain h where h: "open_history no_faults d' (rm_name r) (hc_store (sv_cfg sv)) (sv_keys sv) = (Inr h, ?d'')"
    "history_inv (sv_crypto sv) ?d'' h (map archival ?ms)" "hi_last h = fold max (map m_seq ?ms) 0"
    "hi_archive h = ?a" by blast
  let ?r'' = "\<lparr>rm_name = rm_name r, rm_clients = [], rm_hist = h\<rparr>"
  have "open_room sv no_faults d' (rm_name r) = (Inr ?r'', ?d'')" using h(1) by (simp add: open_room_def)
  moreover have "room_inv sv ?d'' ?r'' (map archival ?ms)"
    using h(2-4) R(3,4,6) m(3) by (auto simp: room_inv_def comp_def)
  ultimately show ?thesis by (intro exI [of _ ?r''] exI [of _ ?d''] exI [of _ "map archival ?ms"]) auto
qed

text \<open>A broadcast whose write stops after \<open>n\<close> bytes.\<close>

lemma broadcast_write_fails:
  assumes inv: "room_inv sv d r ms" and "server_ok sv" "hi_last (rm_hist r) \<noteq> - 1" "int64_range now"
    and "header_fields_ok r header" "payload \<noteq> []" "utf8_valid payload" "record_fits header payload"
  shows "\<exists>d' r'. broadcast sv (no_faults\<lparr>fl_write := Some n\<rparr>) now d r c header payload =
      Some (Some AppendFailed, d', r', []) \<and> rm_clients r' = rm_clients r \<and> rm_name r' = rm_name r \<and>
    (\<exists>r'' d'' ms''. open_room sv no_faults d' (rm_name r) = (Inr r'', d'') \<and> room_inv sv d'' r'' ms'' \<and>
      (ms'' = map archival ms \<or>
        (\<exists>m. ms'' = map archival (ms @ [m]) \<and> m_seq m = hi_last (rm_hist r) + 1)))"
proof -
  note R = room_inv_facts [OF inv]
  let ?fl = "no_faults\<lparr>fl_write := Some n\<rparr>"
  let ?q = "hi_last (rm_hist r) + 1"
  let ?hdr = "header\<lparr>h_seq := ?q, h_ts := now\<rparr>"
  let ?h1 = "(rm_hist r)\<lparr>hi_last := ?q\<rparr>"
  let ?a = "hi_archive (rm_hist r)"
  have "header_fields_ok r ?hdr" "record_fits ?hdr payload"
    using assms(4,5,8) by (auto simp: header_fields_ok_def header_ok_def record_fits_def)
  then obtain m where m: "seal (sv_crypto sv) (sv_signer sv) ?hdr payload = Inr m"
    "storable (sv_crypto sv) (sv_keys sv) m"
    "m_header m = sealed_header (sv_crypto sv) (sv_signer sv) ?hdr payload"
    using sealed_storable [OF assms(2) _ R(4) assms(6,7)] by blast
  note N = next_seq_fresh [OF R(1) assms(3)]
  have seq: "m_seq m = ?q" using m(3) by simp
  have fresh: "\<forall>x\<in>set ms. m_seq x < m_seq m" using N(2) seq by simp
  let ?d' = "snd (archive_append ?fl d ?a (archival m))"
  have e: "fst (archive_append ?fl d ?a (archival m)) = Some AppendFailed"
    by (simp add: archive_append_def)
  obtain h' where "history_append ?fl d ?h1 m = Some (Some AppendFailed, ?d', h')"
    using history_append_writes [OF N(1) fresh, of ?fl] e by auto
  then have b: "broadcast sv ?fl now d r c header payload =
      Some (Some AppendFailed, ?d', r\<lparr>rm_hist := h'\<rparr>, [])"
    using m(1) by (simp add: broadcast_def next_seq_def)
  have "h_room (m_header m) = rm_name r" using m(3) assms(5) by (simp add: header_fields_ok_def)
  from torn_room_reopens [OF inv m(2) fresh this refl, of n]
  obtain r'' d'' ms'' where o: "open_room sv no_faults ?d' (rm_name r) = (Inr r'', d'')" "room_inv sv d'' r'' ms''"
    "ms'' = map archival ms \<or> ms'' = map archival (ms @ [m])" by blast
  then show ?thesis using b seq
    by (intro exI [of _ ?d'] exI [of _ "r\<lparr>rm_hist := h'\<rparr>"] conjI exI [of _ r''] exI [of _ d'']
        exI [of _ ms'']) auto
qed

section \<open>Outcomes of a frame\<close>

lemma broadcast_fans_out:
  assumes "broadcast sv fl now d r c header payload = Some (None, d', r', acts)"
    and "payload \<noteq> []" "kind_valid (h_kind header)" "h_room header \<noteq> []" "h_nick header \<noteq> []"
    and "\<not> (h_kind header = kind_image \<and> h_mime header = [])"
  shows "\<exists>m. acts = map (\<lambda>cl. Send cl (m_wire m)) (rm_clients r) @ [Activity (rm_name r) (m_seq m)] \<and>
    m_seq m = hi_last (rm_hist r) + 1 \<and> rm_clients r' = rm_clients r"
proof -
  let ?hdr = "header\<lparr>h_seq := hi_last (rm_hist r) + 1, h_ts := now\<rparr>"
  have "validate ?hdr = None" using assms(3-6) by (simp add: validate_def)
  then obtain m where m: "seal (sv_crypto sv) (sv_signer sv) ?hdr payload = Inr m"
    using validate_sealed [of "sv_crypto sv" "sv_signer sv" ?hdr payload] assms(2)
    by (auto simp: seal_def Let_def sealed_header_def split: option.splits)
  then have "m_seq m = hi_last (rm_hist r) + 1" by (simp add: seal_Inr)
  with assms(1) m show ?thesis
    by (auto simp: broadcast_def next_seq_def split: option.splits prod.splits)
qed

definition answered :: "fs \<Rightarrow> room \<Rightarrow> nat \<Rightarrow> fs \<Rightarrow> room \<Rightarrow> action list \<Rightarrow> bool" where
  "answered d r c d' r' acts \<longleftrightarrow> d' = d \<and> r' = r \<and> list_all (\<lambda>a. \<exists>b. a = Send c b) acts"

definition fanned_out :: "room \<Rightarrow> room \<Rightarrow> action list \<Rightarrow> bool" where
  "fanned_out r r' acts \<longleftrightarrow>
     (\<exists>m. acts = map (\<lambda>cl. Send cl (m_wire m)) (rm_clients r) @ [Activity (rm_name r) (m_seq m)] \<and>
        m_seq m = hi_last (rm_hist r) + 1 \<and> rm_clients r' = rm_clients r)"

lemma refuse_answered: "refuse d r c msg = Some (None, d', r', acts) \<Longrightarrow> answered d r c d' r' acts"
  by (auto simp: refuse_def answered_def)

lemma publish_outcome:
  assumes "publish sv fl now d r c f = Some (None, d', r', acts)" "rm_name r \<noteq> []"
  shows "answered d r c d' r' acts \<or> fanned_out r r' acts"
proof (cases "clean_nick (f_nick f)")
  case (Inr nick)
  note bc = broadcast_fans_out [folded fanned_out_def]
  from Inr assms clean_nick_Inr(2) [OF Inr] show ?thesis
    by (auto simp: publish_def Let_def kind_valid_def split: if_splits
        dest: refuse_answered bc)
qed (use assms(1) in \<open>auto simp: publish_def dest: refuse_answered\<close>)

lemma shush_outcome:
  assumes "shush sv fl now d r c f = Some (None, d', r', acts)" "rm_name r \<noteq> []"
  shows "answered d r c d' r' acts \<or> fanned_out r r' acts"
proof (cases "clean_nick (f_nick f)")
  case (Inr nick)
  note bc = broadcast_fans_out [folded fanned_out_def]
  from Inr assms clean_nick_Inr(2) [OF Inr] show ?thesis
    by (auto simp: shush_def answered_def split: if_splits dest: refuse_answered [unfolded answered_def] bc)
qed (use assms(1) in \<open>auto simp: shush_def dest: refuse_answered\<close>)

lemma backfill_outcome:
  "backfill sv fl d r c f = Some (None, d', r', acts) \<Longrightarrow> answered d r c d' r' acts"
  by (auto simp: backfill_def refuse_def answered_def deliver_def list_all_iff
      split: if_splits option.splits prod.splits)

section \<open>Instances for the witnesses\<close>

definition sample_server :: server where
  "sample_server = \<lparr>sv_crypto = sample_crypto, sv_signer = sample_signer, sv_keys = sample_keys,
     sv_cfg = \<lparr>hc_store = sample_config, hc_image_max = 2097152, hc_max_text = 16384, hc_outbound = 64,
       hc_idle = 600, hc_sweep = 60\<rparr>,
     sv_env_text = (\<lambda>_. ''envelope: malformed''), sv_store_text = (\<lambda>_. ''store: failed'')\<rparr>"

definition sample_room :: room where
  "sample_room = \<lparr>rm_name = ''general'', rm_clients = [1, 2], rm_hist = sample_history\<rparr>"

definition sample_frame :: client_frame where
  "sample_frame = zero_frame\<lparr>f_t := frame_send, f_nick := ''sam'', f_kind := kind_text, f_p := ''hi''\<rparr>"

lemma sample_server_ok: "server_ok sample_server"
  by (simp add: server_ok_def sample_server_def sample_keyid_valid) (auto simp: sample_crypto_def sample_signer_def min_def)

lemma sample_room_inv: "room_inv sample_server sample_disk sample_room [sample_text 7 ''hello'']"
proof -
  have "seal sample_crypto sample_signer (sample_header 7 kind_text []) ''hello'' = Inr (sample_text 7 ''hello'')"
    by (rule sample_sealed) simp_all
  then have "h_room (m_header (sample_text 7 ''hello'')) = ''general''"
    by (simp add: seal_Inr sample_header_def)
  then show ?thesis
    using sample_history_inv sample_room_valid
    by (simp add: room_inv_def sample_server_def sample_room_def sample_history_def sample_archive_def
        room_path_def jsonl_def sample_facts)
qed

lemma sample_nick: "clean_nick ''sam'' = Inr ''sam''"
  by (simp add: clean_nick_def trim_space_def trim_right.simps last_rune_def is_space_def rune_width_def
      max_nick_len_def Let_def cont_byte_def runes_ascii)

lemma sample_last: "hi_last (rm_hist sample_room) = 7"
  by (simp add: sample_room_def sample_history_def)

section \<open>Properties\<close>

text \<open>Publishing a message. A text frame with an acceptable nickname and a non-empty payload in
  valid UTF-8 within the limit is sealed under the next sequence, archived, sent to every client of
  the room and announced, in that order of effects; the room's invariant holds again with the
  message at the end of its list, and the counter has moved by exactly one.\<close>

theorem publish_text:
  assumes "room_inv sv d r ms" "server_ok sv" "hi_last (rm_hist r) \<noteq> - 1" "int64_range now"
    and "clean_nick (f_nick f) = Inr nick" "f_kind f = kind_text" "f_p f \<noteq> []" "utf8_valid (f_p f)"
    and "int (length (f_p f)) \<le> hc_max_text (sv_cfg sv)" "hc_max_text (sv_cfg sv) \<le> 160000"
  shows "\<exists>m d' h'. publish sv no_faults now d r c f = Some (None, d', r\<lparr>rm_hist := h'\<rparr>,
      map (\<lambda>cl. Send cl (m_wire m)) (rm_clients r) @ [Activity (rm_name r) (m_seq m)]) \<and>
    room_inv sv d' (r\<lparr>rm_hist := h'\<rparr>) (ms @ [m]) \<and> m_seq m = hi_last (rm_hist r) + 1 \<and>
    m_payload m = f_p f \<and> h_nick (m_header m) = nick \<and> h_kind (m_header m) = kind_text"
  using publish_text_spec [OF assms, of c] unfolding broadcast_done_def by blast

theorem publish_text_witness:
  "\<exists>(m :: message) d' r'. publish sample_server no_faults 1755130000 sample_disk sample_room 1 sample_frame =
      Some (None, d', r', [Send 1 (m_wire m), Send 2 (m_wire m), Activity ''general'' 8]) \<and> m_payload m = ''hi''"
proof -
  have f: "clean_nick (f_nick sample_frame) = Inr ''sam''" "f_kind sample_frame = kind_text"
    "f_p sample_frame = ''hi''" "hi_last (rm_hist sample_room) \<noteq> - 1" "int64_range 1755130000"
    "hc_max_text (sv_cfg sample_server) = 16384"
    using sample_nick sample_last
    by (simp_all add: sample_frame_def int64_range_def sample_server_def)
  obtain m d' h' where "publish sample_server no_faults 1755130000 sample_disk sample_room 1 sample_frame =
      Some (None, d', sample_room\<lparr>rm_hist := h'\<rparr>,
        map (\<lambda>cl. Send cl (m_wire m)) (rm_clients sample_room) @ [Activity (rm_name sample_room) (m_seq m)])"
    "m_seq m = hi_last (rm_hist sample_room) + 1" "m_payload m = f_p sample_frame"
  proof -
    have "f_p sample_frame \<noteq> []" "utf8_valid (f_p sample_frame)"
      "int (length (f_p sample_frame)) \<le> hc_max_text (sv_cfg sample_server)"
      "hc_max_text (sv_cfg sample_server) \<le> 160000"
      unfolding f(3,6) by simp_all
    from publish_text [OF sample_room_inv sample_server_ok f(4,5,1,2) this, of 1] that
    show thesis by blast
  qed
  moreover have "map (\<lambda>cl. Send cl (m_wire m)) (rm_clients sample_room) @
      [Activity (rm_name sample_room) (m_seq m)] = [Send 1 (m_wire m), Send 2 (m_wire m), Activity ''general'' 8]"
    using calculation(2) sample_last by (simp add: sample_room_def)
  ultimately have "publish sample_server no_faults 1755130000 sample_disk sample_room 1 sample_frame =
      Some (None, d', sample_room\<lparr>rm_hist := h'\<rparr>, [Send 1 (m_wire m), Send 2 (m_wire m), Activity ''general'' 8]) \<and>
      m_payload m = ''hi''" using f(3) by simp
  then show ?thesis by blast
qed



lemma long_record_shuts:
  assumes "room_inv sv d r ms" "wf_message (archival m)" "max_line \<le> length (m_wire (archival m))"
    and "d' = disk_after_append (hi_archive (rm_hist r)) d (archival m)"
  shows "open_room sv no_faults d' (rm_name r) = (Inl ScanTooLong, d')"
proof -
  note R = room_inv_facts [OF assms(1)]
  let ?a = "hi_archive (rm_hist r)"
  have log: "log_holds (sv_crypto sv) ?a d (map archival ms)" by (rule history_inv_facts(1) [OF R(1)])
  then have "d' (a_path ?a) = Some (log_bytes (map archival ms @ archival m # []))"
    by (simp add: log_holds_def disk_after_append_def archive_append_def archive_line_def assms(4))
  from long_record_recovery [where d = d' and a = ?a and ms = "map archival ms" and ns = "[]" and
      m = "archival m" and keys = "sv_keys sv", OF this _ _ assms(2,3)] log
  have "fst (archive_recover no_faults d' ?a) = Some ScanTooLong"
    "open_archive no_faults d' (room_path (rm_name r)) (sv_keys sv) = (Inr ?a, d')"
    using R(3) by (auto simp: log_holds_def)
  then show ?thesis
    using R(4) by (cases "archive_recover no_faults d' ?a") (simp add: open_room_def open_history_def)
qed

text \<open>C8: one frame can make a room unopenable. An image frame whose mime type is a mebibyte long
  passes every check and is published, but the record it leaves is longer than the archive's scanner
  accepts: every later attempt to open the room fails, and repair does not remove the record.\<close>

theorem long_mime_bricks_room:
  assumes "room_inv sv d r ms" "hi_last (rm_hist r) \<noteq> - 1" "int64_range now"
    and "utf8_valid (s_keyid (sv_signer sv))" "clean_nick (f_nick f) = Inr nick" "f_t f = frame_send"
    and "f_kind f = kind_image" "f_p f \<noteq> []" "int (length (f_p f)) \<le> hc_image_max (sv_cfg sv)"
    and "frame_ok f" "2 ^ 20 \<le> length (f_mime f)"
  shows "\<exists>d' r' acts. handle sv no_faults now d r c f = Some (None, d', r', acts) \<and>
    open_room sv no_faults d' (rm_name r) = (Inl ScanTooLong, d')"
proof -
  note R = room_inv_facts [OF assms(1)]
  let ?hdr = "zero_header\<lparr>h_room := rm_name r, h_nick := nick, h_kind := kind_image, h_mime := f_mime f,
    h_w := f_w f, h_h := f_h f\<rparr>"
  let ?q = "hi_last (rm_hist r) + 1"
  let ?a = "hi_archive (rm_hist r)"
  have mime: "f_mime f \<noteq> []" using assms(11) by auto
  have hdr: "header_fields_ok r ?hdr"
    using text_header_ok [OF assms(5) kinds_valid(2) R(4), of "f_mime f" "f_w f" "f_h f"] assms(10) mime
    by (simp add: frame_ok_def)
  obtain m where m: "seal (sv_crypto sv) (sv_signer sv) (?hdr\<lparr>h_seq := ?q, h_ts := now\<rparr>) (f_p f) = Inr m"
    "\<forall>x\<in>set ms. m_seq x < m_seq m"
    "history_inv (sv_crypto sv) d ((rm_hist r)\<lparr>hi_last := ?q\<rparr>) ms" "h_mime (m_header m) = f_mime f"
    by (rule broadcast_seals [OF assms(1,2) hdr assms(8), of now]) auto
  have "header_ok (?hdr\<lparr>h_seq := ?q, h_ts := now\<rparr>)"
    using hdr assms(3) by (simp add: header_fields_ok_def header_ok_def)
  then have wf: "wf_message (archival m)" using seal_wf [OF m(1) _ assms(4)] archival_wf by blast
  have "length (f_mime f) \<le> length (m_raw (archival m))"
    using length_marshal_header_ge [of "m_header m"] m(4) wf by (simp add: wf_message_def)
  then have long: "max_line \<le> length (m_wire (archival m))"
    using length_encode_wire_ge [of "archival m"] wf assms(11) by (simp add: wf_message_def max_line_def)
  let ?d' = "disk_after_append ?a d (archival m)"
  obtain h' where h': "history_append no_faults d ((rm_hist r)\<lparr>hi_last := ?q\<rparr>) m = Some (None, ?d', h')"
    using history_append_writes [OF m(3,2) refl] by (auto simp: disk_after_append_def archive_append_def)
  have "handle sv no_faults now d r c f = broadcast sv no_faults now d r c ?hdr (f_p f)"
    using assms(5-9) mime by (simp add: handle_def publish_def)
  then have "\<exists>r' acts. handle sv no_faults now d r c f = Some (None, ?d', r', acts)"
    using m(1) h' by (simp add: broadcast_def next_seq_def)
  moreover have "open_room sv no_faults ?d' (rm_name r) = (Inl ScanTooLong, ?d')"
    using assms(1) wf long refl by (rule long_record_shuts)
  ultimately show ?thesis by blast
qed

theorem long_mime_bricks_room_witness:
  "\<exists>d' r' acts. handle sample_server no_faults 0 sample_disk sample_room 1
      (sample_frame\<lparr>f_kind := kind_image, f_mime := replicate (2 ^ 20) CHR ''a''\<rparr>) = Some (None, d', r', acts) \<and>
    open_room sample_server no_faults d' ''general'' = (Inl ScanTooLong, d')"
proof -
  let ?f = "sample_frame\<lparr>f_kind := kind_image, f_mime := replicate (2 ^ 20) CHR ''a''\<rparr>"
  have "utf8_valid (replicate n CHR ''a'')" for n by (rule ascii_valid) auto
  then have "frame_ok ?f"
    by (simp add: frame_ok_def sample_frame_def zero_frame_def frame_send_def int64_range_def)
  moreover have "clean_nick (f_nick ?f) = Inr ''sam''" "f_t ?f = frame_send" "f_kind ?f = kind_image"
    "f_p ?f \<noteq> []" "int (length (f_p ?f)) \<le> hc_image_max (sv_cfg sample_server)"
    "hi_last (rm_hist sample_room) \<noteq> - 1" "int64_range 0" "utf8_valid (s_keyid (sv_signer sample_server))"
    "2 ^ 20 \<le> length (f_mime ?f)"
    using sample_nick sample_last
    by (simp_all add: sample_frame_def sample_server_def int64_range_def)
  ultimately show ?thesis
    using long_mime_bricks_room [OF sample_room_inv, of 0 ?f "''sam''" 1]
    by (simp add: sample_room_def)
qed

text \<open>C6: shushing takes effect. A shush of a known sequence that is not shushed yet is published
  as a marker under the next sequence, and from then on the room serves neither the message nor a gap
  for the shushed sequence.\<close>

theorem shush_takes_effect:
  assumes "room_inv sv d r ms" "server_ok sv" "unat (hi_last (rm_hist r)) + 1 < 2 ^ 63" "int64_range now"
    and "clean_nick (f_nick f) = Inr nick" "f_seq f \<noteq> 0" "f_seq f \<le> hi_last (rm_hist r)"
    and "f_seq f \<notin> hi_shushed (rm_hist r)"
  shows "\<exists>m d' r' acts. shush sv no_faults now d r c f = Some (None, d', r', acts) \<and>
    room_inv sv d' r' (ms @ [m]) \<and> shush_target m = Some (f_seq f) \<and>
    history_range (sv_crypto sv) no_faults d' (rm_hist r') (f_seq f) (f_seq f) = Some ([], [], None)"
proof -
  have top: "hi_last (rm_hist r) \<noteq> - 1" using assms(3) by (intro small_top) simp
  obtain m where m: "broadcast_done sv r ms m (shush sv no_faults now d r c f)" "shush_target m = Some (f_seq f)"
    using shush_spec [OF assms(1,2) top assms(4-8)] by blast
  then obtain d' h' where s: "shush sv no_faults now d r c f = Some (None, d', r\<lparr>rm_hist := h'\<rparr>,
      map (\<lambda>cl. Send cl (m_wire m)) (rm_clients r) @ [Activity (rm_name r) (m_seq m)])"
    "room_inv sv d' (r\<lparr>rm_hist := h'\<rparr>) (ms @ [m])" "hi_last h' = hi_last (rm_hist r) + 1"
    by (auto simp: broadcast_done_def)
  have un: "unat (hi_last h') = Suc (unat (hi_last (rm_hist r)))"
    unfolding s(3) by (rule unat_Suc_u64 [OF order_refl top])
  then have "unat (hi_last h') < 2 ^ 63" "f_seq f \<le> hi_last h'"
    using assms(3,7) by (simp_all add: word_le_nat_alt)
  moreover have "history_inv (sv_crypto sv) d' h' (ms @ [m])" using room_inv_facts(1) [OF s(2)] by simp
  ultimately have "history_range (sv_crypto sv) no_faults d' h' (f_seq f) (f_seq f) = Some ([], [], None)"
    using shushed_range_empty [of "sv_crypto sv" d' h' "ms @ [m]" m "f_seq f"] m(2) assms(6) by simp
  with s(1,2) m(2) show ?thesis by auto
qed

theorem shush_takes_effect_witness:
  "\<exists>d' r' acts. shush sample_server no_faults 0 sample_disk sample_room 1 (sample_frame\<lparr>f_seq := 7\<rparr>) =
      Some (None, d', r', acts) \<and>
    history_range sample_crypto no_faults d' (rm_hist r') 7 7 = Some ([], [], None)"
proof -
  let ?f = "sample_frame\<lparr>f_seq := 7\<rparr>"
  have "unat (hi_last (rm_hist sample_room)) + 1 < 2 ^ 63" "int64_range 0" "clean_nick (f_nick ?f) = Inr ''sam''"
    "f_seq ?f = 7" "f_seq ?f \<noteq> 0" "f_seq ?f \<le> hi_last (rm_hist sample_room)"
    "f_seq ?f \<notin> hi_shushed (rm_hist sample_room)" "sv_crypto sample_server = sample_crypto"
    using sample_nick sample_last
    by (simp_all add: sample_frame_def int64_range_def sample_room_def sample_history_def sample_server_def)
  with shush_takes_effect [OF sample_room_inv sample_server_ok, of 0 ?f "''sam''" 1] show ?thesis by metis
qed

end
