(* ===== verification/OpenFaults.thy ===== *)
theory OpenFaults
  imports Room
begin

text \<open>
  What a room depends on and what it touches: its own file. And what opening a room does when calls of
  the operating system fail on the way: an open that succeeds is the open without failures, and one
  that fails leaves a file which opens, later, to the same room.
\<close>

section \<open>One file a room\<close>

lemma room_path_inj [simp]: "room_path a = room_path b \<longleftrightarrow> a = b"
  by (simp add: room_path_def)

lemma append_touches: "p \<noteq> a_path a \<Longrightarrow> snd (archive_append fl d a m) p = d p"
  by (simp add: archive_append_def Let_def split: option.split)

lemma history_append_touches:
  assumes "history_append fl d h m = Some (e, d', h')"
  shows "hi_archive h' = hi_archive h" "p \<noteq> a_path (hi_archive h) \<Longrightarrow> d' p = d p"
  using assms append_touches [of p _ fl d]
  by (auto simp: history_append_def Let_def case_prod_beta split: option.splits if_splits sum.splits)

lemma broadcast_touches:
  assumes "broadcast sv fl now d r c header payload = Some (e, d', r', acts)"
    and "p \<noteq> a_path (hi_archive (rm_hist r))"
  shows "d' p = d p"
  using assms
  by (auto simp: broadcast_def refuse_def next_seq_def Let_def split: sum.splits option.splits
      dest!: history_append_touches(2) [where p = p])

lemma handle_touches:
  assumes "handle sv fl now d r c f = Some (e, d', r', acts)" "p \<noteq> a_path (hi_archive (rm_hist r))"
  shows "d' p = d p"
proof -
  note bc = broadcast_touches [OF _ assms(2)]
  have "d' p = d p" if "publish sv fl now d r c f = Some (e, d', r', acts)"
    using that by (auto simp: publish_def refuse_def Let_def split: sum.splits if_splits dest: bc)
  moreover have "d' p = d p" if "shush sv fl now d r c f = Some (e, d', r', acts)"
    using that by (auto simp: shush_def refuse_def split: sum.splits if_splits dest: bc)
  moreover have "d' p = d p" if "backfill sv fl d r c f = Some (e, d', r', acts)"
    using that by (auto simp: backfill_def refuse_def split: option.splits prod.splits if_splits)
  ultimately show ?thesis using assms(1) by (auto simp: handle_def refuse_def split: if_splits)
qed

lemma turn_touches:
  assumes "room_turn sv fl now d r ev = Some (ro, d', acts)" "p \<noteq> a_path (hi_archive (rm_hist r))"
  shows "d' p = d p"
proof (cases ev)
  case (Request c f)
  with assms(1) obtain e r' acts' where "handle sv fl now d r c f = Some (e, d', r', acts')"
    by (auto simp: room_turn_def split: option.splits)
  then show ?thesis using assms(2) by (rule handle_touches)
qed (use assms(1) in \<open>auto simp: room_turn_def split: option.splits\<close>)

text \<open>The invariant of a room and what opening it gives are functions of its file alone.\<close>

lemma log_frame: "e (a_path a) = d (a_path a) \<Longrightarrow> log_holds cr a e xs = log_holds cr a d xs"
  by (simp add: log_holds_def)

lemma room_inv_frame:
  assumes "room_inv sv d r ms" "e (room_path (rm_name r)) = d (room_path (rm_name r))"
  shows "room_inv sv e r ms"
proof -
  have "a_path (hi_archive (rm_hist r)) = room_path (rm_name r)" using assms(1) by (simp add: room_inv_def)
  then have L: "log_holds cr (hi_archive (rm_hist r)) e xs = log_holds cr (hi_archive (rm_hist r)) d xs" for cr xs
    using assms(2) by (intro log_frame) simp
  have H: "history_inv cr e (rm_hist r) ms = history_inv cr d (rm_hist r) ms" for cr
    unfolding history_inv_def L ..
  have "room_inv sv e r ms = room_inv sv d r ms" unfolding room_inv_def H ..
  with assms(1) show ?thesis by simp
qed

lemma scan_frame: "e (a_path a) = d (a_path a) \<Longrightarrow> archive_scan fl e a f st = archive_scan fl d a f st"
  by (simp add: archive_scan_def)

lemma open_archive_frame:
  assumes "open_archive fl d p keys = (res, d')"
  shows "e p = d p \<Longrightarrow> open_archive fl e p keys = (res, e(p := d' p))"
    "q \<noteq> p \<Longrightarrow> d' q = d q"
  using assms by (auto simp: open_archive_def Let_def fun_upd_idem split: if_splits option.splits prod.splits)

lemma open_room_frame:
  assumes "open_room sv fl d name = (res, d')"
  shows "e (room_path name) = d (room_path name) \<Longrightarrow>
      open_room sv fl e name = (res, e(room_path name := d' (room_path name)))"
    "q \<noteq> room_path name \<Longrightarrow> d' q = d q"
proof -
  let ?p = "room_path name"
  obtain ra d1 where a: "open_archive fl d ?p (sv_keys sv) = (ra, d1)" by (cases "open_archive fl d ?p (sv_keys sv)")
  show "q \<noteq> ?p \<Longrightarrow> d' q = d q"
    using assms open_archive_frame(2) [OF a, of q] a
    by (auto simp: open_room_def open_history_def split: option.splits if_splits sum.splits prod.splits)
  assume e: "e ?p = d ?p"
  then have same: "e(?p := d ?p) = e" by (metis fun_upd_triv)
  show "open_room sv fl e name = (res, e(?p := d' ?p))"
  proof (cases "validate_room_name name = None \<and> \<not> fl_op fl IoMkdir")
    case False
    then have "d' = d" "open_room sv fl e name = (res, e)"
      using assms by (auto simp: open_room_def open_history_def split: option.splits if_splits)
    then show ?thesis using same by simp
  next
    case True
    have E: "open_archive fl e ?p (sv_keys sv) = (ra, e(?p := d1 ?p))"
      using a e by (rule open_archive_frame(1))
    show ?thesis
    proof (cases ra)
      case (Inl err)
      with True a assms E show ?thesis by (simp add: open_room_def open_history_def)
    next
      case (Inr x)
      then have "a_path x = ?p"
        using a by (auto simp: open_archive_def Let_def split: if_splits prod.splits option.splits)
      then have R: "archive_recover fl (e(?p := d1 ?p)) x = archive_recover fl d1 x"
        unfolding archive_recover_def by (intro scan_frame) simp
      obtain err c where rc: "archive_recover fl d1 x = (err, c)" by (cases "archive_recover fl d1 x")
      define oc where "oc = (case err of Some e \<Rightarrow> Inl e | None \<Rightarrow> Inr \<lparr>rm_name = name, rm_clients = [],
        rm_hist = \<lparr>hi_ring = new_ring (c_max_text (hc_store (sv_cfg sv))) (c_max_image_bytes (hc_store (sv_cfg sv))),
          hi_archive = x, hi_shushed = snd c, hi_last = fst c, hi_cfg = hc_store (sv_cfg sv)\<rparr>\<rparr>)"
      have H: "open_room sv fl D name = (oc, D')"
        if "open_archive fl D ?p (sv_keys sv) = (Inr x, D')" "archive_recover fl D' x = (err, c)" for D D'
        using that True by (simp add: open_room_def open_history_def oc_def split: option.split)
      from H [OF a [unfolded Inr] rc] assms have "res = oc" "d' = d1" by simp_all
      moreover from H [OF E [unfolded Inr]] R rc have "open_room sv fl e name = (oc, e(?p := d1 ?p))" by metis
      ultimately show ?thesis by metis
    qed
  qed
qed

section \<open>Only the write can fail an append\<close>

lemma append_write_only: "archive_append fl d a m = archive_append (no_faults\<lparr>fl_write := fl_write fl\<rparr>) d a m"
  by (simp add: archive_append_def)

lemma broadcast_write_only:
  "broadcast sv fl now d r c header payload =
    broadcast sv (no_faults\<lparr>fl_write := fl_write fl\<rparr>) now d r c header payload"
proof -
  have "history_append fl d h m = history_append (no_faults\<lparr>fl_write := fl_write fl\<rparr>) d h m" for h m
    unfolding history_append_def by (subst append_write_only) (rule refl)
  then show ?thesis unfolding broadcast_def by presburger
qed

section \<open>Opening when calls fail\<close>

lemma search_back_cases:
  "search_back fl k s 0 = Inr 0"
  "0 < off \<Longrightarrow> fl_op fl (IoChunk k (off - min chunk off)) \<Longrightarrow> search_back fl k s off = Inl TailReadFailed"
  "0 < off \<Longrightarrow> \<not> fl_op fl (IoChunk k (off - min chunk off)) \<Longrightarrow>
    last_newline (read_at s (off - min chunk off) (min chunk off))
      (length (read_at s (off - min chunk off) (min chunk off))) = Some i \<Longrightarrow>
    search_back fl k s off = Inr (off - min chunk off + i + 1)"
  "0 < off \<Longrightarrow> \<not> fl_op fl (IoChunk k (off - min chunk off)) \<Longrightarrow>
    last_newline (read_at s (off - min chunk off) (min chunk off))
      (length (read_at s (off - min chunk off) (min chunk off))) = None \<Longrightarrow>
    search_back fl k s off = search_back fl k s (off - min chunk off)"
  by (subst search_back.simps, simp add: Let_def)+

lemma search_back_succeeds: "search_back fl k s off = Inr x \<Longrightarrow> search_back no_faults k' s off = Inr x"
proof (induction off rule: less_induct)
  case (less off)
  let ?n = "min chunk off"
  let ?buf = "read_at s (off - ?n) ?n"
  have nf: "\<not> fl_op no_faults io" for io by simp
  show ?case
  proof (cases "off = 0")
    case True
    with less.prems show ?thesis by (simp add: search_back_cases(1))
  next
    case False
    then have off: "0 < off" by simp
    have ok: "\<not> fl_op fl (IoChunk k (off - ?n))"
      using less.prems search_back_cases(2) [OF off, of fl k s] by auto
    show ?thesis
    proof (cases "last_newline ?buf (length ?buf)")
      case None
      have "off - ?n < off" using off by (simp add: chunk_def)
      from less.IH [OF this] less.prems search_back_cases(4) [OF off ok None]
        search_back_cases(4) [OF off nf None, of k'] show ?thesis by simp
    next
      case (Some i)
      from less.prems search_back_cases(3) [OF off ok Some] search_back_cases(3) [OF off nf Some, of k']
      show ?thesis by simp
    qed
  qed
qed

lemma last_line_succeeds:
  assumes "last_line fl k s sz = Inr x" shows "last_line no_faults k' s sz = Inr x"
proof -
  define e where "e = (if sz > 0 \<and> s ! (sz - 1) = newline_byte then sz - 1 else sz)"
  note L = last_line_def [unfolded Let_def, of _ _ s sz, folded e_def]
  obtain start where "search_back fl k s e = Inr start" "x = (start, read_at s start (sz - start))"
    using assms unfolding L by (auto split: if_splits sum.splits)
  with search_back_succeeds [of fl k s e start k'] show ?thesis unfolding L by simp
qed

text \<open>More attempts do no harm.\<close>

lemma repair_more: "repair_tail no_faults k s = (None, s0) \<Longrightarrow> k \<le> n \<Longrightarrow> repair_tail no_faults n s = (None, s0)"
proof (induction k arbitrary: s n)
  case (Suc k)
  then obtain n' where n: "n = Suc n'" "k \<le> n'" by (cases n) auto
  show ?case
  proof (cases "last_line no_faults k s (length s)")
    case (Inl e)
    with Suc.prems(1) show ?thesis unfolding n(1) by (auto split: if_splits)
  next
    case (Inr x)
    with last_line_succeeds [OF Inr, of n'] Suc.prems(1) Suc.IH [OF _ n(2)] show ?thesis
      unfolding n(1) by (auto simp: Let_def split: if_splits prod.splits)
  qed
qed simp

text \<open>A repair under failures ends as the one without, or leaves something that it repairs.\<close>

lemma repair_faults:
  assumes "repair_tail no_faults k s = (None, s0)" "repair_tail fl k s = (e, s')"
  shows "if e = None then s' = s0 else repair_tail no_faults k s' = (None, s0)"
  using assms
proof (induction k arbitrary: s)
  case (Suc k)
  show ?case
  proof (cases "fl_op fl (IoStat k) \<or> length s = 0")
    case True
    with Suc.prems show ?thesis by (auto split: if_splits)
  next
    case False
    show ?thesis
    proof (cases "last_line fl k s (length s)")
      case (Inl err)
      with False Suc.prems show ?thesis by auto
    next
      case (Inr x)
      obtain start line where x: "x = (start, line)" by (cases x)
      let ?ok = "line \<noteq> [] \<and> last line = newline_byte \<and> json_valid (butlast line)"
      note nf = last_line_succeeds [OF Inr, of k]
      show ?thesis
      proof (cases "?ok \<or> fl_op fl (IoTruncate k)")
        case True
        with Suc.prems False Inr nf x show ?thesis by (auto simp: Let_def split: if_splits)
      next
        case go: False
        then have "repair_tail no_faults k (take start s) = (None, s0)" "repair_tail fl k (take start s) = (e, s')"
          using Suc.prems False Inr nf x by (auto simp: Let_def split: if_splits)
        from Suc.IH [OF this] show ?thesis using repair_more [of k s' s0 "Suc k"] by (auto split: if_splits)
      qed
    qed
  qed
qed simp

lemma recover_succeeds:
  assumes "archive_recover fl d a = (None, r)"
  shows "archive_recover no_faults d a = (None, r)"
proof -
  have fin: "fst (scan_records recover_step ls st)" for ls st
    by (induction ls arbitrary: st) (auto simp: recover_step_def split: sum.splits)
  with assms show ?thesis
    by (auto simp: archive_recover_def archive_scan_def Let_def case_prod_beta split: option.splits if_splits)
qed

lemma open_archive_faults:
  assumes "open_archive no_faults d p keys = (Inr a, d0)" "open_archive fl d p keys = (res, d')"
  shows "case res of Inr a' \<Rightarrow> a' = a \<and> d' = d0
    | Inl e \<Rightarrow> open_archive no_faults d' p keys = (Inr a, d0)"
proof (cases "fl_op fl IoOpen")
  case True
  with assms show ?thesis by (auto simp: open_archive_def)
next
  case False
  let ?s = "case d p of None \<Rightarrow> [] | Some s \<Rightarrow> s"
  obtain s0 where s0: "repair_tail no_faults repair_attempts ?s = (None, s0)" "d0 = d(p \<mapsto> s0)"
    "a = \<lparr>a_path = p, a_keys = keys\<rparr>"
    using assms(1) by (auto simp: open_archive_def Let_def split: prod.splits option.splits)
  obtain e s' where s': "repair_tail fl repair_attempts ?s = (e, s')"
    by (cases "repair_tail fl repair_attempts ?s")
  from repair_faults [OF s0(1) s'] assms(2) False s' s0(2,3) show ?thesis
    by (cases e) (auto simp: open_archive_def Let_def)
qed

lemma open_room_faults:
  assumes "open_room sv no_faults d name = (Inr r, d0)" "open_room sv fl d name = (res, d')"
  shows "case res of Inr r' \<Rightarrow> r' = r \<and> d' = d0
    | Inl e \<Rightarrow> d' = d0 \<or> open_room sv no_faults d' name = (Inr r, d0)"
proof -
  obtain a where v: "validate_room_name name = None"
    and a: "open_archive no_faults d (room_path name) (sv_keys sv) = (Inr a, d0)"
    using assms(1) by (auto simp: open_room_def open_history_def split: option.splits sum.splits prod.splits)
  obtain res1 d1 where f: "open_archive fl d (room_path name) (sv_keys sv) = (res1, d1)"
    by (cases "open_archive fl d (room_path name) (sv_keys sv)")
  note af = open_archive_faults [OF a f]
  show ?thesis
  proof (cases "fl_op fl IoMkdir")
    case True
    with assms v show ?thesis by (auto simp: open_room_def open_history_def)
  next
    case False
    show ?thesis
    proof (cases res1)
      case (Inl e)
      then have "open_archive no_faults d1 (room_path name) (sv_keys sv) = (Inr a, d0)" using af by simp
      moreover have "d' = d1" "\<exists>e. res = Inl e"
        using assms(2) v False f Inl by (auto simp: open_room_def open_history_def)
      ultimately show ?thesis using assms(1) a v by (auto simp: open_room_def open_history_def)
    next
      case (Inr a')
      then have "a' = a" "d1 = d0" using af by simp_all
      with assms v False a f Inr recover_succeeds [of fl d0 a] show ?thesis
        by (auto simp: open_room_def open_history_def split: prod.splits option.splits)
    qed
  qed
qed

end
