(* ===== verification/Lifetime.thy ===== *)
theory Lifetime
  imports OpenFaults
begin

text \<open>
  A room over its whole life: opened, taking turns, failing in the middle of a write or crashing
  between turns, and opened again from the file it left. It composes the turns of theory \<open>Room\<close> with
  the recovery of theories \<open>History\<close> and \<open>Archive\<close>; a run remembers the sequences announced to the
  rest of the server, which are those of the messages sent out.

  Assumed of the environment: any call of the operating system may fail, at any time, in an open room or
  while it is opened; a failed write leaves any part of the line, the other failures change nothing;
  frames are those the JSON decoder gives, with a mime type that fits a record (see
  \<open>long_mime_bricks_room\<close> for what happens without that), and the text limit is within what a record
  can hold; and the counter has not come to the end of the 64 bits.
\<close>

section \<open>Steps\<close>

definition frame_fits :: "client_frame \<Rightarrow> bool" where
  "frame_fits f \<longleftrightarrow> frame_ok f \<and> 36 * length (f_mime f) \<le> 1000000"

fun event_fits :: "room_event \<Rightarrow> bool" where
  "event_fits (Request c f) = frame_fits f"
| "event_fits _ = True"

fun announced :: "action list \<Rightarrow> u64 list" where
  "announced [] = []"
| "announced (Activity name q # acts) = q # announced acts"
| "announced (a # acts) = announced acts"

text \<open>The disk, the room if it is open, the sequences announced so far.\<close>

type_synonym life = "fs \<times> room option \<times> u64 list"

inductive life_step :: "server \<Rightarrow> string \<Rightarrow> life \<Rightarrow> life \<Rightarrow> bool" for sv name where
  turn: "room_turn sv fl now d r ev = Some (ro, d', acts) \<Longrightarrow> int64_range now \<Longrightarrow>
    event_fits ev \<Longrightarrow> hi_last (rm_hist r) \<noteq> - 1 \<Longrightarrow>
    life_step sv name (d, Some r, qs) (d', ro, qs @ announced acts)"
| reopen: "open_room sv fl d name = (Inr r, d') \<Longrightarrow> life_step sv name (d, None, qs) (d', Some r, qs)"
| open_fails: "open_room sv fl d name = (Inl e, d') \<Longrightarrow> life_step sv name (d, None, qs) (d', None, qs)"
| crash: "life_step sv name (d, Some r, qs) (d, None, qs)"

inductive_cases life_stepE: "life_step sv name s t"

lemma announced_append [simp]: "announced (xs @ ys) = announced xs @ announced ys"
  by (induction xs rule: announced.induct) auto

lemma announced_sends [simp]:
  "announced (map (\<lambda>cl. Send cl (w cl)) cs) = []" "announced (map (\<lambda>m. Send c (v m)) ms) = []"
  "announced (map (\<lambda>c. KillClient c code reason) cs) = []"
proof -
  show "announced (map (\<lambda>cl. Send cl (w cl)) cs) = []" by (induction cs) auto
  show "announced (map (\<lambda>m. Send c (v m)) ms) = []" by (induction ms) auto
  show "announced (map (\<lambda>c. KillClient c code reason) cs) = []" by (induction cs) auto
qed

section \<open>A turn, as a broadcast or as nothing\<close>

definition quiet :: "fs \<Rightarrow> room \<Rightarrow> room_result \<Rightarrow> bool" where
  "quiet d r res \<longleftrightarrow> (\<forall>e d' r' acts. res = Some (e, d', r', acts) \<longrightarrow>
     e = None \<and> d' = d \<and> r' = r \<and> announced acts = [])"

text \<open>The result of a handler as a function of the faults: a broadcast, the same whatever fails.\<close>

definition broadcasts :: "server \<Rightarrow> int \<Rightarrow> fs \<Rightarrow> room \<Rightarrow> (faults \<Rightarrow> room_result) \<Rightarrow> bool" where
  "broadcasts sv now d r res \<longleftrightarrow> (\<exists>c header payload. (\<forall>fl. res fl = broadcast sv fl now d r c header payload) \<and>
     header_fields_ok r header \<and> payload \<noteq> [] \<and> utf8_valid payload \<and> record_fits header payload)"

lemma broadcastsI:
  "(\<And>fl. res fl = broadcast sv fl now d r c header payload) \<Longrightarrow> header_fields_ok r header \<Longrightarrow>
    payload \<noteq> [] \<Longrightarrow> utf8_valid payload \<Longrightarrow> record_fits header payload \<Longrightarrow> broadcasts sv now d r res"
  unfolding broadcasts_def by blast

definition effect :: "server \<Rightarrow> int \<Rightarrow> fs \<Rightarrow> room \<Rightarrow> (faults \<Rightarrow> room_result) \<Rightarrow> bool" where
  "effect sv now d r res \<longleftrightarrow> (\<forall>fl. quiet d r (res fl)) \<or> broadcasts sv now d r res"

lemma quiet_refuse [simp]: "quiet d r (refuse d r c msg)"
  by (simp add: quiet_def refuse_def)

lemma quiet_same [simp]: "quiet d r (Some (None, d, r, []))"
  by (simp add: quiet_def)

lemma effect_quiet: "(\<And>fl. quiet d r (res fl)) \<Longrightarrow> effect sv now d r res"
  by (simp add: effect_def)

lemma effect_broadcast:
  "(\<And>fl. res fl = broadcast sv fl now d r c header payload) \<Longrightarrow> header_fields_ok r header \<Longrightarrow>
    payload \<noteq> [] \<Longrightarrow> utf8_valid payload \<Longrightarrow> record_fits header payload \<Longrightarrow> effect sv now d r res"
  unfolding effect_def by (blast intro: broadcastsI)

lemma publish_effect:
  assumes "validate_room_name (rm_name r) = None" "hc_max_text (sv_cfg sv) \<le> 160000" "frame_fits f"
  shows "effect sv now d r (\<lambda>fl. publish sv fl now d r c f)"
proof (cases "clean_nick (f_nick f)")
  case (Inr nick)
  have f: "utf8_valid (f_p f)" "utf8_valid (f_mime f)" "int64_range (f_w f)" "int64_range (f_h f)"
    "36 * length (f_mime f) \<le> 1000000"
    using assms(3) by (simp_all add: frame_fits_def frame_ok_def)
  let ?t = "zero_header\<lparr>h_room := rm_name r, h_nick := nick, h_kind := kind_text\<rparr>"
  let ?i = "zero_header\<lparr>h_room := rm_name r, h_nick := nick, h_kind := kind_image,
    h_mime := f_mime f, h_w := f_w f, h_h := f_h f\<rparr>"
  have t: "header_fields_ok r ?t"
    using text_header_ok [OF Inr, of kind_text r "[]" 0 0] assms(1) by (simp add: int64_range_def zero_header_def)
  have i: "header_fields_ok r ?i" if "f_mime f \<noteq> []"
    using text_header_ok [OF Inr _ assms(1), of kind_image "f_mime f" "f_w f" "f_h f"] f that by simp
  have fits: "record_fits ?i (f_p f)" using f(5) by (simp add: record_fits_def)
  let ?plain = "f_kind f = kind_text \<and> f_p f \<noteq> [] \<and> int (length (f_p f)) \<le> hc_max_text (sv_cfg sv)"
  let ?image = "f_kind f = kind_image \<and> f_p f \<noteq> [] \<and> int (length (f_p f)) \<le> hc_image_max (sv_cfg sv) \<and> f_mime f \<noteq> []"
  consider ?plain | ?image | "\<not> ?plain" "\<not> ?image" by blast
  then show ?thesis
  proof cases
    case 1
    then have "record_fits ?t (f_p f)" using assms(2) by (simp add: record_fits_def zero_header_def)
    moreover have "publish sv fl now d r c f = broadcast sv fl now d r c ?t (f_p f)" for fl
      using 1 Inr f(1) by (simp add: publish_def Let_def)
    ultimately show ?thesis using t f(1) 1 by (intro effect_broadcast) simp_all
  next
    case 2
    then have "publish sv fl now d r c f = broadcast sv fl now d r c ?i (f_p f)" for fl
      using Inr by (simp add: publish_def Let_def kinds_distinct)
    with i fits f(1) 2 show ?thesis by (intro effect_broadcast) simp_all
  next
    case 3
    then have "quiet d r (publish sv fl now d r c f)" for fl
      using Inr f(1) by (auto simp: publish_def Let_def not_le)
    then show ?thesis by (rule effect_quiet)
  qed
qed (simp add: publish_def effect_quiet)

lemma shush_effect:
  assumes "validate_room_name (rm_name r) = None"
  shows "effect sv now d r (\<lambda>fl. shush sv fl now d r c f)"
proof (cases "clean_nick (f_nick f)")
  case (Inr nick)
  let ?h = "zero_header\<lparr>h_room := rm_name r, h_nick := nick, h_kind := kind_shush\<rparr>"
  have h: "header_fields_ok r ?h"
    using text_header_ok [OF Inr, of kind_shush r "[]" 0 0] assms by (simp add: int64_range_def zero_header_def)
  have fits: "record_fits ?h (marshal_shush (f_seq f))"
    using length_marshal_shush [of "f_seq f"] by (simp add: record_fits_def zero_header_def)
  show ?thesis
  proof (cases "f_seq f = 0 \<or> last_seq (rm_hist r) < f_seq f \<or> is_shushed (rm_hist r) (f_seq f)")
    case True
    then have "quiet d r (shush sv fl now d r c f)" for fl using Inr by (auto simp: shush_def)
    then show ?thesis by (rule effect_quiet)
  next
    case False
    then have "shush sv fl now d r c f = broadcast sv fl now d r c ?h (marshal_shush (f_seq f))" for fl
      using Inr by (simp add: shush_def)
    with h fits show ?thesis by (intro effect_broadcast) simp_all
  qed
qed (simp add: shush_def effect_quiet)

lemma backfill_effect: "quiet d r (backfill sv fl d r c f)"
  by (auto simp: backfill_def quiet_def refuse_def deliver_def split: option.splits)

lemma handle_effect:
  assumes "validate_room_name (rm_name r) = None" "hc_max_text (sv_cfg sv) \<le> 160000" "frame_fits f"
  shows "effect sv now d r (\<lambda>fl. handle sv fl now d r c f)"
proof -
  consider "f_t f = frame_send" | "f_t f = frame_shush" "f_t f \<noteq> frame_send"
    | "f_t f \<noteq> frame_send" "f_t f \<noteq> frame_shush" by blast
  then show ?thesis
  proof cases
    case 1
    with publish_effect [OF assms] show ?thesis by (simp add: handle_def)
  next
    case 2
    with shush_effect [OF assms(1)] show ?thesis by (simp add: handle_def)
  next
    case 3
    then show ?thesis by (intro effect_quiet) (simp add: handle_def backfill_effect)
  qed
qed

section \<open>The invariant of a life\<close>

definition records :: "room \<Rightarrow> string \<Rightarrow> message list \<Rightarrow> u64 list \<Rightarrow> bool" where
  "records r name ms qs \<longleftrightarrow> rm_name r = name \<and> subseq qs (map m_seq ms)"

definition restarts :: "server \<Rightarrow> string \<Rightarrow> fs \<Rightarrow> u64 list \<Rightarrow> bool" where
  "restarts sv name d qs \<longleftrightarrow> (\<exists>r d' ms. open_room sv no_faults d name = (Inr r, d') \<and>
     room_inv sv d' r ms \<and> records r name ms qs)"

definition life_inv :: "server \<Rightarrow> string \<Rightarrow> life \<Rightarrow> bool" where
  "life_inv sv name = (\<lambda>(d, ro, qs). case ro of
     None \<Rightarrow> restarts sv name d qs
   | Some r \<Rightarrow> \<exists>ms. room_inv sv d r ms \<and> records r name ms qs)"

lemma room_inv_ascending: "room_inv sv d r ms \<Longrightarrow> sorted_wrt (<) (map m_seq ms)"
  using room_inv_facts(1) history_inv_facts(1) archive_log.holds_ascending
  by (fastforce simp: sorted_wrt_map)

lemma subseq_sorted_wrt: "subseq xs ys \<Longrightarrow> sorted_wrt P ys \<Longrightarrow> sorted_wrt P xs"
  by (induction rule: list_emb.induct) (auto dest: list_emb_set)

lemma subseq_set: "subseq xs ys \<Longrightarrow> set xs \<subseteq> set ys"
  by (induction rule: list_emb.induct) auto

text \<open>What an open room has on its disk opens again.\<close>

lemma room_restarts:
  assumes "room_inv sv d r ms" "records r name ms qs"
  shows "restarts sv name d qs"
proof -
  note R = room_inv_facts [OF assms(1)]
  have name: "rm_name r = name" using assms(2) by (simp add: records_def)
  obtain h where h: "open_history no_faults d name (hc_store (sv_cfg sv)) (sv_keys sv) = (Inr h, d)"
    "history_inv (sv_crypto sv) d h (map archival ms)" "hi_last h = fold max (map m_seq ms) 0"
    "hi_archive h = \<lparr>a_path = room_path name, a_keys = sv_keys sv\<rparr>"
    using open_history_spec [of name "hi_archive (rm_hist r)" "sv_keys sv" "sv_crypto sv" d ms]
      history_inv_facts(1) [OF R(1)] R(3,4) name by metis
  let ?r = "\<lparr>rm_name = name, rm_clients = [], rm_hist = h\<rparr>"
  have "open_room sv no_faults d name = (Inr ?r, d)" using h(1) by (simp add: open_room_def)
  moreover have "room_inv sv d ?r (map archival ms)"
    using h(2-4) R(4,6) name by (simp add: room_inv_def comp_def)
  moreover have "records ?r name (map archival ms) qs" using assms(2) by (simp add: records_def comp_def)
  ultimately show ?thesis unfolding restarts_def by blast
qed

lemma room_inv_clients:
  "room_inv sv d r ms \<Longrightarrow> distinct cs \<Longrightarrow> room_inv sv d (r\<lparr>rm_clients := cs\<rparr>) ms"
  by (simp add: room_inv_def)

lemma records_clients [simp]: "records (r\<lparr>rm_clients := cs\<rparr>) name ms qs = records r name ms qs"
  by (simp add: records_def)

lemma join_keeps:
  assumes "join sv fl d r c since = Some (r', acts)" "room_inv sv d r ms" "records r name ms qs"
  shows "room_inv sv d r' ms \<and> records r' name ms (qs @ announced acts)"
proof -
  have "r' = r\<lparr>rm_clients := List.insert c (rm_clients r)\<rparr>" "announced acts = []"
    using assms(1) by (auto simp: join_def deliver_def Let_def split: option.splits)
  with assms(2,3) show ?thesis
    using room_inv_facts(5) [OF assms(2)] by (simp add: room_inv_clients)
qed

lemma records_snoc: "records r name ms qs \<Longrightarrow> records (r\<lparr>rm_hist := h\<rparr>) name (ms @ [m]) (qs @ [m_seq m])"
  using list_emb_append_mono [of "(=)" qs "map m_seq ms" "[m_seq m]" "[m_seq m]"] by (simp add: records_def)

lemma broadcast_life:
  assumes "room_inv sv d r ms" "records r name ms qs" "server_ok sv" "hi_last (rm_hist r) \<noteq> - 1"
    and "int64_range now" "broadcasts sv now d r res" "res fl = Some (e, d', r', acts)"
  shows "case e of None \<Rightarrow> \<exists>ms. room_inv sv d' r' ms \<and> records r' name ms (qs @ announced acts)
    | Some _ \<Rightarrow> restarts sv name d' (qs @ announced acts)"
proof -
  obtain c header payload where b: "Some (e, d', r', acts) = broadcast sv fl now d r c header payload"
    and fields: "header_fields_ok r header" "payload \<noteq> []" "utf8_valid payload" "record_fits header payload"
    using assms(6,7) unfolding broadcasts_def by metis
  have name: "rm_name r = name" and sub: "subseq qs (map m_seq ms)" using assms(2) by (simp_all add: records_def)
  show ?thesis
  proof (cases "fl_write fl")
    case None
    then have nf: "no_faults\<lparr>fl_write := fl_write fl\<rparr> = no_faults" by (simp add: no_faults_def)
    obtain m where "broadcast_done sv r ms m (Some (e, d', r', acts))"
      using broadcast_spec [OF assms(1,3-5) fields, of c] unfolding b broadcast_write_only [of sv fl] nf by blast
    then obtain h' where h': "e = None" "r' = r\<lparr>rm_hist := h'\<rparr>" "room_inv sv d' r' (ms @ [m])"
      "announced acts = [m_seq m]" by (auto simp: broadcast_done_def)
    have "records r' name (ms @ [m]) (qs @ announced acts)"
      unfolding h'(2,4) using assms(2) by (rule records_snoc)
    with h'(1,3) show ?thesis by auto
  next
    case (Some n)
    from broadcast_write_fails [OF assms(1,3-5) fields, of n c] b broadcast_write_only [of sv fl] Some
    obtain r'' d'' ms'' where o: "e = Some AppendFailed" "acts = []"
      "open_room sv no_faults d' name = (Inr r'', d'')" "room_inv sv d'' r'' ms''"
      "ms'' = map archival ms \<or> (\<exists>m. ms'' = map archival (ms @ [m]))" unfolding name by fastforce
    have "map m_seq ms'' = map m_seq ms \<or> (\<exists>m. map m_seq ms'' = map m_seq ms @ [m_seq m])"
      using o(5) by (auto simp: comp_def)
    then have "subseq qs (map m_seq ms'')" using sub by (auto intro: subseq_rev_drop_many)
    moreover have "rm_name r'' = name" using o(3) by (auto simp: open_room_def split: sum.splits prod.splits)
    ultimately show ?thesis using o(1-4) by (auto simp: restarts_def records_def)
  qed
qed

lemma turn_keeps:
  assumes "room_turn sv fl now d r ev = Some (ro, d', acts)" "int64_range now"
    and "event_fits ev" "hi_last (rm_hist r) \<noteq> - 1" "server_ok sv" "hc_max_text (sv_cfg sv) \<le> 160000"
    and inv: "room_inv sv d r ms" "records r name ms qs"
  shows "life_inv sv name (d', ro, qs @ announced acts)"
proof (cases ev)
  case Shutdown
  with assms(1) room_restarts [OF inv] show ?thesis by (simp add: room_turn_def life_inv_def)
next
  case (Register c since)
  with assms(1) show ?thesis
    using join_keeps [OF _ inv, of fl c since] by (auto simp: room_turn_def life_inv_def split: option.splits)
next
  case (Unregister c)
  with assms(1) have "ro = Some (r\<lparr>rm_clients := remove1 c (rm_clients r)\<rparr>)" "d' = d" "acts = []"
    by (simp_all add: room_turn_def)
  moreover have "room_inv sv d (r\<lparr>rm_clients := remove1 c (rm_clients r)\<rparr>) ms"
    using room_inv_clients [OF inv(1)] room_inv_facts(5) [OF inv(1)] by simp
  ultimately show ?thesis using inv(2) by (auto simp: life_inv_def)
next
  case (Request c f)
  obtain e d1 r1 acts1 where h: "handle sv fl now d r c f = Some (e, d1, r1, acts1)"
    using assms(1) Request by (cases "handle sv fl now d r c f") (auto simp: room_turn_def)
  then have ro: "d' = d1" "ro = (if e = None then Some r1 else None)" "announced acts = announced acts1"
    using assms(1) Request by (auto simp: room_turn_def fail_fatal_def split: option.splits)
  have "frame_fits f" using assms(3) Request by simp
  from handle_effect [OF room_inv_facts(4) [OF inv(1)] assms(6) this, of now d c]
  consider "quiet d r (handle sv fl now d r c f)" | "broadcasts sv now d r (\<lambda>fl. handle sv fl now d r c f)"
    unfolding effect_def by blast
  then show ?thesis
  proof cases
    case 1
    with inv ro h show ?thesis by (auto simp: quiet_def life_inv_def)
  next
    case 2
    from broadcast_life [OF inv assms(5,4,2) 2 h] ro show ?thesis
      by (cases e) (auto simp: life_inv_def)
  qed
qed

text \<open>An attempt to open, whatever fails in it.\<close>

lemma open_keeps:
  assumes "restarts sv name d qs" "open_room sv fl d name = (res, d')"
  shows "life_inv sv name (d', case res of Inr r \<Rightarrow> Some r | Inl e \<Rightarrow> None, qs)"
proof -
  obtain r d0 ms where o: "open_room sv no_faults d name = (Inr r, d0)" and inv: "room_inv sv d0 r ms"
    "records r name ms qs" using assms(1) by (auto simp: restarts_def)
  show ?thesis
  proof (cases res)
    case (Inr r')
    with open_room_faults [OF o assms(2)] inv show ?thesis by (auto simp: life_inv_def)
  next
    case (Inl e)
    with open_room_faults [OF o assms(2)] consider "d' = d0" | "open_room sv no_faults d' name = (Inr r, d0)" by auto
    then have "restarts sv name d' qs"
      by cases (use room_restarts [OF inv] inv in \<open>auto simp: restarts_def\<close>)
    with Inl show ?thesis by (simp add: life_inv_def)
  qed
qed

text \<open>The life of a room under a server fit for it.\<close>

definition life_server :: "server \<Rightarrow> bool" where
  "life_server sv \<longleftrightarrow> server_ok sv \<and> hc_max_text (sv_cfg sv) \<le> 160000"

lemma life_inv_step:
  assumes "life_inv sv name s" "life_step sv name s t" "life_server sv"
  shows "life_inv sv name t"
  using assms(2,1)
proof cases
  case (turn fl now d r ev ro d' acts qs)
  with assms(1) obtain ms where "room_inv sv d r ms" "records r name ms qs" by (auto simp: life_inv_def)
  with turn assms(3) show ?thesis by (simp add: life_server_def turn_keeps)
next
  case (reopen fl d r d' qs)
  with assms(1) open_keeps [OF _ reopen(3)] show ?thesis by (simp add: life_inv_def)
next
  case (open_fails fl d e d' qs)
  with assms(1) open_keeps [OF _ open_fails(3)] show ?thesis by (simp add: life_inv_def)
next
  case (crash d r qs)
  with assms(1) show ?thesis by (auto simp: life_inv_def intro: room_restarts)
qed

text \<open>A room that has never been opened: there is no file.\<close>

definition life_start :: "server \<Rightarrow> string \<Rightarrow> life \<Rightarrow> bool" where
  "life_start sv name s \<longleftrightarrow> life_server sv \<and> validate_room_name name = None \<and>
     (\<exists>d. d (room_path name) = None \<and> s = (d, None, []))"

lemma fresh_room:
  assumes "d (room_path name) = None" "validate_room_name name = None"
  obtains r d' where "open_room sv no_faults d name = (Inr r, d')" "room_inv sv d' r []" "rm_name r = name"
    "hi_last (rm_hist r) = 0"
proof -
  let ?a = "\<lparr>a_path = room_path name, a_keys = sv_keys sv\<rparr>"
  let ?d = "d(room_path name \<mapsto> [])"
  have "open_archive no_faults d (room_path name) (sv_keys sv) = (Inr ?a, ?d)"
    using assms(1) repair_tail_log [of "[]" 7] by (simp add: open_archive_def repair_attempts_def)
  moreover have "log_holds (sv_crypto sv) ?a ?d (map archival [])" by (simp add: log_holds_def ascending_def)
  ultimately obtain h where h: "open_history no_faults d name (hc_store (sv_cfg sv)) (sv_keys sv) = (Inr h, ?d)"
    "history_inv (sv_crypto sv) ?d h (map archival [])" "hi_last h = fold max (map m_seq []) 0" "hi_archive h = ?a"
    using open_history_repaired [OF assms(2) refl] by blast
  let ?r = "\<lparr>rm_name = name, rm_clients = [], rm_hist = h\<rparr>"
  have "open_room sv no_faults d name = (Inr ?r, ?d)" using h(1) by (simp add: open_room_def)
  moreover have "room_inv sv ?d ?r []" using h(2-4) assms(2) by (simp add: room_inv_def)
  moreover have "hi_last (rm_hist ?r) = 0" using h(3) by simp
  ultimately show thesis using that [of ?r ?d] by simp
qed

lemma open_fresh:
  assumes "d (room_path name) = None" "validate_room_name name = None"
  shows "restarts sv name d []"
  by (rule fresh_room [where d = d and name = name and sv = sv, OF assms]) (auto simp: restarts_def records_def)

lemma life_inv_run:
  assumes "(life_step sv name)\<^sup>*\<^sup>* s t" "life_inv sv name s" "life_server sv"
  shows "life_inv sv name t"
  using assms by (induction rule: rtranclp_induct) (auto intro: life_inv_step)

section \<open>Properties\<close>

text \<open>C4: a write that fails. Take any frame that would publish a message, be it a text, an image or a
  shush marker, with a mime type of at most 27777 bytes and a text limit of at most 160000 (so that the
  record fits an archive line). When the write of that message stops after any number of bytes, whatever else
  fails, the message is sent to nobody: the room closes, asks to be forgotten and kills all its clients.
  Reopening it from the disk left behind succeeds and restores the room's invariant for the messages
  before it, or with the message when all of it had been written; in either case numbering resumes
  without a gap.\<close>

theorem failed_write_closes_room:
  assumes "room_inv sv d r ms" "server_ok sv" "hi_last (rm_hist r) \<noteq> - 1" "int64_range now"
    and "frame_fits f" "hc_max_text (sv_cfg sv) \<le> 160000"
    and "handle sv no_faults now d r c f = Some (None, d0, r0, acts0)" "announced acts0 \<noteq> []"
    and "fl_write fl = Some n"
  shows "\<exists>d' r'' d'' ms''.
    room_turn sv fl now d r (Request c f) =
      Some (None, d', Evict (rm_name r) #
        map (\<lambda>c. KillClient c close_server_error ''room archive unavailable'') (rm_clients r)) \<and>
    open_room sv no_faults d' (rm_name r) = (Inr r'', d'') \<and> room_inv sv d'' r'' ms'' \<and>
    (ms'' = map archival ms \<or>
      (\<exists>m. ms'' = map archival (ms @ [m]) \<and> m_seq m = hi_last (rm_hist r) + 1))"
proof -
  have "\<not> quiet d r (handle sv no_faults now d r c f)" using assms(7,8) by (simp add: quiet_def)
  with handle_effect [OF room_inv_facts(4) [OF assms(1)] assms(6,5), of now d c]
  have "broadcasts sv now d r (\<lambda>fl. handle sv fl now d r c f)" unfolding effect_def by blast
  then obtain c' header payload where b: "\<forall>fl. handle sv fl now d r c f = broadcast sv fl now d r c' header payload"
    and fields: "header_fields_ok r header" "payload \<noteq> []" "utf8_valid payload" "record_fits header payload"
    unfolding broadcasts_def by blast
  from broadcast_write_fails [OF assms(1-4) fields, of n c']
  obtain d' r' r'' d'' ms'' where
    w: "broadcast sv (no_faults\<lparr>fl_write := Some n\<rparr>) now d r c' header payload = Some (Some AppendFailed, d', r', [])"
      "rm_clients r' = rm_clients r" "rm_name r' = rm_name r"
    and o: "open_room sv no_faults d' (rm_name r) = (Inr r'', d'')" "room_inv sv d'' r'' ms''"
      "ms'' = map archival ms \<or> (\<exists>m. ms'' = map archival (ms @ [m]) \<and> m_seq m = hi_last (rm_hist r) + 1)" by blast
  have "handle sv fl now d r c f = Some (Some AppendFailed, d', r', [])"
    using w(1) b broadcast_write_only [of sv fl] assms(9) by simp
  then have "room_turn sv fl now d r (Request c f) = Some (None, d', fail_fatal r')"
    by (simp add: room_turn_def)
  with w(2,3) o show ?thesis by (auto simp: fail_fatal_def)
qed

lemma sample_published:
  assumes "room_inv sample_server d r ms" "hi_last (rm_hist r) \<noteq> - 1"
  obtains d' r' acts where "handle sample_server no_faults 0 d r 1 sample_frame = Some (None, d', r', acts)"
    "announced acts = [hi_last (rm_hist r) + 1]" "hi_last (rm_hist r') = hi_last (rm_hist r) + 1"
proof -
  have f: "clean_nick (f_nick sample_frame) = Inr ''sam''" "f_kind sample_frame = kind_text"
    "f_p sample_frame = ''hi''" "f_t sample_frame = frame_send" "hc_max_text (sv_cfg sample_server) = 16384"
    using sample_nick by (simp_all add: sample_frame_def sample_server_def)
  obtain m where "broadcast_done sample_server r ms m (publish sample_server no_faults 0 d r 1 sample_frame)"
    using publish_text_spec [OF assms(1) sample_server_ok assms(2), of 0 sample_frame "''sam''" 1] f
    by (auto simp: int64_range_def)
  then obtain d' r' acts where "publish sample_server no_faults 0 d r 1 sample_frame = Some (None, d', r', acts)"
    "announced acts = [hi_last (rm_hist r) + 1]" "hi_last (rm_hist r') = hi_last (rm_hist r) + 1"
    by (auto simp: broadcast_done_def)
  then show thesis using f(4) by (intro that) (simp_all add: handle_def)
qed

lemma sample_frame_fits: "frame_fits sample_frame"
  by (simp add: sample_frame_def frame_fits_def frame_ok_def zero_frame_def frame_send_def kind_text_def int64_range_def)

theorem failed_write_closes_room_witness:
  "\<exists>d'. room_turn sample_server (no_faults\<lparr>fl_write := Some 5\<rparr>) 0 sample_disk sample_room (Request 1 sample_frame) =
    Some (None, d', [Evict ''general'', KillClient 1 4002 ''room archive unavailable'',
      KillClient 2 4002 ''room archive unavailable''])"
proof -
  have last: "hi_last (rm_hist sample_room) \<noteq> - 1" using sample_last by simp
  obtain d0 r0 acts0 where h: "handle sample_server no_faults 0 sample_disk sample_room 1 sample_frame = Some (None, d0, r0, acts0)"
    "announced acts0 = [hi_last (rm_hist sample_room) + 1]"
    by (rule sample_published [OF sample_room_inv last])
  have "announced acts0 \<noteq> []" using h(2) by simp
  note h = h(1) this
  have "int64_range 0" "hc_max_text (sv_cfg sample_server) \<le> 160000"
    by (simp_all add: int64_range_def sample_server_def)
  from failed_write_closes_room [OF sample_room_inv sample_server_ok last this(1) sample_frame_fits this(2) h,
      of "no_faults\<lparr>fl_write := Some 5\<rparr>" 5]
  show ?thesis by (auto simp: sample_room_def close_server_error_def)
qed

section \<open>What a room promises\<close>

text \<open>A sequence is announced once, and what was announced is kept. Through any life of a room that
  starts without a file, of turns, crashes and reopenings, in which any call of the operating system may
  fail: the sequences announced
  strictly increase, and the room can be opened again at that moment (after a crash, if it is open),
  with an archive of strictly increasing sequences that has all of the announced ones.\<close>

theorem announced_once_and_kept:
  assumes "(life_step sv name)\<^sup>*\<^sup>* (d0, None, []) (d, ro, qs)" "d0 (room_path name) = None"
    and "validate_room_name name = None" "server_ok sv" "hc_max_text (sv_cfg sv) \<le> 160000"
  shows "sorted_wrt (<) qs \<and> (\<exists>r d' ms. open_room sv no_faults d name = (Inr r, d') \<and>
    room_inv sv d' r ms \<and> sorted_wrt (<) (map m_seq ms) \<and> set qs \<subseteq> m_seq ` set ms)"
proof -
  have "life_inv sv name (d0, None, [])" using open_fresh [where d = d0 and name = name, OF assms(2,3)] by (simp add: life_inv_def)
  moreover have "life_server sv" using assms(4,5) by (simp add: life_server_def)
  ultimately have "life_inv sv name (d, ro, qs)" using life_inv_run [OF assms(1)] by blast
  then have "restarts sv name d qs" by (auto simp: life_inv_def intro: room_restarts split: option.splits)
  then obtain r d' ms where o: "open_room sv no_faults d name = (Inr r, d')" "room_inv sv d' r ms"
    "subseq qs (map m_seq ms)" by (auto simp: restarts_def records_def)
  have "sorted_wrt (<) (map m_seq ms)" using o(2) by (rule room_inv_ascending)
  moreover from this have "sorted_wrt (<) qs" using o(3) by (rule subseq_sorted_wrt [rotated])
  moreover have "set qs \<subseteq> m_seq ` set ms" using subseq_set [OF o(3)] by simp
  ultimately show ?thesis using o(1,2) by blast
qed

theorem announced_once_and_kept_witness:
  "\<exists>d r r' d' ms. (life_step sample_server ''general'')\<^sup>*\<^sup>* (Map.empty, None, []) (d, Some r, [1]) \<and>
    open_room sample_server no_faults d ''general'' = (Inr r', d') \<and> room_inv sample_server d' r' ms \<and>
    1 \<in> m_seq ` set ms"
proof -
  obtain r d0 where r: "open_room sample_server no_faults Map.empty ''general'' = (Inr r, d0)"
    "room_inv sample_server d0 r []" "hi_last (rm_hist r) = 0"
    by (rule fresh_room [where d = Map.empty and name = "''general''" and sv = sample_server, OF _ sample_room_valid])
      simp_all
  obtain d1 h acts where p: "handle sample_server no_faults 0 d0 r 1 sample_frame = Some (None, d1, h, acts)"
    "announced acts = [1]" by (rule sample_published [OF r(2)]) (use r(3) in simp_all)
  have "life_step sample_server ''general'' (Map.empty, None, []) (d0, Some r, [])"
    using r(1) by (rule life_step.reopen)
  moreover have "room_turn sample_server no_faults 0 d0 r (Request 1 sample_frame) = Some (Some h, d1, acts)"
    using p(1) by (simp add: room_turn_def)
  then have "life_step sample_server ''general'' (d0, Some r, []) (d1, Some h, [] @ announced acts)"
    by (rule life_step.turn) (use r(3) sample_frame_fits in \<open>simp_all add: int64_range_def\<close>)
  ultimately have run: "(life_step sample_server ''general'')\<^sup>*\<^sup>* (Map.empty, None, []) (d1, Some h, [1])"
    unfolding p(2) by (simp add: converse_rtranclp_into_rtranclp r_into_rtranclp)
  have "Map.empty (room_path ''general'') = None" "hc_max_text (sv_cfg sample_server) \<le> 160000"
    by (simp_all add: sample_server_def)
  from announced_once_and_kept [OF run this(1) sample_room_valid sample_server_ok this(2)]
  obtain r' d' ms where o: "open_room sample_server no_faults d1 ''general'' = (Inr r', d')"
    "room_inv sample_server d' r' ms" "set [1] \<subseteq> m_seq ` set ms" by blast
  then have "1 \<in> m_seq ` set ms" by simp
  with run o(1,2) show ?thesis by blast
qed

end
