(* ===== verification/Registry.thy ===== *)
theory Registry
  imports Room
begin

text \<open>
  \<^verbatim>\<open>internal/hub/registry.go\<close> and \<^verbatim>\<open>internal/hub/session.go\<close>: the registry's goroutine, which owns
  the room table and knows where every client is, and a connection's protocol state.

  A room instance is a number: a room reopened under the same name is another instance. The
  registry takes its events one at a time; what it starts, stops, sends and replies is a list of
  actions. Maps that are iterated over are association lists, in whose order the actions come.
  What a session gets back from the registry and from a room is an argument of its handlers.
\<close>

section \<open>The registry\<close>

datatype reg_cmd = AddClient nat | RemoveClient nat | LeaveRoom nat | JoinRoom nat string | EvictRoom string

datatype reg_event = Cancelled | Cmd reg_cmd | Note string u64 | Tick

datatype reg_action = StartRoom string nat | StopRoom nat | RoomReply nat nat | Ping nat string
  | KillAll nat int string

record registry =
  rg_rooms :: "(string \<times> nat) list"
  rg_last_use :: "(string \<times> int) list"
  rg_clients :: "(nat \<times> string) list"
  rg_next :: nat

definition new_registry :: registry where
  "new_registry = \<lparr>rg_rooms = [], rg_last_use = [], rg_clients = [], rg_next = 0\<rparr>"

definition registry_config :: "hub_config \<Rightarrow> hub_config" where
  "registry_config cfg = (if hc_sweep cfg \<le> 0 then cfg\<lparr>hc_sweep := 60000000000\<rparr> else cfg)"

definition reg_command :: "int \<Rightarrow> registry \<Rightarrow> reg_cmd \<Rightarrow> registry \<times> reg_action list" where
  "reg_command now g cmd =
     (case cmd of
        AddClient c \<Rightarrow> (g\<lparr>rg_clients := AList.update c [] (rg_clients g)\<rparr>, [])
      | RemoveClient c \<Rightarrow> (g\<lparr>rg_clients := AList.delete c (rg_clients g)\<rparr>, [])
      | LeaveRoom c \<Rightarrow> (g\<lparr>rg_clients := AList.update c [] (rg_clients g)\<rparr>, [])
      | JoinRoom c room \<Rightarrow>
          let (g1, i, started) =
                (case map_of (rg_rooms g) room of
                   Some i \<Rightarrow> (g, i, [])
                 | None \<Rightarrow> (g\<lparr>rg_rooms := AList.update room (rg_next g) (rg_rooms g), rg_next := Suc (rg_next g)\<rparr>,
                            rg_next g, [StartRoom room (rg_next g)]))
          in (g1\<lparr>rg_last_use := AList.update room now (rg_last_use g1),
                 rg_clients := AList.update c room (rg_clients g1)\<rparr>, started @ [RoomReply c i])
      | EvictRoom room \<Rightarrow>
          (g\<lparr>rg_rooms := AList.delete room (rg_rooms g),
             rg_last_use := AList.delete room (rg_last_use g)\<rparr>, []))"

definition occupied :: "registry \<Rightarrow> string \<Rightarrow> bool" where
  "occupied g name \<longleftrightarrow> list_ex (\<lambda>(c, room). room \<noteq> [] \<and> room = name) (rg_clients g)"

text \<open>A missing entry of \<open>lastUse\<close> is the zero time, long past.\<close>

definition swept :: "hub_config \<Rightarrow> int \<Rightarrow> registry \<Rightarrow> string \<Rightarrow> bool" where
  "swept cfg now g name \<longleftrightarrow> \<not> occupied g name \<and>
     (case map_of (rg_last_use g) name of None \<Rightarrow> True | Some t \<Rightarrow> \<not> now - t < hc_idle cfg)"

definition reg_sweep :: "hub_config \<Rightarrow> int \<Rightarrow> registry \<Rightarrow> registry \<times> reg_action list" where
  "reg_sweep cfg now g =
     (if hc_idle cfg \<le> 0 then (g, [])
      else (g\<lparr>rg_rooms := filter (\<lambda>(name, i). \<not> swept cfg now g name) (rg_rooms g),
              rg_last_use := filter (\<lambda>(name, t). \<not> (swept cfg now g name \<and> map_of (rg_rooms g) name \<noteq> None))
                               (rg_last_use g)\<rparr>,
            map (\<lambda>(name, i). StopRoom i) (filter (\<lambda>(name, i). swept cfg now g name) (rg_rooms g))))"

definition reg_note :: "int \<Rightarrow> registry \<Rightarrow> string \<Rightarrow> u64 \<Rightarrow> registry \<times> reg_action list" where
  "reg_note now g room q =
     (g\<lparr>rg_last_use := AList.update room now (rg_last_use g)\<rparr>,
      map (\<lambda>(c, current). Ping c (activity_bytes room q))
        (filter (\<lambda>(c, current). current \<noteq> room) (rg_clients g)))"

definition reg_shutdown :: "registry \<Rightarrow> reg_action list" where
  "reg_shutdown g =
     map (\<lambda>(name, i). StopRoom i) (rg_rooms g) @
     map (\<lambda>(c, current). KillAll c close_server_error ''server shutting down'') (rg_clients g)"

text \<open>One turn of \<open>Run\<close>; \<open>None\<close> when the registry has shut down.\<close>

definition reg_turn :: "hub_config \<Rightarrow> int \<Rightarrow> registry \<Rightarrow> reg_event \<Rightarrow> registry option \<times> reg_action list" where
  "reg_turn cfg now g ev =
     (case ev of
        Cancelled \<Rightarrow> (None, reg_shutdown g)
      | Cmd cmd \<Rightarrow> (let (g', acts) = reg_command now g cmd in (Some g', acts))
      | Note room q \<Rightarrow> (let (g', acts) = reg_note now g room q in (Some g', acts))
      | Tick \<Rightarrow> (let (g', acts) = reg_sweep cfg now g in (Some g', acts)))"

text \<open>\<open>Registry.Join\<close>: the name is checked before the registry is asked. \<open>closed\<close> is whether the
  registry has shut down.\<close>

datatype join_error = NameRejected store_error | RoomClosed | RoomError string

definition registry_join :: "bool \<Rightarrow> int \<Rightarrow> registry \<Rightarrow> nat \<Rightarrow> string \<Rightarrow>
    (join_error + nat) \<times> registry \<times> reg_action list" where
  "registry_join closed now g c room =
     (case validate_room_name room of
        Some e \<Rightarrow> (Inl (NameRejected e), g, [])
      | None \<Rightarrow>
          if closed then (Inl RoomClosed, g, [])
          else let (g', acts) = reg_command now g (JoinRoom c room)
               in case map_of (rg_rooms g') room of
                    Some i \<Rightarrow> (Inr i, g', acts) | None \<Rightarrow> (Inl RoomClosed, g', acts))"

section \<open>Sessions\<close>

definition join_attempts :: nat where
  "join_attempts = 3"

record session =
  se_client :: nat
  se_room :: "(string \<times> nat) option"

datatype session_action = AddToRegistry | AskRegistry string | JoinInstance nat u64
  | SubmitFrame nat client_frame | LeaveInstance nat | LeaveRegistry | RemoveFromRegistry | Tell string

definition new_session :: "nat \<Rightarrow> session \<times> session_action list" where
  "new_session c = (\<lparr>se_client = c, se_room = None\<rparr>, [AddToRegistry])"

definition close_session :: "session \<Rightarrow> session \<times> session_action list" where
  "close_session s =
     (case se_room s of
        Some (name, i) \<Rightarrow> (s\<lparr>se_room := None\<rparr>, [LeaveInstance i, RemoveFromRegistry])
      | None \<Rightarrow> (s, [RemoveFromRegistry]))"

text \<open>What the callees answer when \<open>k\<close> more attempts remain: the registry's \<open>Join\<close>, and the \<open>Join\<close>
  of the room it gave.\<close>

type_synonym answers = "nat \<Rightarrow> (join_error + nat) \<times> join_error option"

text \<open>The retry loop of \<open>join\<close>, \<open>text\<close> being an error's wording.\<close>

fun try_join :: "(join_error \<Rightarrow> string) \<Rightarrow> answers \<Rightarrow> client_frame \<Rightarrow> nat \<Rightarrow> session \<Rightarrow>
    session \<times> session_action list" where
  "try_join text ans f 0 s = (s, [Tell (error_bytes ''room unavailable, try again'')])"
| "try_join text ans f (Suc k) s =
     (case fst (ans k) of
        Inl e \<Rightarrow> (s, [AskRegistry (f_room f), Tell (error_bytes (text e))])
      | Inr i \<Rightarrow>
          (let asked = [AskRegistry (f_room f), JoinInstance i (f_since f)]
           in case snd (ans k) of
                None \<Rightarrow> (s\<lparr>se_room := Some (f_room f, i)\<rparr>, asked)
              | Some RoomClosed \<Rightarrow> (let (s', acts) = try_join text ans f k s in (s', asked @ acts))
              | Some e \<Rightarrow> (s, asked @ [Tell (error_bytes (text e))])))"

definition session_join :: "(join_error \<Rightarrow> string) \<Rightarrow> answers \<Rightarrow> session \<Rightarrow> client_frame \<Rightarrow>
    session \<times> session_action list" where
  "session_join text ans s f =
     (let (s1, left) = (case se_room s of
            Some (name, i) \<Rightarrow> (s\<lparr>se_room := None\<rparr>, [LeaveInstance i, LeaveRegistry])
          | None \<Rightarrow> (s, []));
          (s2, acts) = try_join text ans f join_attempts s1
      in (s2, left @ acts))"

definition list_rooms :: "listing \<Rightarrow> session_action list" where
  "list_rooms l =
     (case room_names l of
        Inl e \<Rightarrow> [Tell (error_bytes ''cannot list rooms'')]
      | Inr names \<Rightarrow> [Tell (rooms_bytes names)])"

definition session_handle :: "(join_error \<Rightarrow> string) \<Rightarrow> answers \<Rightarrow>
    listing \<Rightarrow> session \<Rightarrow> string \<Rightarrow> session \<times> session_action list" where
  "session_handle text ans l s raw =
     (case unmarshal_frame raw of
        None \<Rightarrow> (s, [Tell (error_bytes ''frame is not valid JSON'')])
      | Some f \<Rightarrow>
          if f_t f = frame_join then session_join text ans s f
          else if f_t f = frame_rooms then (s, list_rooms l)
          else if f_t f = frame_send \<or> f_t f = frame_shush \<or> f_t f = frame_backfill then
            (case se_room s of
               None \<Rightarrow> (s, [Tell (error_bytes ''join a room first'')])
             | Some (name, i) \<Rightarrow>
                 if f_room f \<noteq> [] \<and> f_room f \<noteq> name
                 then (s, [Tell (error_bytes ''frame targets a room this connection is not in'')])
                 else (s, [SubmitFrame i f]))
          else (s, [Tell (error_bytes (''unknown frame type '' @ f_t f))]))"
end
