(* ===== verification/Hub.thy ===== *)
theory Hub
  imports Registry
begin

text \<open>
  The goroutines of \<^verbatim>\<open>internal/hub\<close> together: the registry (one turn of \<open>reg_turn\<close> at a time), the
  room goroutines and the sessions, interleaved at the channels they meet on.

  A room instance is followed through its life (opening its archive, serving, announcing, asking to be evicted,
  draining, gone), a session through the calls it may block in. The channels are unbuffered, so
  a send and its receive are one step; but for a room's shutdown signal and the queue of activity notes,
  which a room that has published waits for while it is full. What a room does with a frame it has taken
  is reduced to whether it published and whether its archive failed; its turns are those of theory \<open>Room\<close>.

  The question the interleaving raises is whether two instances of one room can use its archive.
\<close>

section \<open>Rooms and sessions\<close>

datatype phase = Opening | Serving | Announcing u64 | FailedOpen | FailedFatal | Draining | Gone

record inst =
  in_name :: string
  in_phase :: phase
  in_stop :: bool

text \<open>Where a session is: between two frames (in a room or in none), or in a call. \<open>Leaving\<close> says what
  follows it, a join of another room or the end of the connection; \<open>Asking\<close> and \<open>Joining\<close> how many
  attempts are left.\<close>

datatype aim = Switch string | Quit

datatype at = NotConnected | Ready "(string \<times> nat) option" | Submitting string nat
  | Leaving string nat aim | TellingLeft string | Asking string nat | Joining string nat nat
  | Removing | Closed

record hub =
  hb_reg :: registry
  hb_down :: bool
  hb_inst :: "nat \<Rightarrow> inst"
  hb_conn :: "nat \<Rightarrow> at"
  hb_notes :: "(string \<times> u64) list"
  hb_done :: bool

definition hub_start :: hub where
  "hub_start = \<lparr>hb_reg = new_registry, hb_down = False,
     hb_inst = (\<lambda>i. \<lparr>in_name = [], in_phase = Gone, in_stop = False\<rparr>), hb_conn = (\<lambda>c. NotConnected),
     hb_notes = [], hb_done = False\<rparr>"

text \<open>The effect of the registry's actions on the rooms. A second shutdown signal is dropped.\<close>

fun act_on_rooms :: "reg_action list \<Rightarrow> (nat \<Rightarrow> inst) \<Rightarrow> nat \<Rightarrow> inst" where
  "act_on_rooms [] rs = rs"
| "act_on_rooms (StartRoom name i # acts) rs =
     act_on_rooms acts (rs(i := \<lparr>in_name = name, in_phase = Opening, in_stop = False\<rparr>))"
| "act_on_rooms (StopRoom i # acts) rs = act_on_rooms acts (rs(i := (rs i)\<lparr>in_stop := True\<rparr>))"
| "act_on_rooms (a # acts) rs = act_on_rooms acts rs"

text \<open>One event at the registry; once it is down, commands are taken and ignored.\<close>

definition registry_takes :: "hub_config \<Rightarrow> int \<Rightarrow> reg_event \<Rightarrow> hub \<Rightarrow> hub" where
  "registry_takes cfg now ev s =
     (if hb_down s then s
      else case reg_turn cfg now (hb_reg s) ev of
        (None, acts) \<Rightarrow> s\<lparr>hb_down := True, hb_inst := act_on_rooms acts (hb_inst s)\<rparr>
      | (Some g, acts) \<Rightarrow> s\<lparr>hb_reg := g, hb_inst := act_on_rooms acts (hb_inst s)\<rparr>)"

definition set_phase :: "nat \<Rightarrow> phase \<Rightarrow> hub \<Rightarrow> hub" where
  "set_phase i ph s = s\<lparr>hb_inst := (hb_inst s)(i := (hb_inst s i)\<lparr>in_phase := ph\<rparr>)\<rparr>"

definition set_conn :: "nat \<Rightarrow> at \<Rightarrow> hub \<Rightarrow> hub" where
  "set_conn c a s = s\<lparr>hb_conn := (hb_conn s)(c := a)\<rparr>"

abbreviation phase_of :: "hub \<Rightarrow> nat \<Rightarrow> phase" where
  "phase_of s i \<equiv> in_phase (hb_inst s i)"

text \<open>\<open>evict\<close>, which a failing room blocks in until the registry takes it or is stopping;
  \<open>notifyActivity\<close>, which queues a note, of which the registry takes the first. It waits while the queue
  is full, and may pass it by once the registry is stopping.\<close>

definition evict_room :: "hub_config \<Rightarrow> int \<Rightarrow> nat \<Rightarrow> hub \<Rightarrow> hub" where
  "evict_room cfg now i s = registry_takes cfg now (Cmd (EvictRoom (in_name (hb_inst s i)))) s"

definition activity_queue :: nat where
  "activity_queue = 256"

definition notify_activity :: "string \<Rightarrow> u64 \<Rightarrow> hub \<Rightarrow> hub" where
  "notify_activity name q s = s\<lparr>hb_notes := hb_notes s @ [(name, q)]\<rparr>"

definition take_note :: "hub_config \<Rightarrow> int \<Rightarrow> hub \<Rightarrow> hub" where
  "take_note cfg now s =
     (case hb_notes s of
        [] \<Rightarrow> s
      | (name, q) # ns \<Rightarrow> (registry_takes cfg now (Note name q) s)\<lparr>hb_notes := ns\<rparr>)"

text \<open>The end of \<open>shutdown\<close>: once the wait group has seen every started room return, the registry reports
  that it is done. Until then it takes commands and notes and ignores them.\<close>

definition rooms_gone :: "hub \<Rightarrow> bool" where
  "rooms_gone s \<longleftrightarrow> list_all (\<lambda>i. phase_of s i = Gone) [0..<rg_next (hb_reg s)]"

definition close_done :: "hub \<Rightarrow> hub" where
  "close_done s = s\<lparr>hb_done := True\<rparr>"

section \<open>The steps\<close>

text \<open>What follows a \<open>Leave\<close>.\<close>

fun after_leave :: "aim \<Rightarrow> at" where
  "after_leave (Switch name) = TellingLeft name"
| "after_leave Quit = Removing"

text \<open>The registry's \<open>Join\<close> from the session's side. While the registry is shutting down it takes the
  command and does not reply, so the session waits for it to be done.\<close>

definition ask_registry :: "hub_config \<Rightarrow> int \<Rightarrow> nat \<Rightarrow> string \<Rightarrow> nat \<Rightarrow> hub \<Rightarrow> hub" where
  "ask_registry cfg now c name k s =
     (if validate_room_name name \<noteq> None \<or> hb_down s then set_conn c (Ready None) s
      else let s' = registry_takes cfg now (Cmd (JoinRoom c name)) s
           in case map_of (rg_rooms (hb_reg s')) name of
                None \<Rightarrow> set_conn c (Ready None) s'
              | Some i \<Rightarrow> set_conn c (Joining name i k) s')"

inductive hub_step :: "hub_config \<Rightarrow> hub \<Rightarrow> hub \<Rightarrow> bool" for cfg where
  connect: "hb_conn s c = NotConnected \<Longrightarrow>
    hub_step cfg s (set_conn c (Ready None) (registry_takes cfg now (Cmd (AddClient c)) s))"
| frame_join: "hb_conn s c = Ready None \<Longrightarrow> hub_step cfg s (set_conn c (Asking name join_attempts) s)"
| frame_switch: "hb_conn s c = Ready (Some (old, i)) \<Longrightarrow>
    hub_step cfg s (set_conn c (Leaving old i (Switch name)) s)"
| frame_submit: "hb_conn s c = Ready (Some (name, i)) \<Longrightarrow> hub_step cfg s (set_conn c (Submitting name i) s)"
| hangup_out: "hb_conn s c = Ready None \<Longrightarrow> hub_step cfg s (set_conn c Removing s)"
| hangup_in: "hb_conn s c = Ready (Some (name, i)) \<Longrightarrow> hub_step cfg s (set_conn c (Leaving name i Quit) s)"
| leave: "hb_conn s c = Leaving name i aim \<Longrightarrow> phase_of s i \<in> {Serving, Draining, Gone} \<Longrightarrow>
    hub_step cfg s (set_conn c (after_leave aim) s)"
| tell_left: "hb_conn s c = TellingLeft name \<Longrightarrow>
    hub_step cfg s (set_conn c (Asking name join_attempts) (registry_takes cfg now (Cmd (LeaveRoom c)) s))"
| remove: "hb_conn s c = Removing \<Longrightarrow>
    hub_step cfg s (set_conn c Closed (registry_takes cfg now (Cmd (RemoveClient c)) s))"
| ask: "hb_conn s c = Asking name (Suc k) \<Longrightarrow>
    \<not> hb_down s \<or> hb_done s \<or> validate_room_name name \<noteq> None \<Longrightarrow>
    hub_step cfg s (ask_registry cfg now c name k s)"
| give_up: "hb_conn s c = Asking name 0 \<Longrightarrow> hub_step cfg s (set_conn c (Ready None) s)"
| joined: "hb_conn s c = Joining name i k \<Longrightarrow> phase_of s i = Serving \<Longrightarrow>
    hub_step cfg s (set_conn c (Ready (Some (name, i))) s)"
| join_refused: "hb_conn s c = Joining name i k \<Longrightarrow> phase_of s i = Draining \<Longrightarrow>
    hub_step cfg s (set_conn c (Ready None) s)"
| join_closed: "hb_conn s c = Joining name i k \<Longrightarrow> phase_of s i = Gone \<Longrightarrow>
    hub_step cfg s (set_conn c (Asking name k) s)"
| submit: "hb_conn s c = Submitting name i \<Longrightarrow> phase_of s i \<in> {Serving, Draining, Gone} \<Longrightarrow>
    hub_step cfg s (set_conn c (Ready (Some (name, i))) s)"
| submit_publish: "hb_conn s c = Submitting name i \<Longrightarrow> phase_of s i = Serving \<Longrightarrow>
    hub_step cfg s (set_conn c (Ready (Some (name, i))) (set_phase i (Announcing q) s))"
| submit_fatal: "hb_conn s c = Submitting name i \<Longrightarrow> phase_of s i = Serving \<Longrightarrow>
    hub_step cfg s (set_conn c (Ready (Some (name, i))) (set_phase i FailedFatal s))"
| opened: "phase_of s i = Opening \<Longrightarrow> hub_step cfg s (set_phase i Serving s)"
| open_failed: "phase_of s i = Opening \<Longrightarrow> hub_step cfg s (set_phase i FailedOpen s)"
| evict_open: "phase_of s i = FailedOpen \<Longrightarrow>
    hub_step cfg s (set_phase i Draining (evict_room cfg now i s))"
| evict_fatal: "phase_of s i = FailedFatal \<Longrightarrow>
    hub_step cfg s (set_phase i Gone (evict_room cfg now i s))"
| drained: "phase_of s i = Draining \<Longrightarrow> hub_step cfg s (set_phase i Gone s)"
| stopped: "phase_of s i = Serving \<Longrightarrow> in_stop (hb_inst s i) \<Longrightarrow> hub_step cfg s (set_phase i Gone s)"
| noted: "phase_of s i = Announcing q \<Longrightarrow> length (hb_notes s) < activity_queue \<Longrightarrow>
    hub_step cfg s (set_phase i Serving (notify_activity (in_name (hb_inst s i)) q s))"
| not_noted: "phase_of s i = Announcing q \<Longrightarrow> hb_down s \<Longrightarrow> hub_step cfg s (set_phase i Serving s)"
| note_taken: "hub_step cfg s (take_note cfg now s)"
| tick: "hub_step cfg s (registry_takes cfg now Tick s)"
| cancel: "hub_step cfg s (registry_takes cfg now Cancelled s)"
| finished: "hb_down s \<Longrightarrow> rooms_gone s \<Longrightarrow> hub_step cfg s (close_done s)"

inductive_cases hub_stepE: "hub_step cfg s t"

section \<open>The invariant\<close>

text \<open>A session that holds an instance: it is in it, or in a call to it.\<close>

fun holds :: "at \<Rightarrow> (string \<times> nat) option" where
  "holds (Ready r) = r"
| "holds (Submitting name i) = Some (name, i)"
| "holds (Leaving name i aim) = Some (name, i)"
| "holds (Joining name i k) = Some (name, i)"
| "holds a = None"

abbreviation room_of :: "hub \<Rightarrow> string \<Rightarrow> nat option" where
  "room_of s \<equiv> map_of (rg_rooms (hb_reg s))"

abbreviation where_is :: "hub \<Rightarrow> nat \<Rightarrow> string option" where
  "where_is s \<equiv> map_of (rg_clients (hb_reg s))"

definition live :: "phase \<Rightarrow> bool" where
  "live ph \<longleftrightarrow> ph \<notin> {Draining, Gone}"

definition table_ok :: "hub \<Rightarrow> bool" where
  "table_ok s \<longleftrightarrow> distinct (map fst (rg_rooms (hb_reg s))) \<and>
     (\<forall>name i. room_of s name = Some i \<longrightarrow> i < rg_next (hb_reg s) \<and> in_name (hb_inst s i) = name \<and>
        (\<not> hb_down s \<longrightarrow> live (phase_of s i) \<and> \<not> in_stop (hb_inst s i)))"

definition holders_ok :: "hub \<Rightarrow> bool" where
  "holders_ok s \<longleftrightarrow> (\<forall>c name i. holds (hb_conn s c) = Some (name, i) \<longrightarrow>
     i < rg_next (hb_reg s) \<and> in_name (hb_inst s i) = name \<and> name \<noteq> [] \<and>
     (live (phase_of s i) \<longrightarrow> room_of s name = Some i \<and> (\<not> hb_down s \<longrightarrow> where_is s c = Some name)))"

definition needed :: "phase \<Rightarrow> bool" where
  "needed ph \<longleftrightarrow> ph \<notin> {Serving, Draining, Gone}"

definition needed_ok :: "hub \<Rightarrow> bool" where
  "needed_ok s \<longleftrightarrow> (\<forall>i. needed (phase_of s i) \<longrightarrow> room_of s (in_name (hb_inst s i)) = Some i \<and>
     (\<exists>c. holds (hb_conn s c) = Some (in_name (hb_inst s i), i)))"

definition hub_inv :: "hub \<Rightarrow> bool" where
  "hub_inv s \<longleftrightarrow> table_ok s \<and> holders_ok s \<and> needed_ok s"

lemma hub_invI: "table_ok s \<Longrightarrow> holders_ok s \<Longrightarrow> needed_ok s \<Longrightarrow> hub_inv s"
  by (simp add: hub_inv_def)

text \<open>What unfolds a turn of the registry.\<close>

lemmas reg_simps = registry_takes_def reg_turn_def

lemma set_simps [simp]:
  "hb_reg (set_conn c a s) = hb_reg s" "hb_down (set_conn c a s) = hb_down s"
  "hb_inst (set_conn c a s) = hb_inst s" "hb_conn (set_conn c a s) c' = (if c' = c then a else hb_conn s c')"
  "hb_reg (set_phase i ph s) = hb_reg s" "hb_down (set_phase i ph s) = hb_down s"
  "hb_conn (set_phase i ph s) = hb_conn s"
  "hb_inst (set_phase i ph s) j = (if j = i then (hb_inst s i)\<lparr>in_phase := ph\<rparr> else hb_inst s j)"
  by (simp_all add: set_conn_def set_phase_def)

lemma phase_simps [simp]:
  "live Opening" "live Serving" "live (Announcing q)" "needed (Announcing q)" "live FailedOpen" "live FailedFatal" "\<not> live Draining" "\<not> live Gone"
  "needed Opening" "\<not> needed Serving" "needed FailedOpen" "needed FailedFatal" "\<not> needed Draining"
  "\<not> needed Gone"
  by (simp_all add: live_def needed_def)

text \<open>What a session's move keeps.\<close>

lemma conn_keeps [inv_intros]:
  assumes "hub_inv s" "holds a = holds (hb_conn s c)"
  shows "hub_inv (set_conn c a s)"
proof -
  have h: "holds (hb_conn (set_conn c a s) c') = holds (hb_conn s c')" for c' using assms(2) by simp
  from assms(1) show ?thesis
    unfolding hub_inv_def table_ok_def holders_ok_def needed_ok_def h by simp
qed

lemma conn_drops [inv_intros]:
  assumes "hub_inv s" "holds a = None"
    and "\<And>name i. holds (hb_conn s c) = Some (name, i) \<Longrightarrow> \<not> needed (phase_of s i)"
  shows "hub_inv (set_conn c a s)"
proof (rule hub_invI)
  show "table_ok (set_conn c a s)" using assms(1) by (simp add: hub_inv_def table_ok_def)
  show "holders_ok (set_conn c a s)" using assms(1,2) by (auto simp: hub_inv_def holders_ok_def)
  show "needed_ok (set_conn c a s)" unfolding needed_ok_def
  proof (intro allI impI)
    fix i assume "needed (phase_of (set_conn c a s) i)"
    then have n: "needed (phase_of s i)" by simp
    with assms(1) obtain c' where "room_of s (in_name (hb_inst s i)) = Some i"
      "holds (hb_conn s c') = Some (in_name (hb_inst s i), i)" by (auto simp: hub_inv_def needed_ok_def)
    moreover from this n assms(3) have "c' \<noteq> c" by blast
    ultimately show "room_of (set_conn c a s) (in_name (hb_inst (set_conn c a s) i)) = Some i \<and>
      (\<exists>c'. holds (hb_conn (set_conn c a s) c') = Some (in_name (hb_inst (set_conn c a s) i), i))"
      by auto
  qed
qed

lemma holder_facts:
  assumes "hub_inv s" "holds (hb_conn s c) = Some (name, i)"
  shows "i < rg_next (hb_reg s)" "in_name (hb_inst s i) = name" "name \<noteq> []"
    "live (phase_of s i) \<Longrightarrow> room_of s name = Some i"
    "live (phase_of s i) \<Longrightarrow> \<not> hb_down s \<Longrightarrow> where_is s c = Some name"
  using assms by (auto simp: hub_inv_def holders_ok_def)

lemma needed_facts:
  assumes "hub_inv s" "needed (phase_of s i)"
  shows "room_of s (in_name (hb_inst s i)) = Some i"
    "\<exists>c. holds (hb_conn s c) = Some (in_name (hb_inst s i), i)"
  using assms by (auto simp: hub_inv_def needed_ok_def)

lemma table_facts:
  assumes "hub_inv s" "room_of s name = Some i"
  shows "i < rg_next (hb_reg s)" "in_name (hb_inst s i) = name"
    "\<not> hb_down s \<Longrightarrow> live (phase_of s i)" "\<not> hb_down s \<Longrightarrow> \<not> in_stop (hb_inst s i)"
  using assms by (auto simp: hub_inv_def table_ok_def)

lemma table_distinct: "hub_inv s \<Longrightarrow> distinct (map fst (rg_rooms (hb_reg s)))"
  by (simp add: hub_inv_def table_ok_def)

lemma table_okI:
  assumes "distinct (map fst (rg_rooms (hb_reg s)))"
    and "\<And>name i. room_of s name = Some i \<Longrightarrow> i < rg_next (hb_reg s) \<and> in_name (hb_inst s i) = name \<and>
        (\<not> hb_down s \<longrightarrow> live (phase_of s i) \<and> \<not> in_stop (hb_inst s i))"
  shows "table_ok s"
  unfolding table_ok_def using assms by blast

lemma holders_okI:
  assumes "\<And>c name i. holds (hb_conn s c) = Some (name, i) \<Longrightarrow> i < rg_next (hb_reg s) \<and>
     in_name (hb_inst s i) = name \<and> name \<noteq> [] \<and>
     (live (phase_of s i) \<longrightarrow> room_of s name = Some i \<and> (\<not> hb_down s \<longrightarrow> where_is s c = Some name))"
  shows "holders_ok s"
  unfolding holders_ok_def using assms by blast

lemma needed_okI:
  assumes "\<And>i. needed (phase_of s i) \<Longrightarrow> room_of s (in_name (hb_inst s i)) = Some i \<and>
     (\<exists>c. holds (hb_conn s c) = Some (in_name (hb_inst s i), i))"
  shows "needed_ok s"
  unfolding needed_ok_def using assms by blast

text \<open>What a room's move keeps: among the live phases, or out of them once it is not in the table.\<close>

lemma phase_live [inv_intros]:
  assumes "hub_inv s" "live (phase_of s i)" "live ph"
    and "needed ph \<Longrightarrow> \<exists>c name. holds (hb_conn s c) = Some (name, i)"
  shows "hub_inv (set_phase i ph s)"
proof (rule hub_invI)
  show "table_ok (set_phase i ph s)" using assms(1,3) by (auto simp: hub_inv_def table_ok_def)
  show "holders_ok (set_phase i ph s)" using assms(1,2) by (auto simp: hub_inv_def holders_ok_def)
  show "needed_ok (set_phase i ph s)" unfolding needed_ok_def
  proof (intro allI impI)
    fix j assume j: "needed (phase_of (set_phase i ph s) j)"
    show "room_of (set_phase i ph s) (in_name (hb_inst (set_phase i ph s) j)) = Some j \<and>
      (\<exists>c. holds (hb_conn (set_phase i ph s) c) = Some (in_name (hb_inst (set_phase i ph s) j), j))"
    proof (cases "j = i")
      case True
      with j assms(4) obtain c name where "holds (hb_conn s c) = Some (name, i)" by auto
      with True holder_facts [OF assms(1) this] assms(2) show ?thesis by auto
    next
      case False
      with j needed_facts [OF assms(1), of j] show ?thesis by simp
    qed
  qed
qed

lemma phase_dead:
  assumes "hub_inv s" "\<not> live ph" "\<And>name. \<not> hb_down s \<Longrightarrow> room_of s name \<noteq> Some i"
  shows "hub_inv (set_phase i ph s)"
proof (rule hub_invI)
  have "\<not> needed ph" using assms(2) by (simp add: live_def needed_def)
  then show "needed_ok (set_phase i ph s)" using assms(1) by (auto simp: hub_inv_def needed_ok_def)
  show "table_ok (set_phase i ph s)" using assms(1,3) by (auto simp: hub_inv_def table_ok_def)
  show "holders_ok (set_phase i ph s)" using assms(1,2) by (auto simp: hub_inv_def holders_ok_def)
qed
section \<open>What the registry's turns keep\<close>

lemma map_of_filter_key: "map_of (filter (\<lambda>(k, v). P k) xs) k = (if P k then map_of xs k else None)"
  by (induction xs) auto

lemma distinct_filter_key: "distinct (map fst xs) \<Longrightarrow> distinct (map fst (filter P xs))"
  by (induction xs) auto

lemma act_on_rooms_append: "act_on_rooms (xs @ ys) rs = act_on_rooms ys (act_on_rooms xs rs)"
proof (induction xs arbitrary: rs)
  case (Cons a xs)
  then show ?case by (cases a) (simp_all add: fun_upd_def)
qed simp

lemma act_on_rooms_stops:
  "act_on_rooms (map (\<lambda>(name, i). StopRoom i) xs) rs j =
     (if j \<in> snd ` set xs then (rs j)\<lparr>in_stop := True\<rparr> else rs j)"
  by (induction xs arbitrary: rs) (auto simp: image_iff, metis snd_conv)

lemma act_on_rooms_other [simp]:
  "act_on_rooms (map (\<lambda>(c, room). KillAll c code reason) xs) rs = rs"
  "act_on_rooms (map (\<lambda>(c, room). Ping c b) xs) rs = rs"
  by (induction xs) auto

lemma clients_change:
  assumes "hub_inv s" "rg_rooms g = rg_rooms (hb_reg s)" "rg_next g = rg_next (hb_reg s)"
    and "\<And>c name i. holds (hb_conn s c) = Some (name, i) \<Longrightarrow> map_of (rg_clients g) c = where_is s c"
  shows "hub_inv (s\<lparr>hb_reg := g\<rparr>)"
  using assms by (auto simp: hub_inv_def table_ok_def holders_ok_def needed_ok_def)

lemma takes_down: "hb_down s \<Longrightarrow> registry_takes cfg now ev s = s"
  by (simp add: registry_takes_def)

lemma takes_client:
  assumes "hub_inv s" "holds (hb_conn s c) = None" "cmd \<in> {AddClient c, RemoveClient c, LeaveRoom c}"
  shows "hub_inv (registry_takes cfg now (Cmd cmd) s)" "hb_conn (registry_takes cfg now (Cmd cmd) s) = hb_conn s"
    "hb_inst (registry_takes cfg now (Cmd cmd) s) = hb_inst s"
  using assms
  by (auto simp: reg_simps reg_command_def AList.update_conv' AList.delete_conv'
      intro!: clients_change split: reg_cmd.splits)

lemma notes_keep [simp]: "hub_inv (s\<lparr>hb_notes := ns\<rparr>) = hub_inv s" "hub_inv (s\<lparr>hb_done := b\<rparr>) = hub_inv s"
  "hub_inv (close_done s) = hub_inv s"
  by (simp_all add: hub_inv_def table_ok_def holders_ok_def needed_ok_def close_done_def)

lemma notify_keeps [inv_intros]: "hub_inv s \<Longrightarrow> hub_inv (notify_activity name q s)"
  by (simp add: notify_activity_def)

lemma takes_note [inv_intros]:
  assumes "hub_inv s"
  shows "hub_inv (take_note cfg now s)"
  using assms
  by (auto simp: take_note_def reg_simps reg_note_def intro!: clients_change split: list.split)

lemma stops_rooms [simp]:
  "in_name (act_on_rooms (map (\<lambda>(name, i). StopRoom i) xs) rs j) = in_name (rs j)"
  "in_phase (act_on_rooms (map (\<lambda>(name, i). StopRoom i) xs) rs j) = in_phase (rs j)"
  "in_stop (act_on_rooms (map (\<lambda>(name, i). StopRoom i) xs) rs j) \<longleftrightarrow> in_stop (rs j) \<or> j \<in> snd ` set xs"
  by (simp_all add: act_on_rooms_stops)

lemma takes_cancel [inv_intros]:
  assumes "hub_inv s"
  shows "hub_inv (registry_takes cfg now Cancelled s)"
  using assms
  by (auto simp: reg_simps reg_shutdown_def act_on_rooms_append
      hub_inv_def table_ok_def holders_ok_def needed_ok_def)

lemma recorded_occupied: "map_of (rg_clients g) c = Some name \<Longrightarrow> name \<noteq> [] \<Longrightarrow> occupied g name"
  by (auto simp: occupied_def list_ex_iff dest: map_of_SomeD)

text \<open>Names \<open>rm\<close> leave the table: the rooms they stood for may be told to stop or have given up, and
  nobody may be in one that is live.\<close>

lemma names_leave:
  assumes inv: "hub_inv s" "\<not> hb_down s" "\<not> hb_down t" "hb_conn t = hb_conn s"
    and reg: "rg_next (hb_reg t) = rg_next (hb_reg s)" "where_is t = where_is s"
    "rg_rooms (hb_reg t) = filter (\<lambda>(name, i). \<not> rm name) (rg_rooms (hb_reg s))"
    and names: "\<And>i. in_name (hb_inst t i) = in_name (hb_inst s i)"
    and phases: "\<And>i. phase_of t i = phase_of s i \<or> (\<not> live (phase_of t i) \<and> rm (in_name (hb_inst s i)))"
    and stops: "\<And>i. in_stop (hb_inst t i) \<Longrightarrow> in_stop (hb_inst s i) \<or> rm (in_name (hb_inst s i))"
    and spared: "\<And>c name i. holds (hb_conn s c) = Some (name, i) \<Longrightarrow> live (phase_of t i) \<Longrightarrow> \<not> rm name"
  shows "hub_inv t"
proof (rule hub_invI)
  have T: "room_of t name = (if rm name then None else room_of s name)" for name
    unfolding reg(3) by (simp add: map_of_filter_key [of "\<lambda>name. \<not> rm name"])
  have same: "phase_of t i = phase_of s i" if "live (phase_of t i)" for i using phases [of i] that by blast
  show "table_ok t"
  proof (rule table_okI)
    show "distinct (map fst (rg_rooms (hb_reg t)))"
      unfolding reg(3) using table_distinct [OF inv(1)] by (rule distinct_filter_key)
    fix name i assume "room_of t name = Some i"
    then have n: "room_of s name = Some i" "\<not> rm name" using T by (simp_all split: if_splits)
    note f = table_facts [OF inv(1) n(1)]
    have "phase_of t i = phase_of s i" "\<not> in_stop (hb_inst t i)"
      using phases [of i] stops [of i] f(2,4) n(2) inv(2) by auto
    then show "i < rg_next (hb_reg t) \<and> in_name (hb_inst t i) = name \<and>
        (\<not> hb_down t \<longrightarrow> live (phase_of t i) \<and> \<not> in_stop (hb_inst t i))"
      using f(1-3) inv(2) by (simp add: reg(1) names)
  qed
  show "holders_ok t"
  proof (rule holders_okI)
    fix c name i assume "holds (hb_conn t c) = Some (name, i)"
    then have h: "holds (hb_conn s c) = Some (name, i)" unfolding inv(4) .
    show "i < rg_next (hb_reg t) \<and> in_name (hb_inst t i) = name \<and> name \<noteq> [] \<and>
      (live (phase_of t i) \<longrightarrow> room_of t name = Some i \<and> (\<not> hb_down t \<longrightarrow> where_is t c = Some name))"
      using holder_facts [OF inv(1) h] spared [OF h] same [of i] inv(2) by (simp add: T reg(1,2) names)
  qed
  show "needed_ok t"
  proof (rule needed_okI)
    fix i assume n: "needed (phase_of t i)"
    then have l: "live (phase_of t i)" by (auto simp: needed_def live_def)
    from n same [OF l] obtain c where c: "room_of s (in_name (hb_inst s i)) = Some i"
      "holds (hb_conn s c) = Some (in_name (hb_inst s i), i)" using needed_facts [OF inv(1)] by metis
    from spared [OF c(2) l] c show "room_of t (in_name (hb_inst t i)) = Some i \<and>
      (\<exists>c. holds (hb_conn t c) = Some (in_name (hb_inst t i), i))" by (auto simp: T inv(4) names)
  qed
qed

lemma takes_tick [inv_intros]:
  assumes "hub_inv s"
  shows "hub_inv (registry_takes cfg now Tick s)"
proof (cases "hb_down s \<or> hc_idle cfg \<le> 0")
  case True
  then show ?thesis using assms by (auto simp: reg_simps reg_sweep_def intro!: clients_change)
next
  case False
  define sw where "sw = swept cfg now (hb_reg s)"
  define t where "t = registry_takes cfg now Tick s"
  have t: "\<not> hb_down t" "hb_conn t = hb_conn s" "rg_next (hb_reg t) = rg_next (hb_reg s)" "where_is t = where_is s"
    "rg_rooms (hb_reg t) = filter (\<lambda>(name, i). \<not> sw name) (rg_rooms (hb_reg s))"
    "hb_inst t = act_on_rooms (map (\<lambda>(name, i). StopRoom i)
       (filter (\<lambda>(name, i). sw name) (rg_rooms (hb_reg s)))) (hb_inst s)"
    using False by (simp_all add: t_def reg_simps reg_sweep_def sw_def)
  have stop: "sw (in_name (hb_inst s i))" if "(name, i) \<in> set (rg_rooms (hb_reg s))" "sw name" for name i
    using that table_facts(2) [OF assms] table_distinct [OF assms] by auto
  show ?thesis unfolding t_def [symmetric]
  proof (rule names_leave [OF assms _ t(1-5)])
    show "\<not> sw name" if "holds (hb_conn s c) = Some (name, i)" "live (phase_of t i)" for c name i
      using holder_facts(3,5) [OF assms that(1)] that(2) False recorded_occupied
      by (auto simp: sw_def swept_def t(6))
    show "in_stop (hb_inst t i) \<Longrightarrow> in_stop (hb_inst s i) \<or> sw (in_name (hb_inst s i))" for i
      using stop [of _ i] by (auto simp: t(6))
  qed (use False in \<open>simp_all add: t(6)\<close>)
qed

text \<open>A failed room gives itself up: the name is its own, so nothing else leaves the table.\<close>

lemma takes_evict [inv_intros]:
  assumes "hub_inv s" "needed (phase_of s i)" "\<not> live ph"
  shows "hub_inv (set_phase i ph (evict_room cfg now i s))"
proof (cases "hb_down s")
  case True
  then show ?thesis using phase_dead [OF assms(1,3), of i] by (simp add: evict_room_def takes_down)
next
  case False
  define n where "n = in_name (hb_inst s i)"
  define t where "t = evict_room cfg now i s"
  have t: "\<not> hb_down t" "hb_conn t = hb_conn s" "rg_next (hb_reg t) = rg_next (hb_reg s)" "where_is t = where_is s"
    "rg_rooms (hb_reg t) = filter (\<lambda>(name, j). \<not> name = n) (rg_rooms (hb_reg s))" "hb_inst t = hb_inst s"
    using False by (auto simp: t_def evict_room_def reg_simps reg_command_def n_def AList.delete_eq intro: filter_cong)
  have i: "room_of s n = Some i" using needed_facts(1) [OF assms(1,2)] unfolding n_def .
  show ?thesis unfolding t_def [symmetric]
  proof (rule names_leave [where rm = "\<lambda>name. name = n", OF assms(1)])
    show "\<not> name = n" if "holds (hb_conn s c) = Some (name, j)" "live (phase_of (set_phase i ph t) j)" for c name j
      using holder_facts(4) [OF assms(1) that(1)] that(2) i assms(3) by (auto simp: t(6) split: if_splits)
  qed (use False t assms(3) in \<open>simp_all add: n_def split: if_splits\<close>)
qed

text \<open>Asking for a room gives the one in the table, or a new one.\<close>

lemma joins_open_room:
  assumes "hub_inv s" "holds (hb_conn s c) = None" "\<not> hb_down s" "name \<noteq> []" "room_of s name = Some i"
  shows "room_of (registry_takes cfg now (Cmd (JoinRoom c name)) s) name = Some i"
    "hub_inv (set_conn c (Joining name i k) (registry_takes cfg now (Cmd (JoinRoom c name)) s))"
proof -
  let ?s1 = "registry_takes cfg now (Cmd (JoinRoom c name)) s"
  let ?t = "set_conn c (Joining name i k) ?s1"
  have s1: "hb_down ?s1 = False" "hb_conn ?s1 = hb_conn s" "hb_inst ?s1 = hb_inst s"
    "rg_next (hb_reg ?s1) = rg_next (hb_reg s)" "where_is ?s1 = (where_is s)(c \<mapsto> name)"
    "rg_rooms (hb_reg ?s1) = rg_rooms (hb_reg s)"
    using assms(3,5) by (simp_all add: reg_simps reg_command_def AList.update_conv')
  show "room_of ?s1 name = Some i" using assms(5) by (simp add: s1(6))
  show "hub_inv ?t"
  proof (rule hub_invI)
    show "table_ok ?t" using assms(1,3) by (simp add: table_ok_def s1 hub_inv_def)
    show "holders_ok ?t"
      using holder_facts [OF assms(1)] table_facts [OF assms(1,5)] assms(3-5) by (auto simp: holders_ok_def s1(1-6))
    show "needed_ok ?t"
    proof (rule needed_okI)
      fix j assume "needed (phase_of ?t j)"
      then have "needed (phase_of s j)" by (simp add: s1)
      from needed_facts [OF assms(1) this] assms(2)
      show "room_of ?t (in_name (hb_inst ?t j)) = Some j \<and> (\<exists>c'. holds (hb_conn ?t c') = Some (in_name (hb_inst ?t j), j))"
        by (auto simp: s1(1-6)) (metis option.distinct(1))
    qed
  qed
qed

lemma joins_new_room:
  assumes "hub_inv s" "holds (hb_conn s c) = None" "\<not> hb_down s" "name \<noteq> []" "room_of s name = None"
    and "i = rg_next (hb_reg s)"
  shows "room_of (registry_takes cfg now (Cmd (JoinRoom c name)) s) name = Some i"
    "hub_inv (set_conn c (Joining name i k) (registry_takes cfg now (Cmd (JoinRoom c name)) s))"
proof -
  let ?s1 = "registry_takes cfg now (Cmd (JoinRoom c name)) s"
  let ?t = "set_conn c (Joining name i k) ?s1"
  have s1: "hb_down ?s1 = False" "hb_conn ?s1 = hb_conn s"
    "hb_inst ?s1 = (hb_inst s)(i := \<lparr>in_name = name, in_phase = Opening, in_stop = False\<rparr>)"
    "rg_next (hb_reg ?s1) = Suc i" "where_is ?s1 = (where_is s)(c \<mapsto> name)"
    "room_of ?s1 = (room_of s)(name \<mapsto> i)" "rg_rooms (hb_reg ?s1) = AList.update name i (rg_rooms (hb_reg s))"
    using assms(3,5,6) by (simp_all add: reg_simps reg_command_def AList.update_conv')
  show "room_of ?s1 name = Some i" by (simp add: s1(6))
  show "hub_inv ?t"
  proof (rule hub_invI)
    show "table_ok ?t"
    proof (rule table_okI)
      show "distinct (map fst (rg_rooms (hb_reg ?t)))"
        using table_distinct [OF assms(1)] by (simp add: s1(7) distinct_update)
    qed (use table_facts [OF assms(1)] assms(3,6) in \<open>auto simp: s1(1-6) less_SucI split: if_splits\<close>)
    show "holders_ok ?t"
      using holder_facts [OF assms(1)] assms(3-6) by (auto simp: holders_ok_def s1(1-6) less_SucI)
    show "needed_ok ?t"
    proof (rule needed_okI)
      fix j assume "needed (phase_of ?t j)"
      then have "j = i \<or> needed (phase_of s j) \<and> j \<noteq> i" by (auto simp: s1(1-6) split: if_splits)
      then show "room_of ?t (in_name (hb_inst ?t j)) = Some j \<and>
        (\<exists>c'. holds (hb_conn ?t c') = Some (in_name (hb_inst ?t j), j))"
        using needed_facts [OF assms(1), of j] assms(2,5)
        by (auto simp: s1(1-6)) (metis option.distinct(1))+
    qed
  qed
qed

lemma takes_join:
  assumes "hub_inv s" "holds (hb_conn s c) = None" "\<not> hb_down s" "name \<noteq> []"
  shows "\<exists>i. room_of (registry_takes cfg now (Cmd (JoinRoom c name)) s) name = Some i \<and>
    hub_inv (set_conn c (Joining name i k) (registry_takes cfg now (Cmd (JoinRoom c name)) s))"
  using joins_open_room [OF assms] joins_new_room [OF assms] by (cases "room_of s name") blast+

lemma ask_keeps [inv_intros]:
  assumes "hub_inv s" "holds (hb_conn s c) = None"
  shows "hub_inv (ask_registry cfg now c name k s)"
proof (cases "validate_room_name name \<noteq> None \<or> hb_down s")
  case True
  then show ?thesis using assms by (auto simp: ask_registry_def intro!: conn_keeps)
next
  case False
  then have "name \<noteq> []" using room_name_facts(1) by auto
  with takes_join [OF assms, of name cfg now k] False show ?thesis by (auto simp: ask_registry_def Let_def)
qed
lemma hub_inv_start: "hub_inv hub_start"
  by (simp add: hub_inv_def table_ok_def holders_ok_def needed_ok_def hub_start_def new_registry_def)

lemma hub_inv_step:
  assumes "hub_inv s" "hub_step cfg s t"
  shows "hub_inv t"
  using assms(2,1)
proof cases
  case (leave c name i aim)
  from leave have "\<not> needed (phase_of s i)" by (auto simp: needed_def)
  moreover have "holds (after_leave aim) = None" by (cases aim) auto
  ultimately show ?thesis using leave assms(1) by (auto intro!: conn_drops)
next
  case (join_refused c name i k)
  show ?thesis unfolding join_refused(1) by (rule conn_drops [OF assms(1)]) (use join_refused in auto)
next
  case (join_closed c name i k)
  show ?thesis unfolding join_closed(1) by (rule conn_drops [OF assms(1)]) (use join_closed in auto)
next
  case (submit_fatal c name i)
  have "holds (hb_conn s c) = Some (name, i)" using submit_fatal by simp
  then have "hub_inv (set_phase i FailedFatal s)" using assms(1) submit_fatal(3) by (intro phase_live) auto
  with submit_fatal show ?thesis by (auto intro!: conn_keeps)
next
  case (submit_publish c name i q)
  have "holds (hb_conn s c) = Some (name, i)" using submit_publish by simp
  then have "hub_inv (set_phase i (Announcing q) s)" using assms(1) submit_publish(3) by (intro phase_live) auto
  with submit_publish show ?thesis by (auto intro!: conn_keeps)
next
  case (noted i q)
  have "hub_inv (set_phase i Serving s)" using assms(1) noted(2) by (intro phase_live) auto
  moreover have "t = notify_activity (in_name (hb_inst s i)) q (set_phase i Serving s)"
    unfolding noted(1) by (simp add: notify_activity_def set_phase_def)
  ultimately show ?thesis by (simp add: notify_keeps)
next
  case (open_failed i)
  then show ?thesis using assms(1) needed_facts(2) [of s i] by (auto intro!: phase_live)
next
  case (drained i)
  then show ?thesis using assms(1) table_facts(3) [of s] by (auto intro!: phase_dead) force
next
  case (stopped i)
  then show ?thesis using assms(1) table_facts(4) [of s] by (auto intro!: phase_dead)
next
  case (connect c now)
  then show ?thesis using assms(1) takes_client [of s c "AddClient c"] by (auto intro!: conn_keeps)
next
  case (tell_left c name now)
  then show ?thesis using assms(1) takes_client [of s c "LeaveRoom c"] by (auto intro!: conn_keeps)
next
  case (remove c now)
  then show ?thesis using assms(1) takes_client [of s c "RemoveClient c"] by (auto intro!: conn_keeps)
qed (auto intro!: inv_intros)

interpretation hub_machine: invariant_machine "\<lambda>s. s = hub_start" "hub_step cfg" hub_inv
  for cfg
  by unfold_locales (auto intro: hub_inv_start hub_inv_step)

section \<open>Properties\<close>

text \<open>An instance that is at work on its archive or can be handed a frame.\<close>

definition active :: "hub \<Rightarrow> nat \<Rightarrow> bool" where
  "active s i \<longleftrightarrow> phase_of s i \<notin> {Serving, Draining, Gone} \<or>
     (phase_of s i = Serving \<and> (\<exists>c name. holds (hb_conn s c) = Some (name, i)))"

text \<open>C9: one writer per room. However the registry, the rooms and the sessions interleave, with rooms
  failing, being swept and being opened again: no two instances of one room are ever active, so at most
  one uses the room's archive; and as long as the registry runs, no room is stopped or forgotten while
  a client is in it or joining it, and the registry knows that client to be there.\<close>

theorem one_writer_per_room:
  assumes "(hub_step cfg)\<^sup>*\<^sup>* hub_start s"
  shows "(\<forall>i j. active s i \<and> active s j \<and> in_name (hb_inst s i) = in_name (hb_inst s j) \<longrightarrow> i = j) \<and>
    (\<forall>c name i. holds (hb_conn s c) = Some (name, i) \<and> phase_of s i = Serving \<and> \<not> hb_down s \<longrightarrow>
       \<not> in_stop (hb_inst s i) \<and> room_of s name = Some i \<and> where_is s c = Some name)"
proof -
  have inv: "hub_inv s" using refl assms by (rule hub_machine.reach_inv)
  have act: "room_of s (in_name (hb_inst s i)) = Some i" if "active s i" for i
  proof (cases "needed (phase_of s i)")
    case True
    then show ?thesis by (rule needed_facts(1) [OF inv])
  next
    case False
    with that obtain c name where h: "phase_of s i = Serving" "holds (hb_conn s c) = Some (name, i)"
      by (auto simp: active_def needed_def)
    show ?thesis using holder_facts(2,4) [OF inv h(2)] h(1) by simp
  qed
  have "i = j" if "active s i" "active s j" "in_name (hb_inst s i) = in_name (hb_inst s j)" for i j
    using trans [OF act [OF that(1), symmetric] act [OF that(2), folded that(3)]] by simp
  moreover have "\<not> in_stop (hb_inst s i) \<and> room_of s name = Some i \<and> where_is s c = Some name"
    if "holds (hb_conn s c) = Some (name, i)" "phase_of s i = Serving" "\<not> hb_down s" for c name i
  proof -
    have r: "room_of s name = Some i" using holder_facts(4) [OF inv that(1)] that(2) by simp
    then show ?thesis
      using holder_facts(5) [OF inv that(1)] table_facts(4) [OF inv r] that(2,3) by simp
  qed
  ultimately show ?thesis by blast
qed
text \<open>A run of one client into a room.\<close>

definition one_in_room :: "hub_config \<Rightarrow> hub" where
  "one_in_room cfg =
     (let s1 = set_conn 1 (Ready None) (registry_takes cfg 0 (Cmd (AddClient 1)) hub_start);
          s2 = set_conn 1 (Asking ''r'' 3) s1;
          s3 = ask_registry cfg 0 1 ''r'' 2 s2
      in set_conn 1 (Ready (Some (''r'', 0))) (set_phase 0 Serving s3))"

lemma valid_r: "validate_room_name ''r'' = None"
  by code_simp

lemma one_in_room_facts:
  "(hub_step cfg)\<^sup>*\<^sup>* hub_start (one_in_room cfg)"
  "phase_of (one_in_room cfg) 0 = Serving" "holds (hb_conn (one_in_room cfg) 1) = Some (''r'', 0)"
  "\<not> hb_down (one_in_room cfg)"
proof -
  let ?s1 = "set_conn 1 (Ready None) (registry_takes cfg 0 (Cmd (AddClient 1)) hub_start)"
  let ?s2 = "set_conn 1 (Asking ''r'' 3) ?s1"
  let ?s3 = "ask_registry cfg 0 1 ''r'' 2 ?s2"
  let ?s4 = "set_phase 0 Serving ?s3"
  have down: "\<not> hb_down ?s2"
    by (simp add: reg_simps reg_command_def hub_start_def)
  have s3: "hb_conn ?s3 1 = Joining ''r'' 0 2" "phase_of ?s3 0 = Opening" "\<not> hb_down ?s3"
    by (simp_all add: ask_registry_def valid_r reg_simps reg_command_def hub_start_def
        new_registry_def Let_def)
  have "hub_step cfg hub_start ?s1" by (rule hub_step.connect) (simp add: hub_start_def)
  moreover have "hub_step cfg ?s1 ?s2"
    using hub_step.frame_join [of ?s1 1 cfg "''r''"] by (simp add: join_attempts_def)
  moreover have "hub_step cfg ?s2 ?s3"
    using hub_step.ask [of ?s2 1 "''r''" 2 cfg 0] down by (simp add: eval_nat_numeral)
  moreover have "hub_step cfg ?s3 ?s4" using s3(2) by (rule hub_step.opened)
  moreover have "hub_step cfg ?s4 (set_conn 1 (Ready (Some (''r'', 0))) ?s4)"
    by (rule hub_step.joined [where k = 2]) (use s3 in simp_all)
  ultimately show "(hub_step cfg)\<^sup>*\<^sup>* hub_start (one_in_room cfg)"
    unfolding one_in_room_def Let_def by (meson rtranclp.rtrancl_refl converse_rtranclp_into_rtranclp)
  show "phase_of (one_in_room cfg) 0 = Serving" "holds (hb_conn (one_in_room cfg) 1) = Some (''r'', 0)"
    "\<not> hb_down (one_in_room cfg)"
    using s3(3) by (simp_all add: one_in_room_def Let_def)
qed

theorem one_writer_per_room_witness:
  "let cfg = sv_cfg sample_server; s = one_in_room cfg
   in (hub_step cfg)\<^sup>*\<^sup>* hub_start s \<and> active s 0 \<and> \<not> in_stop (hb_inst s 0) \<and> where_is s 1 = Some ''r''"
proof -
  note f = one_in_room_facts [of "sv_cfg sample_server"]
  show ?thesis
    unfolding Let_def using one_writer_per_room [OF f(1)] f(2-4) f(1) by (auto simp: active_def)
qed

end
