(* ===== verification/HubLiveness.thy ===== *)
theory HubLiveness
  imports Hub
begin

text \<open>
  The hub of theory \<open>Hub\<close> makes progress. Once the context is cancelled every room instance winds down
  and the registry reports that it is done; and every call of a session returns. The lemmas carry a
  second invariant, on the rooms the registry no longer knows: they have been told to stop.
\<close>

section \<open>Rooms that were let go have been told to stop\<close>

definition stop_ok :: "hub \<Rightarrow> bool" where
  "stop_ok s \<longleftrightarrow> (\<forall>i. phase_of s i \<noteq> Gone \<longrightarrow> i < rg_next (hb_reg s)) \<and>
     (\<forall>i. live (phase_of s i) \<longrightarrow>
        in_stop (hb_inst s i) \<or> (\<not> hb_down s \<and> room_of s (in_name (hb_inst s i)) = Some i))"

lemma stop_okI:
  assumes "\<And>i. phase_of s i \<noteq> Gone \<Longrightarrow> i < rg_next (hb_reg s)"
    and "\<And>i. live (phase_of s i) \<Longrightarrow> \<not> in_stop (hb_inst s i) \<Longrightarrow>
      \<not> hb_down s \<and> room_of s (in_name (hb_inst s i)) = Some i"
  shows "stop_ok s"
  unfolding stop_ok_def using assms by blast

lemma stop_okD:
  assumes "stop_ok s"
  shows "phase_of s i \<noteq> Gone \<Longrightarrow> i < rg_next (hb_reg s)"
    "live (phase_of s i) \<Longrightarrow> \<not> in_stop (hb_inst s i) \<Longrightarrow> \<not> hb_down s"
    "live (phase_of s i) \<Longrightarrow> \<not> in_stop (hb_inst s i) \<Longrightarrow> room_of s (in_name (hb_inst s i)) = Some i"
  using assms unfolding stop_ok_def by blast+

lemma stop_notes [simp]: "stop_ok (s\<lparr>hb_notes := ns\<rparr>) = stop_ok s" "stop_ok (s\<lparr>hb_done := b\<rparr>) = stop_ok s"
  "stop_ok (set_conn c a s) = stop_ok s" "stop_ok (notify_activity name q s) = stop_ok s"
  "stop_ok (close_done s) = stop_ok s" "hb_inst (notify_activity name q s) = hb_inst s"
  by (simp_all add: stop_ok_def notify_activity_def close_done_def)

lemma gone_all:
  assumes "stop_ok s"
  shows "rooms_gone s \<longleftrightarrow> (\<forall>i. phase_of s i = Gone)"
proof
  assume "rooms_gone s"
  then have "phase_of s i = Gone" if "i < rg_next (hb_reg s)" for i using that by (simp add: rooms_gone_def list_all_iff)
  with stop_okD(1) [OF assms] show "\<forall>i. phase_of s i = Gone" by blast
qed (simp add: rooms_gone_def list_all_iff)

lemma stop_same_rooms:
  assumes "stop_ok s" "rg_rooms g = rg_rooms (hb_reg s)" "rg_next g = rg_next (hb_reg s)"
  shows "stop_ok (s\<lparr>hb_reg := g\<rparr>)"
  using assms by (simp add: stop_ok_def)

lemma stop_phase [inv_intros]:
  assumes "stop_ok s" "phase_of s i \<noteq> Gone" "live ph \<Longrightarrow> live (phase_of s i)"
  shows "stop_ok (set_phase i ph s)"
  by (rule stop_okI) (use stop_okD [OF assms(1)] assms(2,3) in \<open>auto split: if_splits\<close>)

lemma stop_client:
  assumes "stop_ok s" "cmd \<in> {AddClient c, RemoveClient c, LeaveRoom c}"
  shows "stop_ok (registry_takes cfg now (Cmd cmd) s)"
  using assms by (auto simp: reg_simps reg_command_def intro!: stop_same_rooms)

lemma stop_note [inv_intros]: "stop_ok s \<Longrightarrow> stop_ok (take_note cfg now s)"
  by (auto simp: take_note_def reg_simps reg_note_def intro!: stop_same_rooms
      split: list.split)

lemma stop_cancel [inv_intros]:
  assumes "stop_ok s"
  shows "stop_ok (registry_takes cfg now Cancelled s)"
proof (rule stop_okI)
  fix i assume "live (phase_of (registry_takes cfg now Cancelled s) i)"
    "\<not> in_stop (hb_inst (registry_takes cfg now Cancelled s) i)"
  moreover from stop_okD(2,3) [OF assms, of i]
  have "live (phase_of s i) \<Longrightarrow> \<not> in_stop (hb_inst s i) \<Longrightarrow>
    \<not> hb_down s \<and> i \<in> snd ` set (rg_rooms (hb_reg s))" by (force dest: map_of_SomeD)
  ultimately show "\<not> hb_down (registry_takes cfg now Cancelled s) \<and>
    room_of (registry_takes cfg now Cancelled s) (in_name (hb_inst (registry_takes cfg now Cancelled s) i)) = Some i"
    by (auto simp: reg_simps reg_shutdown_def act_on_rooms_append split: if_splits)
qed (use stop_okD(1) [OF assms] in
    \<open>auto simp: reg_simps reg_shutdown_def act_on_rooms_append split: if_splits\<close>)

lemma stop_tick [inv_intros]:
  assumes "stop_ok s"
  shows "stop_ok (registry_takes cfg now Tick s)"
proof (cases "hb_down s \<or> hc_idle cfg \<le> 0")
  case True
  then show ?thesis
    using assms by (auto simp: reg_simps reg_sweep_def intro!: stop_same_rooms)
next
  case False
  define sw where "sw = swept cfg now (hb_reg s)"
  define t where "t = registry_takes cfg now Tick s"
  have t: "hb_down t = False" "rg_next (hb_reg t) = rg_next (hb_reg s)"
    "rg_rooms (hb_reg t) = filter (\<lambda>(name, i). \<not> sw name) (rg_rooms (hb_reg s))"
    "hb_inst t = act_on_rooms (map (\<lambda>(name, i). StopRoom i)
       (filter (\<lambda>(name, i). sw name) (rg_rooms (hb_reg s)))) (hb_inst s)"
    using False by (simp_all add: t_def reg_simps reg_sweep_def sw_def)
  have T: "room_of t name = (if sw name then None else room_of s name)" for name
    unfolding t(3) by (simp add: map_of_filter_key [of "\<lambda>name. \<not> sw name"])
  show ?thesis unfolding t_def [symmetric]
  proof (rule stop_okI)
    fix i assume i: "live (phase_of t i)" "\<not> in_stop (hb_inst t i)"
    then have l: "live (phase_of s i)" "\<not> in_stop (hb_inst s i)"
      "i \<notin> snd ` set (filter (\<lambda>(name, i). sw name) (rg_rooms (hb_reg s)))" by (simp_all add: t(4))
    note r = stop_okD(3) [OF assms l(1,2)]
    have "\<not> sw (in_name (hb_inst s i))"
    proof
      assume "sw (in_name (hb_inst s i))"
      with map_of_SomeD [OF r]
      have "(in_name (hb_inst s i), i) \<in> set (filter (\<lambda>(name, i). sw name) (rg_rooms (hb_reg s)))" by simp
      from imageI [OF this, of snd] l(3) show False by simp
    qed
    with r show "\<not> hb_down t \<and> room_of t (in_name (hb_inst t i)) = Some i" by (simp add: T t(1,4))
  qed (use stop_okD(1) [OF assms] in \<open>simp add: t(2,4)\<close>)
qed

lemma stop_evict:
  assumes "hub_inv s" "stop_ok s" "needed (phase_of s i)" "\<not> live ph"
  shows "stop_ok (set_phase i ph (evict_room cfg now i s))"
proof (rule stop_okI)
  let ?t = "set_phase i ph (evict_room cfg now i s)"
  have t: "hb_inst (evict_room cfg now i s) = hb_inst s" "hb_down (evict_room cfg now i s) = hb_down s"
    "rg_next (hb_reg (evict_room cfg now i s)) = rg_next (hb_reg s)"
    "\<not> hb_down s \<Longrightarrow> room_of (evict_room cfg now i s) = (room_of s)(in_name (hb_inst s i) := None)"
    by (simp_all add: evict_room_def reg_simps reg_command_def AList.delete_conv')
  have "phase_of s i \<noteq> Gone" using assms(3) by (auto simp: needed_def)
  then show "phase_of ?t j \<noteq> Gone \<Longrightarrow> j < rg_next (hb_reg ?t)" for j
    using stop_okD(1) [OF assms(2)] by (auto simp: t split: if_splits)
  fix j assume j: "live (phase_of ?t j)" "\<not> in_stop (hb_inst ?t j)"
  then have ji: "j \<noteq> i" "live (phase_of s j)" "\<not> in_stop (hb_inst s j)"
    using assms(4) by (auto simp: t(1) split: if_splits)
  have "in_name (hb_inst s j) \<noteq> in_name (hb_inst s i)"
    using stop_okD(3) [OF assms(2) ji(2,3)] needed_facts(1) [OF assms(1,3)] ji(1) by auto
  then show "\<not> hb_down ?t \<and> room_of ?t (in_name (hb_inst ?t j)) = Some j"
    using stop_okD(2,3) [OF assms(2) ji(2,3)] ji(1) by (simp add: t)
qed

lemma stop_join:
  assumes "hub_inv s" "stop_ok s"
  shows "stop_ok (registry_takes cfg now (Cmd (JoinRoom c name)) s)"
proof (cases "hb_down s \<or> room_of s name \<noteq> None")
  case True
  then show ?thesis
    using assms by (auto simp: reg_simps reg_command_def intro!: stop_same_rooms)
next
  case False
  let ?i = "rg_next (hb_reg s)"
  let ?t = "registry_takes cfg now (Cmd (JoinRoom c name)) s"
  have t: "hb_down ?t = False" "rg_next (hb_reg ?t) = Suc ?i" "room_of ?t = (room_of s)(name \<mapsto> ?i)"
    "hb_inst ?t = (hb_inst s)(?i := \<lparr>in_name = name, in_phase = Opening, in_stop = False\<rparr>)"
    using False by (simp_all add: reg_simps reg_command_def AList.update_conv')
  show ?thesis
  proof (rule stop_okI)
    show "phase_of ?t j \<noteq> Gone \<Longrightarrow> j < rg_next (hb_reg ?t)" for j
      using stop_okD(1) [OF assms(2), of j] by (auto simp: t less_SucI split: if_splits)
    fix j assume j: "live (phase_of ?t j)" "\<not> in_stop (hb_inst ?t j)"
    show "\<not> hb_down ?t \<and> room_of ?t (in_name (hb_inst ?t j)) = Some j"
    proof (cases "j = ?i")
      case True
      then show ?thesis by (simp add: t)
    next
      case other: False
      with j have "room_of s (in_name (hb_inst s j)) = Some j" by (intro stop_okD(3) [OF assms(2)]) (simp_all add: t)
      with other False show ?thesis by (auto simp: t)
    qed
  qed
qed

lemma stop_ask [inv_intros]:
  assumes "hub_inv s" "stop_ok s"
  shows "stop_ok (ask_registry cfg now c name k s)"
  using assms stop_join [OF assms] by (simp add: ask_registry_def Let_def split: option.split)

text \<open>A closing registry ignores what it takes, so its own fields and the rooms' stop signals stay.\<close>

lemma down_keeps:
  assumes "hub_step cfg s t" "hb_down s"
  shows "hb_down t" "hb_reg t = hb_reg s" "in_stop (hb_inst t i) = in_stop (hb_inst s i)"
proof -
  from assms have "hb_down t \<and> hb_reg t = hb_reg s \<and> in_stop (hb_inst t i) = in_stop (hb_inst s i)"
    by cases (auto simp: takes_down evict_room_def take_note_def ask_registry_def notify_activity_def close_done_def
        split: list.split)
  then show "hb_down t" "hb_reg t = hb_reg s" "in_stop (hb_inst t i) = in_stop (hb_inst s i)" by blast+
qed

text \<open>What a room instance has left to do.\<close>

fun work_left :: "phase \<Rightarrow> nat" where
  "work_left Opening = 4"
| "work_left Serving = 3"
| "work_left (Announcing q) = 3"
| "work_left FailedOpen = 2"
| "work_left Draining = 1"
| "work_left FailedFatal = 1"
| "work_left Gone = 0"

lemma work_zero: "work_left ph = 0 \<longleftrightarrow> ph = Gone"
  by (cases ph) simp_all

lemma down_phase:
  assumes "hub_step cfg s t" "hb_down s"
  shows "work_left (phase_of t i) \<le> work_left (phase_of s i)"
  using assms
  by cases (auto simp: takes_down evict_room_def take_note_def ask_registry_def notify_activity_def close_done_def
        split: list.split)

lemma step_done: "hub_step cfg s t \<Longrightarrow> hb_done t \<Longrightarrow> hb_done s \<or> (hb_down t \<and> rooms_gone s \<and> hb_inst t = hb_inst s)"
  by (erule hub_stepE) (auto simp: registry_takes_def evict_room_def take_note_def ask_registry_def notify_activity_def close_done_def
      set_conn_def set_phase_def Let_def case_prod_beta split: list.splits option.splits if_splits prod.splits)

lemma done_keeps: "hub_step cfg s t \<Longrightarrow> hb_done s \<Longrightarrow> hb_done t"
  by (erule hub_stepE) (auto simp: registry_takes_def evict_room_def take_note_def ask_registry_def notify_activity_def
      close_done_def set_conn_def set_phase_def Let_def split: list.splits option.splits prod.splits)

definition sound :: "hub \<Rightarrow> bool" where
  "sound s \<longleftrightarrow> hub_inv s \<and> stop_ok s \<and> (hb_done s \<longrightarrow> hb_down s \<and> (\<forall>i. phase_of s i = Gone))"

lemma soundD:
  assumes "sound s"
  shows "hub_inv s" "stop_ok s" "hb_done s \<Longrightarrow> hb_down s" "hb_done s \<Longrightarrow> phase_of s i = Gone"
  using assms by (auto simp: sound_def)

lemma done_step:
  assumes "sound s" "hub_step cfg s t" "hb_done t"
  shows "hb_down t \<and> (\<forall>i. phase_of t i = Gone)"
  using step_done [OF assms(2,3)]
proof
  assume d: "hb_done s"
  have "hb_down t" using assms(2) soundD(3) [OF assms(1) d] by (rule down_keeps)
  moreover have "phase_of t i = Gone" for i
    using work_zero [of "phase_of t i"] down_phase [OF assms(2) soundD(3) [OF assms(1) d], of i] soundD(4) [OF assms(1) d, of i] by simp
  ultimately show ?thesis by blast
qed (use gone_all [OF soundD(2) [OF assms(1)]] in simp)

lemma sound_start: "sound hub_start"
  using hub_inv_start by (simp add: sound_def stop_ok_def) (simp add: hub_start_def)

lemma sound_step:
  assumes "sound s" "hub_step cfg s t"
  shows "sound t"
proof -
  note inv = soundD(1,2) [OF assms(1)]
  from assms(2) have "stop_ok t"
  proof cases
    case (tell_left c name now)
    then show ?thesis using stop_client [OF inv(2), of "LeaveRoom c"] by simp
  next
    case (remove c now)
    then show ?thesis using stop_client [OF inv(2), of "RemoveClient c"] by simp
  next
    case (connect c now)
    then show ?thesis using stop_client [OF inv(2), of "AddClient c"] by simp
  next
    case (evict_open i now)
    then show ?thesis using stop_evict [OF inv] by simp
  next
    case (evict_fatal i now)
    then show ?thesis using stop_evict [OF inv] by simp
  qed (use inv in \<open>auto intro!: inv_intros\<close>)
  then show ?thesis using hub_inv_step [OF inv(1) assms(2)] done_step [OF assms] by (simp add: sound_def)
qed

interpretation sound_machine: invariant_machine "\<lambda>s. s = hub_start" "hub_step cfg" sound
  for cfg
  by unfold_locales (auto intro: sound_start sound_step)

section \<open>Shutdown\<close>

text \<open>The whole work, which a closing hub only ever reduces.\<close>

definition hub_work :: "hub \<Rightarrow> nat" where
  "hub_work s = (\<Sum>i < rg_next (hb_reg s). work_left (phase_of s i))"

lemma down_work:
  assumes "sound s" "hub_step cfg s t" "hb_down s"
  shows "hub_work t \<le> hub_work s" "work_left (phase_of t i) \<noteq> work_left (phase_of s i) \<Longrightarrow> hub_work t < hub_work s"
proof -
  have n: "rg_next (hb_reg t) = rg_next (hb_reg s)" using down_keeps(2) [OF assms(2,3)] by simp
  have le: "work_left (phase_of t j) \<le> work_left (phase_of s j)" for j
    using down_phase [OF assms(2,3), of j] .
  then show "hub_work t \<le> hub_work s" unfolding hub_work_def n by (intro sum_mono)
  assume "work_left (phase_of t i) \<noteq> work_left (phase_of s i)"
  with le [of i] have lt: "work_left (phase_of t i) < work_left (phase_of s i)" by simp
  then have "phase_of s i \<noteq> Gone" by auto
  then have "i < rg_next (hb_reg s)" using stop_okD(1) [OF soundD(2) [OF assms(1)]] by blast
  with le lt show "hub_work t < hub_work s" unfolding hub_work_def n
    by (intro sum_strict_mono_ex1) auto
qed

text \<open>A room that has not gone takes itself there.\<close>

lemma gone_winds:
  assumes "phase_of s i = Gone"
  shows "set_phase i Gone s = s"
  using assms by (simp add: set_phase_def fun_upd_idem)

lemma set_twice: "set_phase i ph' (set_phase i ph s) = set_phase i ph' s"
  by (simp add: set_phase_def)

lemma room_winds_down:
  assumes "hb_down s" "live (phase_of s i) \<Longrightarrow> in_stop (hb_inst s i)"
  shows "(hub_step cfg)\<^sup>*\<^sup>* s (set_phase i Gone s)"
proof -
  have ev: "evict_room cfg 0 i s = s" using assms(1) by (simp add: evict_room_def takes_down)
  have serving: "hub_step cfg u (set_phase i Gone u)" if "phase_of u i = Serving" "in_stop (hb_inst u i)" for u
    using that by (rule hub_step.stopped)
  have draining: "hub_step cfg u (set_phase i Gone u)" if "phase_of u i = Draining" for u
    using that by (rule hub_step.drained)
  show ?thesis
  proof (cases "phase_of s i")
    case Opening
    have "hub_step cfg s (set_phase i Serving s)" using Opening by (rule hub_step.opened)
    moreover have "hub_step cfg (set_phase i Serving s) (set_phase i Gone s)"
      using serving [of "set_phase i Serving s"] assms(2) Opening by (simp add: set_twice)
    ultimately show ?thesis by auto
  next
    case FailedOpen
    have "hub_step cfg s (set_phase i Draining s)" using hub_step.evict_open [OF FailedOpen, of cfg 0] ev by simp
    moreover have "hub_step cfg (set_phase i Draining s) (set_phase i Gone s)"
      using draining [of "set_phase i Draining s"] by (simp add: set_twice)
    ultimately show ?thesis by auto
  next
    case FailedFatal
    then show ?thesis using hub_step.evict_fatal [OF FailedFatal, of cfg 0] ev by auto
  next
    case (Announcing q)
    have "hub_step cfg s (set_phase i Serving s)" using Announcing assms(1) by (rule hub_step.not_noted)
    moreover have "hub_step cfg (set_phase i Serving s) (set_phase i Gone s)"
      using serving [of "set_phase i Serving s"] assms(2) Announcing by (simp add: set_twice)
    ultimately show ?thesis by auto
  next
    case Serving
    then show ?thesis using serving [OF Serving] assms(2) by auto
  next
    case Draining
    then show ?thesis using draining [OF Draining] by auto
  qed (simp add: gone_winds)
qed

lemma rooms_wind_down:
  assumes "sound s" "hb_down s"
  shows "\<exists>t. (hub_step cfg)\<^sup>*\<^sup>* s t \<and> hb_conn t = hb_conn s \<and> hb_down t \<and> (\<forall>i<n. phase_of t i = Gone)"
proof (induction n)
  case (Suc n)
  then obtain t where t: "(hub_step cfg)\<^sup>*\<^sup>* s t" "hb_conn t = hb_conn s" "hb_down t" "\<forall>i<n. phase_of t i = Gone"
    by blast
  have "sound t" using t(1) assms(1) by (rule sound_machine.inv_steps)
  then have "live (phase_of t n) \<Longrightarrow> in_stop (hb_inst t n)"
    using stop_okD(2) [OF soundD(2)] t(3) by blast
  with t(3) have "(hub_step cfg)\<^sup>*\<^sup>* t (set_phase n Gone t)" by (rule room_winds_down)
  with t show ?case by (intro exI [of _ "set_phase n Gone t"]) (auto simp: less_Suc_eq)
qed (use assms(2) in auto)

lemma winds_down:
  assumes "sound s" "hb_down s"
  shows "\<exists>t. (hub_step cfg)\<^sup>*\<^sup>* s t \<and> hb_conn t = hb_conn s \<and> hb_down t \<and> hb_done t \<and> (\<forall>i. phase_of t i = Gone)"
proof -
  obtain t where t: "(hub_step cfg)\<^sup>*\<^sup>* s t" "hb_conn t = hb_conn s" "hb_down t"
    "\<forall>i < rg_next (hb_reg s). phase_of t i = Gone" using rooms_wind_down [OF assms] by blast
  have st: "sound t" using t(1) assms(1) by (rule sound_machine.inv_steps)
  have "hb_down t \<and> rg_next (hb_reg t) = rg_next (hb_reg s)"
    using t(1) assms(2) by (induction rule: rtranclp_induct) (auto dest: down_keeps)
  with t(4) have gone: "\<forall>i. phase_of t i = Gone" using stop_okD(1) [OF soundD(2) [OF st]] by metis
  then have "rooms_gone t" using gone_all [OF soundD(2) [OF st]] by simp
  from hub_step.finished [OF t(3) this, of cfg] t(1) have "(hub_step cfg)\<^sup>*\<^sup>* s (close_done t)" by simp
  with gone t(2,3) show ?thesis by (intro exI [of _ "close_done t"]) (simp add: close_done_def)
qed

section \<open>Calls return\<close>

text \<open>A room that is not at its channels comes back to them, or goes, without help from a session.\<close>

lemma takes_conn [simp]: "hb_conn (registry_takes cfg now ev s) = hb_conn s"
  by (simp add: registry_takes_def case_prod_beta split: option.split prod.split)

lemma set_notes [simp]:
  "hb_notes (set_phase i ph s) = hb_notes s" "hb_notes (set_conn c a s) = hb_notes s"
  "hb_notes (registry_takes cfg now ev s) = hb_notes s"
  by (simp_all add: set_phase_def set_conn_def registry_takes_def case_prod_beta split: option.split prod.split)

text \<open>A room that waits to announce gets room in the queue once the registry has taken notes.\<close>

lemma take_note_open:
  assumes "\<not> hb_down s" "hb_notes s = n # ns"
  shows "\<not> hb_down (take_note cfg now s)" "hb_conn (take_note cfg now s) = hb_conn s"
    "hb_inst (take_note cfg now s) = hb_inst s" "hb_notes (take_note cfg now s) = ns"
  using assms by (simp_all add: take_note_def reg_simps reg_note_def case_prod_beta)

lemma announcing_comes_back:
  "phase_of s i = Announcing q \<Longrightarrow> \<exists>t. (hub_step cfg)\<^sup>*\<^sup>* s t \<and> hb_conn t = hb_conn s \<and> phase_of t i = Serving"
proof (induction "hb_notes s" arbitrary: s)
  case Nil
  let ?t = "set_phase i Serving (notify_activity (in_name (hb_inst s i)) q s)"
  have "hub_step cfg s ?t" using Nil by (intro hub_step.noted) (simp_all add: activity_queue_def)
  then show ?case by (intro exI [of _ ?t]) (auto simp: notify_activity_def)
next
  case (Cons n ns)
  show ?case
  proof (cases "hb_down s")
    case True
    with Cons.prems have "hub_step cfg s (set_phase i Serving s)" by (rule hub_step.not_noted)
    then show ?thesis by (intro exI [of _ "set_phase i Serving s"]) auto
  next
    case False
    note u = take_note_open [OF False Cons.hyps(2) [symmetric], of cfg 0]
    obtain t where t: "(hub_step cfg)\<^sup>*\<^sup>* (take_note cfg 0 s) t" "hb_conn t = hb_conn (take_note cfg 0 s)"
      "phase_of t i = Serving" using Cons.hyps(1) [of "take_note cfg 0 s"] u(3,4) Cons.prems by auto
    have "hub_step cfg s (take_note cfg 0 s)" by (rule hub_step.note_taken)
    from converse_rtranclp_into_rtranclp [of "hub_step cfg", OF this t(1)] t(2,3) u(2) show ?thesis by auto
  qed
qed

lemma room_comes_back:
  "\<exists>t. (hub_step cfg)\<^sup>*\<^sup>* s t \<and> hb_conn t = hb_conn s \<and> phase_of t i \<in> {Serving, Draining, Gone}"
proof (cases "phase_of s i")
  case Opening
  then have "hub_step cfg s (set_phase i Serving s)" by (rule hub_step.opened)
  then show ?thesis by (intro exI [of _ "set_phase i Serving s"]) auto
next
  case (Announcing q)
  from announcing_comes_back [OF this] show ?thesis by fast
next
  case FailedOpen
  then have "hub_step cfg s (set_phase i Draining (evict_room cfg 0 i s))" by (rule hub_step.evict_open)
  then show ?thesis
    by (intro exI [of _ "set_phase i Draining (evict_room cfg 0 i s)"]) (auto simp: evict_room_def)
next
  case FailedFatal
  then have "hub_step cfg s (set_phase i Gone (evict_room cfg 0 i s))" by (rule hub_step.evict_fatal)
  then show ?thesis
    by (intro exI [of _ "set_phase i Gone (evict_room cfg 0 i s)"]) (auto simp: evict_room_def)
qed auto

definition returned :: "at \<Rightarrow> bool" where
  "returned a \<longleftrightarrow> a = Closed \<or> (\<exists>r. a = Ready r)"

definition can_return :: "hub_config \<Rightarrow> nat \<Rightarrow> hub \<Rightarrow> bool" where
  "can_return cfg c s \<longleftrightarrow> (\<exists>t. (hub_step cfg)\<^sup>*\<^sup>* s t \<and> returned (hb_conn t c))"

lemma can_return_now: "returned (hb_conn s c) \<Longrightarrow> can_return cfg c s"
  by (auto simp: can_return_def)

lemma can_return_step: "hub_step cfg s t \<Longrightarrow> can_return cfg c t \<Longrightarrow> can_return cfg c s"
  by (auto simp: can_return_def intro: converse_rtranclp_into_rtranclp)

lemma can_return_steps: "(hub_step cfg)\<^sup>*\<^sup>* s t \<Longrightarrow> can_return cfg c t \<Longrightarrow> can_return cfg c s"
  unfolding can_return_def by (blast intro: rtranclp_trans)

lemma returned_simps [simp]: "returned (Ready r)" "returned Closed"
  by (simp_all add: returned_def)

lemma joining_returns:
  assumes "\<And>s name. sound s \<Longrightarrow> hb_conn s c = Asking name k \<Longrightarrow> can_return cfg c s"
    and "sound s" "hb_conn s c = Joining name i k"
  shows "can_return cfg c s"
proof -
  obtain t where t: "(hub_step cfg)\<^sup>*\<^sup>* s t" "hb_conn t c = Joining name i k"
    "phase_of t i \<in> {Serving, Draining, Gone}"
    using room_comes_back [of cfg s i] assms(3) by metis
  have st: "sound t" using t(1) assms(2) by (rule sound_machine.inv_steps)
  consider "phase_of t i = Serving" | "phase_of t i = Draining" | "phase_of t i = Gone" using t(3) by blast
  then have "can_return cfg c t"
  proof cases
    case 1
    from hub_step.joined [OF t(2) this] show ?thesis by (rule can_return_step) (simp add: can_return_now)
  next
    case 2
    from hub_step.join_refused [OF t(2) this] show ?thesis by (rule can_return_step) (simp add: can_return_now)
  next
    case 3
    from hub_step.join_closed [OF t(2) this] have step: "hub_step cfg t (set_conn c (Asking name k) t)" .
    have "can_return cfg c (set_conn c (Asking name k) t)"
      using sound_step [OF st step] by (rule assms(1)) simp
    with step show ?thesis by (rule can_return_step)
  qed
  with t(1) show ?thesis by (rule can_return_steps)
qed

text \<open>A session that asks a registry which is shutting down waits for it to be done.\<close>

lemma asking_down_returns:
  assumes "sound s" "hb_down s" "hb_conn s c = Asking name (Suc k)"
  shows "can_return cfg c s"
proof -
  obtain t where t: "(hub_step cfg)\<^sup>*\<^sup>* s t" "hb_conn t = hb_conn s" "hb_down t" "hb_done t"
    using winds_down [OF assms(1,2)] by blast
  have step: "hub_step cfg t (ask_registry cfg 0 c name k t)"
    using t(2,4) assms(3) by (intro hub_step.ask) simp_all
  have "hb_conn (ask_registry cfg 0 c name k t) c = Ready None" using t(3) by (simp add: ask_registry_def)
  then have "can_return cfg c (ask_registry cfg 0 c name k t)" by (intro can_return_now) simp
  with step have "can_return cfg c t" by (rule can_return_step)
  with t(1) show ?thesis by (rule can_return_steps)
qed

lemma asking_returns: "sound s \<Longrightarrow> hb_conn s c = Asking name k \<Longrightarrow> can_return cfg c s"
proof (induction k arbitrary: s name)
  case 0
  from hub_step.give_up [OF 0(2)] show ?case by (rule can_return_step) (simp add: can_return_now)
next
  case (Suc k)
  show ?case
  proof (cases "hb_down s")
    case True
    with Suc.prems show ?thesis by (intro asking_down_returns)
  next
    case False
    let ?t = "ask_registry cfg 0 c name k s"
    have step: "hub_step cfg s ?t" using Suc.prems(2) False by (intro hub_step.ask) simp_all
    have "returned (hb_conn ?t c) \<or> (\<exists>i. hb_conn ?t c = Joining name i k)"
      by (auto simp: ask_registry_def Let_def split: option.split)
    then have "can_return cfg c ?t"
    proof (elim disjE exE)
      show "can_return cfg c ?t" if "hb_conn ?t c = Joining name i k" for i
        using Suc.IH sound_step [OF Suc.prems(1) step] that by (rule joining_returns)
    qed (rule can_return_now)
    with step show ?thesis by (rule can_return_step)
  qed
qed

lemma telling_returns:
  assumes "sound s" "hb_conn s c = TellingLeft name"
  shows "can_return cfg c s"
proof -
  note step = hub_step.tell_left [OF assms(2), of cfg 0]
  have "can_return cfg c (set_conn c (Asking name join_attempts) (registry_takes cfg 0 (Cmd (LeaveRoom c)) s))"
    using sound_step [OF assms(1) step] by (rule asking_returns) simp
  with step show ?thesis by (rule can_return_step)
qed

lemma removing_returns: "hb_conn s c = Removing \<Longrightarrow> can_return cfg c s"
  by (erule can_return_step [OF hub_step.remove]) (simp add: can_return_now)

lemma leaving_returns:
  assumes "sound s" "hb_conn s c = Leaving name i aim"
  shows "can_return cfg c s"
proof -
  obtain t where t: "(hub_step cfg)\<^sup>*\<^sup>* s t" "hb_conn t c = Leaving name i aim"
    "phase_of t i \<in> {Serving, Draining, Gone}"
    using room_comes_back [of cfg s i] assms(2) by metis
  note step = hub_step.leave [OF t(2,3), of cfg]
  have "sound (set_conn c (after_leave aim) t)"
    using sound_machine.inv_steps [OF t(1) assms(1)] step by (rule sound_step)
  then have "can_return cfg c (set_conn c (after_leave aim) t)"
    by (cases aim) (simp_all add: telling_returns removing_returns)
  with step have "can_return cfg c t" by (rule can_return_step)
  with t(1) show ?thesis by (rule can_return_steps)
qed

lemma submitting_returns:
  assumes "hb_conn s c = Submitting name i"
  shows "can_return cfg c s"
proof -
  obtain t where t: "(hub_step cfg)\<^sup>*\<^sup>* s t" "hb_conn t c = Submitting name i"
    "phase_of t i \<in> {Serving, Draining, Gone}"
    using room_comes_back [of cfg s i] assms by metis
  from hub_step.submit [OF t(2,3)] have "can_return cfg c t"
    by (rule can_return_step) (simp add: can_return_now)
  with t(1) show ?thesis by (rule can_return_steps)
qed

section \<open>What can be reached\<close>

text \<open>Shutdown can complete. Once the context is cancelled, with whatever rooms are open, opening,
  failing or blocked on the registry and whatever the sessions are doing: the rooms can all be run to
  their end and the registry to done, with no help from any session; no step from there on, of anyone,
  adds to the work that is left, and each one that takes a room out of a stage of its life reduces it, so
  these are bounded in number; and done is not reported before every room, with its archive, has
  closed.\<close>

theorem shutdown_completes:
  assumes "(hub_step cfg)\<^sup>*\<^sup>* hub_start s" "hb_down s"
  shows "(\<exists>t. (hub_step cfg)\<^sup>*\<^sup>* s t \<and> hb_done t \<and> (\<forall>i. phase_of t i = Gone) \<and> hb_conn t = hb_conn s) \<and>
    (\<forall>t. hub_step cfg s t \<longrightarrow> hb_down t \<and> hub_work t \<le> hub_work s \<and>
       ((\<exists>i. work_left (phase_of t i) \<noteq> work_left (phase_of s i)) \<longrightarrow> hub_work t < hub_work s)) \<and>
    (hb_done s \<longrightarrow> (\<forall>i. phase_of s i = Gone))"
proof -
  have s: "sound s" using refl assms(1) by (rule sound_machine.reach_inv)
  have "\<exists>t. (hub_step cfg)\<^sup>*\<^sup>* s t \<and> hb_done t \<and> (\<forall>i. phase_of t i = Gone) \<and> hb_conn t = hb_conn s"
    using winds_down [OF s assms(2)] by blast
  with down_keeps(1) [OF _ assms(2)] down_work [OF s _ assms(2)] soundD(4) [OF s] show ?thesis by blast
qed

text \<open>No call of a session is stuck. In every state the hub can reach, with rooms opening, failing,
  draining or stopped and the registry running, shutting down or done, a connected session whose frame or
  hang-up is being handled has a run to its end: it gets back to reading the next frame, or is closed.\<close>

theorem calls_return:
  assumes "(hub_step cfg)\<^sup>*\<^sup>* hub_start s" "hb_conn s c \<noteq> NotConnected"
  shows "\<exists>t. (hub_step cfg)\<^sup>*\<^sup>* s t \<and> (hb_conn t c = Closed \<or> (\<exists>r. hb_conn t c = Ready r))"
proof -
  have s: "sound s" using refl assms(1) by (rule sound_machine.reach_inv)
  have "can_return cfg c s"
    using assms(2) asking_returns [OF s] telling_returns [OF s] removing_returns leaving_returns [OF s]
      submitting_returns joining_returns [OF asking_returns s] can_return_now [of s c cfg]
    by (cases "hb_conn s c") auto
  then show ?thesis by (simp add: can_return_def returned_def)
qed

text \<open>One client in a room; the context is cancelled, and it asks for a room again.\<close>

definition asking_while_down :: "hub_config \<Rightarrow> hub" where
  "asking_while_down cfg =
     set_conn 1 (Asking ''r'' 3) (set_conn 1 (TellingLeft ''r'') (set_conn 1 (Leaving ''r'' 0 (Switch ''r''))
       (registry_takes cfg 0 Cancelled (one_in_room cfg))))"

lemma asking_while_down_facts:
  "(hub_step cfg)\<^sup>*\<^sup>* hub_start (asking_while_down cfg)" "hb_down (asking_while_down cfg)"
  "hb_conn (asking_while_down cfg) 1 = Asking ''r'' 3"
proof -
  note f = one_in_room_facts [of cfg]
  have conn: "hb_conn (one_in_room cfg) 1 = Ready (Some (''r'', 0))" by (simp add: one_in_room_def Let_def)
  let ?s0 = "registry_takes cfg 0 Cancelled (one_in_room cfg)"
  let ?s1 = "set_conn 1 (Leaving ''r'' 0 (Switch ''r'')) ?s0"
  let ?s2 = "set_conn 1 (TellingLeft ''r'') ?s1"
  have s0: "hb_conn ?s0 1 = Ready (Some (''r'', 0))" "phase_of ?s0 0 = Serving" "hb_down ?s0"
    using f(2,4) conn by (simp_all add: reg_simps reg_shutdown_def act_on_rooms_append)
  have "hub_step cfg (one_in_room cfg) ?s0" by (rule hub_step.cancel)
  moreover have "hub_step cfg ?s0 ?s1" using s0(1) by (rule hub_step.frame_switch)
  moreover have "hub_step cfg ?s1 ?s2"
    using hub_step.leave [of ?s1 1 "''r''" 0 "Switch ''r''" cfg] s0(2) by simp
  moreover have "hub_step cfg ?s2 (asking_while_down cfg)"
    using hub_step.tell_left [of ?s2 1 "''r''" cfg 0] s0(3)
    by (simp add: asking_while_down_def takes_down join_attempts_def)
  ultimately show "(hub_step cfg)\<^sup>*\<^sup>* hub_start (asking_while_down cfg)"
    using f(1) by (meson rtranclp.rtrancl_into_rtrancl)
  show "hb_down (asking_while_down cfg)" "hb_conn (asking_while_down cfg) 1 = Asking ''r'' 3"
    using s0(3) by (simp_all add: asking_while_down_def)
qed

theorem shutdown_completes_witness:
  "let cfg = sv_cfg sample_server; s = asking_while_down cfg
   in (hub_step cfg)\<^sup>*\<^sup>* hub_start s \<and> hb_down s \<and>
     (\<exists>t. (hub_step cfg)\<^sup>*\<^sup>* s t \<and> hb_done t \<and> hb_conn t = hb_conn s)"
  using asking_while_down_facts(1,2) [of "sv_cfg sample_server"]
    shutdown_completes [OF asking_while_down_facts(1,2) [of "sv_cfg sample_server"]]
  unfolding Let_def by blast

theorem calls_return_witness:
  "let cfg = sv_cfg sample_server; s = asking_while_down cfg
   in hb_down s \<and> hb_conn s 1 = Asking ''r'' 3 \<and>
     (\<exists>t. (hub_step cfg)\<^sup>*\<^sup>* s t \<and> (hb_conn t 1 = Closed \<or> (\<exists>r. hb_conn t 1 = Ready r)))"
  using asking_while_down_facts(2,3) [of "sv_cfg sample_server"]
    calls_return [OF asking_while_down_facts(1) [of "sv_cfg sample_server"], of 1]
  unfolding Let_def by simp

end
