(* ===== verification/HubRefines.thy ===== *)
theory HubRefines
  imports Lifetime HubLiveness
begin

text \<open>
  The rooms of theory \<open>Hub\<close> are those of theory \<open>Room\<close>: what a turn of a room's goroutine does to its
  phase, to the session it serves and to the registry is a step of the hub. The phase after a turn is
  read off the turn's result.
\<close>

section \<open>What the hub sees of a turn\<close>

text \<open>A turn takes place when the event is there: the stop signal, or a session in the call.\<close>

fun event_at :: "hub \<Rightarrow> nat \<Rightarrow> string \<Rightarrow> room_event \<Rightarrow> bool" where
  "event_at s i name Shutdown = in_stop (hb_inst s i)"
| "event_at s i name (Register c since) = (\<exists>k. hb_conn s c = Joining name i k)"
| "event_at s i name (Unregister c) = (\<exists>aim. hb_conn s c = Leaving name i aim)"
| "event_at s i name (Request c f) = (hb_conn s c = Submitting name i)"

definition phase_after :: "room_event \<Rightarrow> room option \<Rightarrow> action list \<Rightarrow> phase" where
  "phase_after ev ro acts =
     (case ro of
        None \<Rightarrow> if ev = Shutdown then Gone else FailedFatal
      | Some r \<Rightarrow> (case announced acts of [] \<Rightarrow> Serving | q # qs \<Rightarrow> Announcing q))"

text \<open>The session that was served has its answer: it is in the room, out of it, or reading again.\<close>

fun served :: "hub \<Rightarrow> hub \<Rightarrow> nat \<Rightarrow> string \<Rightarrow> room_event \<Rightarrow> bool" where
  "served s t i name Shutdown \<longleftrightarrow> hb_conn t = hb_conn s"
| "served s t i name (Register c since) \<longleftrightarrow> hb_conn t = (hb_conn s)(c := Ready (Some (name, i)))"
| "served s t i name (Unregister c) \<longleftrightarrow>
     (\<exists>aim. hb_conn s c = Leaving name i aim \<and> hb_conn t = (hb_conn s)(c := after_leave aim))"
| "served s t i name (Request c f) \<longleftrightarrow> hb_conn t = (hb_conn s)(c := Ready (Some (name, i)))"

lemma answered_quiet:
  assumes "answered d r c d' r' acts"
  shows "announced acts = []"
proof -
  have "list_all (\<lambda>a. \<exists>b. a = Send c b) acts" using assms by (simp add: answered_def)
  then show ?thesis by (induction acts) auto
qed

lemma handle_announces:
  assumes "handle sv fl now d r c f = Some (None, d', r', acts)" "rm_name r \<noteq> []"
  shows "announced acts = [] \<or> announced acts = [hi_last (rm_hist r) + 1]"
proof -
  have "answered d r c d' r' acts \<or> fanned_out r r' acts"
    using assms publish_outcome shush_outcome backfill_outcome refuse_answered
    by (auto simp: handle_def split: if_splits)
  then show ?thesis by (auto simp: fanned_out_def dest: answered_quiet)
qed

lemma handle_name:
  assumes "handle sv fl now d r c f = Some (e, d', r', acts)"
  shows "rm_name r' = rm_name r"
proof -
  have bc: "rm_name r' = rm_name r" if "broadcast sv fl now d r c h p = Some (e, d', r', acts)" for h p
    using that by (auto simp: broadcast_def refuse_def Let_def split: prod.splits sum.splits option.splits)
  have "rm_name r' = rm_name r" if "publish sv fl now d r c f = Some (e, d', r', acts)"
    using that by (auto simp: publish_def refuse_def Let_def split: sum.splits if_splits dest: bc)
  moreover have "rm_name r' = rm_name r" if "shush sv fl now d r c f = Some (e, d', r', acts)"
    using that by (auto simp: shush_def refuse_def split: sum.splits if_splits dest: bc)
  moreover have "rm_name r' = rm_name r" if "backfill sv fl d r c f = Some (e, d', r', acts)"
    using that by (auto simp: backfill_def refuse_def split: option.splits prod.splits if_splits)
  ultimately show ?thesis using assms by (auto simp: handle_def refuse_def split: if_splits)
qed

lemma handle_activity:
  assumes "handle sv fl now d r c f = Some (None, d', r', acts)" "rm_name r \<noteq> []" "announced acts = q # qs"
  shows "last acts = Activity (rm_name r) q"
proof -
  have "answered d r c d' r' acts \<or> fanned_out r r' acts"
    using assms(1,2) publish_outcome shush_outcome backfill_outcome refuse_answered
    by (auto simp: handle_def split: if_splits)
  with assms(3) show ?thesis by (auto simp: fanned_out_def dest: answered_quiet)
qed

text \<open>A handler that fails has sent nothing.\<close>

lemma handle_fatal:
  assumes "handle sv fl now d r c f = Some (Some e, d', r', acts)"
  shows "acts = []"
proof -
  have bc: "acts = []" if "broadcast sv fl now d r c h p = Some (Some e, d', r', acts)" for h p
    using that by (auto simp: broadcast_def refuse_def Let_def split: prod.splits sum.splits option.splits)
  have "acts = []" if "publish sv fl now d r c f = Some (Some e, d', r', acts)"
    using that by (auto simp: publish_def refuse_def Let_def split: sum.splits if_splits dest: bc)
  moreover have "acts = []" if "shush sv fl now d r c f = Some (Some e, d', r', acts)"
    using that by (auto simp: shush_def refuse_def split: sum.splits if_splits dest: bc)
  moreover have "\<not> backfill sv fl d r c f = Some (Some e, d', r', acts)"
    by (auto simp: backfill_def refuse_def split: option.splits prod.splits if_splits)
  ultimately show ?thesis using assms by (auto simp: handle_def refuse_def split: if_splits)
qed

definition matches :: "hub \<Rightarrow> hub \<Rightarrow> nat \<Rightarrow> string \<Rightarrow> room_event \<Rightarrow> room option \<Rightarrow> action list \<Rightarrow> bool" where
  "matches s t i name ev ro acts \<longleftrightarrow>
     hb_inst t = (hb_inst s)(i := (hb_inst s i)\<lparr>in_phase := phase_after ev ro acts\<rparr>) \<and>
     served s t i name ev \<and> hb_reg t = hb_reg s \<and> hb_notes t = hb_notes s \<and> hb_down t = hb_down s"

lemma matches_conn:
  assumes "phase_of s i = ph" "ph = phase_after ev ro acts" "served s (set_conn c a s) i name ev"
  shows "matches s (set_conn c a s) i name ev ro acts"
  using assms by (simp add: matches_def set_conn_def fun_upd_idem)

lemma matches_phase:
  assumes "ph = phase_after ev ro acts" "served s (set_conn c a (set_phase i ph s)) i name ev"
  shows "matches s (set_conn c a (set_phase i ph s)) i name ev ro acts"
  using assms by (simp add: matches_def set_conn_def set_phase_def)

definition simulated :: "hub_config \<Rightarrow> hub \<Rightarrow> nat \<Rightarrow> string \<Rightarrow> room_event \<Rightarrow> room option \<Rightarrow> action list \<Rightarrow> bool" where
  "simulated cfg s i name ev ro acts \<longleftrightarrow>
     (\<exists>t. hub_step cfg s t \<and> matches s t i name ev ro acts) \<and>
     (\<forall>q. phase_after ev ro acts = Announcing q \<longrightarrow> last acts = Activity name q) \<and>
     (phase_after ev ro acts = FailedFatal \<longrightarrow> hd acts = Evict name)"

lemma simulatedI:
  "hub_step cfg s t \<Longrightarrow> matches s t i name ev ro acts \<Longrightarrow>
    (\<And>q. phase_after ev ro acts = Announcing q \<Longrightarrow> last acts = Activity name q) \<Longrightarrow>
    (phase_after ev ro acts = FailedFatal \<Longrightarrow> hd acts = Evict name) \<Longrightarrow> simulated cfg s i name ev ro acts"
  unfolding simulated_def by blast

section \<open>The events one by one\<close>

lemma shutdown_simulated:
  assumes "room_turn sv fl now d r Shutdown = Some (ro, d', acts)"
    and "phase_of s i = Serving" "event_at s i (rm_name r) Shutdown"
  shows "simulated cfg s i (rm_name r) Shutdown ro acts"
proof -
  have "hub_step cfg s (set_phase i Gone s)" using hub_step.stopped [OF assms(2)] assms(3) by simp
  then show ?thesis
    by (rule simulatedI) (use assms(1) in \<open>simp_all add: room_turn_def matches_def phase_after_def set_phase_def\<close>)
qed

lemma register_simulated:
  assumes "room_turn sv fl now d r (Register c since) = Some (ro, d', acts)"
    and "phase_of s i = Serving" "event_at s i (rm_name r) (Register c since)"
  shows "simulated cfg s i (rm_name r) (Register c since) ro acts"
proof -
  obtain k where k: "hb_conn s c = Joining (rm_name r) i k" using assms(3) by auto
  obtain r' acts' where j: "join sv fl d r c since = Some (r', acts')" "ro = Some r'" "acts = acts' @ [JoinReply c None]"
    using assms(1) by (auto simp: room_turn_def split: option.splits)
  have "announced acts' = []" using j(1) by (auto simp: join_def deliver_def Let_def split: option.splits)
  then have ph: "phase_after (Register c since) ro acts = Serving" using j by (simp add: phase_after_def)
  have "matches s (set_conn c (Ready (Some (rm_name r, i))) s) i (rm_name r) (Register c since) ro acts"
    by (rule matches_conn [OF assms(2) ph [symmetric]]) (simp add: set_conn_def)
  with hub_step.joined [OF k assms(2)] show ?thesis by (rule simulatedI) (simp_all add: ph)
qed

lemma unregister_simulated:
  assumes "room_turn sv fl now d r (Unregister c) = Some (ro, d', acts)"
    and "phase_of s i = Serving" "event_at s i (rm_name r) (Unregister c)"
  shows "simulated cfg s i (rm_name r) (Unregister c) ro acts"
proof -
  obtain aim where k: "hb_conn s c = Leaving (rm_name r) i aim" using assms(3) by auto
  have ph: "phase_after (Unregister c) ro acts = Serving" using assms(1) by (auto simp: room_turn_def phase_after_def)
  have "hub_step cfg s (set_conn c (after_leave aim) s)" by (rule hub_step.leave [OF k]) (simp add: assms(2))
  moreover have "matches s (set_conn c (after_leave aim) s) i (rm_name r) (Unregister c) ro acts"
    by (rule matches_conn [OF assms(2) ph [symmetric]]) (use k in \<open>simp add: set_conn_def\<close>)
  ultimately show ?thesis by (rule simulatedI) (simp_all add: ph)
qed

lemma request_simulated:
  assumes "room_turn sv fl now d r (Request c f) = Some (ro, d', acts)" "rm_name r \<noteq> []"
    and "phase_of s i = Serving" "event_at s i (rm_name r) (Request c f)"
  shows "simulated cfg s i (rm_name r) (Request c f) ro acts"
proof -
  let ?ready = "set_conn c (Ready (Some (rm_name r, i)))"
  have k: "hb_conn s c = Submitting (rm_name r) i" using assms(4) by simp
  obtain e d1 r1 acts1 where h: "handle sv fl now d r c f = Some (e, d1, r1, acts1)"
    using assms(1) by (cases "handle sv fl now d r c f") (auto simp: room_turn_def)
  have to: "matches s (?ready (set_phase i ph s)) i (rm_name r) (Request c f) ro acts"
    if "phase_after (Request c f) ro acts = ph" for ph
    by (rule matches_phase [OF that [symmetric]]) (simp add: set_conn_def set_phase_def)
  consider (quiet) "e = None" "announced acts1 = []" | (published) q qs where "e = None" "announced acts1 = q # qs"
    | (failed) err where "e = Some err" by (cases e; cases "announced acts1") auto
  then show ?thesis
  proof cases
    case quiet
    then have ph: "phase_after (Request c f) ro acts = Serving" using assms(1) h by (auto simp: room_turn_def phase_after_def)
    have "hub_step cfg s (?ready s)" by (rule hub_step.submit [OF k]) (simp add: assms(3))
    moreover have "matches s (?ready s) i (rm_name r) (Request c f) ro acts"
      by (rule matches_conn [OF assms(3) ph [symmetric]]) (simp add: set_conn_def)
    ultimately show ?thesis by (rule simulatedI) (simp_all add: ph)
  next
    case (published q qs)
    then have ph: "phase_after (Request c f) ro acts = Announcing q" and "acts = acts1"
      using assms(1) h by (auto simp: room_turn_def phase_after_def)
    with hub_step.submit_publish [OF k assms(3)] to [OF ph] show ?thesis
      by (intro simulatedI) (use handle_activity h published assms(2) in auto)
  next
    case (failed err)
    then have ph: "phase_after (Request c f) ro acts = FailedFatal" and "acts = acts1 @ fail_fatal r1"
      using assms(1) h by (auto simp: room_turn_def phase_after_def)
    moreover have "acts1 = []" using h unfolding failed by (rule handle_fatal)
    ultimately have "hd acts = Evict (rm_name r)" using handle_name [OF h] by (simp add: fail_fatal_def)
    with hub_step.submit_fatal [OF k assms(3)] to [OF ph] show ?thesis
      by (intro simulatedI) (simp_all add: ph)
  qed
qed

section \<open>Properties\<close>

text \<open>C12: the hub's rooms are the rooms. Whatever a room's goroutine does with an event that is at its
  channels, with whatever calls failing: the turn is one step of the hub, which leads the instance to the
  phase that can be read off the turn (serving, announcing the sequence that the turn announces last,
  failed, or gone), gives the session that was served its answer and changes nothing else; a room that
  fails asks first of all to be evicted.\<close>

theorem turns_are_hub_steps:
  assumes "room_turn sv fl now d r ev = Some (ro, d', acts)" "rm_name r \<noteq> []"
    and "phase_of s i = Serving" "event_at s i (rm_name r) ev"
  shows "(\<exists>t. hub_step cfg s t \<and> matches s t i (rm_name r) ev ro acts) \<and>
    (\<forall>q. phase_after ev ro acts = Announcing q \<longrightarrow> last acts = Activity (rm_name r) q) \<and>
    (phase_after ev ro acts = FailedFatal \<longrightarrow> hd acts = Evict (rm_name r))"
proof -
  have "simulated cfg s i (rm_name r) ev ro acts"
  proof (cases ev)
    case Shutdown
    with assms show ?thesis by (auto intro: shutdown_simulated)
  next
    case (Register c since)
    with assms show ?thesis by (simp add: register_simulated)
  next
    case (Unregister c)
    with assms show ?thesis by (simp add: unregister_simulated)
  next
    case (Request c f)
    with assms show ?thesis by (simp add: request_simulated)
  qed
  then show ?thesis unfolding simulated_def .
qed

theorem turns_are_hub_steps_witness:
  "let s = set_conn 1 (Submitting ''general'' 0) (set_phase 0 Serving hub_start)
   in \<exists>r' d' acts t. room_turn sample_server no_faults 0 sample_disk sample_room (Request 1 sample_frame) =
       Some (Some r', d', acts) \<and> last acts = Activity ''general'' 8 \<and>
     hub_step (sv_cfg sample_server) s t \<and> phase_of t 0 = Announcing 8 \<and> hb_conn t 1 = Ready (Some (''general'', 0))"
proof -
  have f: "clean_nick (f_nick sample_frame) = Inr ''sam''" "f_kind sample_frame = kind_text"
    "f_p sample_frame = ''hi''" "hi_last (rm_hist sample_room) \<noteq> - 1" "int64_range 0" "f_t sample_frame = frame_send"
    "hc_max_text (sv_cfg sample_server) = 16384" "rm_name sample_room = ''general''"
    using sample_nick sample_last by (simp_all add: sample_frame_def int64_range_def sample_server_def sample_room_def)
  obtain m where "broadcast_done sample_server sample_room [sample_text 7 ''hello''] m
      (publish sample_server no_faults 0 sample_disk sample_room 1 sample_frame)"
    using publish_text_spec [OF sample_room_inv sample_server_ok f(4,5,1,2), of 1] f(3,7) by auto
  then obtain d' r' acts where p: "publish sample_server no_faults 0 sample_disk sample_room 1 sample_frame = Some (None, d', r', acts)"
    "announced acts = [8]" using sample_last by (auto simp: broadcast_done_def)
  have turn: "room_turn sample_server no_faults 0 sample_disk sample_room (Request 1 sample_frame) = Some (Some r', d', acts)"
    using p(1) f(6) by (simp add: room_turn_def handle_def)
  have ph: "phase_after (Request 1 sample_frame) (Some r') acts = Announcing 8" using p(2) by (simp add: phase_after_def)
  let ?s = "set_conn 1 (Submitting ''general'' 0) (set_phase 0 Serving hub_start)"
  have s: "phase_of ?s 0 = Serving" "event_at ?s 0 (rm_name sample_room) (Request 1 sample_frame)"
    "rm_name sample_room \<noteq> []" by (simp_all add: f(8))
  obtain t where t: "hub_step (sv_cfg sample_server) ?s t"
    "matches ?s t 0 (rm_name sample_room) (Request 1 sample_frame) (Some r') acts"
    and last: "last acts = Activity (rm_name sample_room) 8"
    using turns_are_hub_steps [OF turn s(3,1,2), of "sv_cfg sample_server"] ph by blast
  have "phase_of t 0 = Announcing 8" "hb_conn t 1 = Ready (Some (''general'', 0))"
    using t(2) ph f(8) by (simp_all add: matches_def)
  with turn last t(1) f(8) show ?thesis unfolding Let_def by auto
qed

end
