(* ===== verification/Server.thy ===== *)
theory Server
  imports HubRefines
begin

text \<open>
  The whole server as one machine: the hub of theory \<open>Hub\<close>, every room instance with its own state
  (theory \<open>Room\<close>), and the one disk they share. Where the hub's rooms make a choice, the rooms of
  theory \<open>Room\<close> decide it: an instance serves because its archive did open, and the phase after a turn
  is the one of theory \<open>HubRefines\<close>. Any call of the operating system may fail at any time, the
  registry may sweep rooms, evict them and shut down, and the process may crash and start again with
  nothing but its disk.

  The question is whether that keeps what a room promises alone (theory \<open>Lifetime\<close>): an instance
  works on a file that another instance of its room may have written before.

  Three things bound the runs. The frames that clients send are a parameter of the step
  relation, and the properties assume that they all fit: a mime type of at most 27777 bytes, which no code
  checks. The clock is within Go's int64 milliseconds. And no room takes a turn after it has numbered
  the last of the 64 bits. The properties assume a server whose key lookup knows its own signer
  and whose text limit is at most 160000 bytes (the default is 16384).
\<close>

section \<open>States and steps\<close>

text \<open>\<open>ss_said\<close> remembers, by room, the sequences that its instances have announced.\<close>

record server_state =
  ss_hub :: hub
  ss_rooms :: "nat \<Rightarrow> room"
  ss_disk :: fs
  ss_said :: "string \<Rightarrow> u64 list"

abbreviation name_of :: "hub \<Rightarrow> nat \<Rightarrow> string" where
  "name_of h i \<equiv> in_name (hb_inst h i)"

text \<open>A session's call to a room instance.\<close>

fun calls :: "at \<Rightarrow> nat option" where
  "calls (Submitting name i) = Some i"
| "calls (Leaving name i aim) = Some i"
| "calls (Joining name i k) = Some i"
| "calls a = None"

text \<open>The moves of the hub that leave the rooms' own decisions to the rooms: no archive is opened, no room
  that serves goes on to something else, and nobody who waits for one that serves has an answer.\<close>

definition apart :: "hub \<Rightarrow> hub \<Rightarrow> bool" where
  "apart h h' \<longleftrightarrow>
     (\<forall>i. phase_of h i \<in> {Opening, Serving} \<longrightarrow> phase_of h' i = phase_of h i) \<and>
     (\<forall>c i. calls (hb_conn h c) = Some i \<and> phase_of h i = Serving \<longrightarrow> hb_conn h' c = hb_conn h c)"

text \<open>The frames that clients send: \<open>sends\<close> says which. The properties are about clients whose frames all fit
  (\<open>frame_fits\<close>: what the JSON decoder can give, with a mime type of at most 27777 bytes). No code checks
  the length of a mime type; what a longer one does to a room is \<open>long_mime_bricks_room\<close> in theory \<open>Room\<close>.\<close>

fun event_sent :: "(client_frame \<Rightarrow> bool) \<Rightarrow> room_event \<Rightarrow> bool" where
  "event_sent sends (Request c f) = sends f"
| "event_sent sends _ = True"

lemma event_sent_fits:
  assumes "\<forall>f. sends f \<longrightarrow> frame_fits f" "event_sent sends ev"
  shows "event_fits ev"
  using assms by (cases ev) auto

inductive server_step :: "server \<Rightarrow> (client_frame \<Rightarrow> bool) \<Rightarrow> server_state \<Rightarrow> server_state \<Rightarrow> bool" for sv sends where
  hub_moves: "hub_step (sv_cfg sv) (ss_hub s) h \<Longrightarrow> apart (ss_hub s) h \<Longrightarrow>
    server_step sv sends s (s\<lparr>ss_hub := h\<rparr>)"
| opens: "phase_of (ss_hub s) i = Opening \<Longrightarrow>
    open_room sv fl (ss_disk s) (name_of (ss_hub s) i) = (Inr r, d) \<Longrightarrow>
    server_step sv sends s (s\<lparr>ss_hub := set_phase i Serving (ss_hub s), ss_disk := d, ss_rooms := (ss_rooms s)(i := r)\<rparr>)"
| open_fails: "phase_of (ss_hub s) i = Opening \<Longrightarrow>
    open_room sv fl (ss_disk s) (name_of (ss_hub s) i) = (Inl e, d) \<Longrightarrow>
    server_step sv sends s (s\<lparr>ss_hub := set_phase i FailedOpen (ss_hub s), ss_disk := d\<rparr>)"
| turns: "phase_of (ss_hub s) i = Serving \<Longrightarrow> name = name_of (ss_hub s) i \<Longrightarrow> event_at (ss_hub s) i name ev \<Longrightarrow>
    room_turn sv fl now (ss_disk s) (ss_rooms s i) ev = Some (ro, d, acts) \<Longrightarrow>
    int64_range now \<Longrightarrow> event_sent sends ev \<Longrightarrow> hi_last (rm_hist (ss_rooms s i)) \<noteq> - 1 \<Longrightarrow>
    hub_step (sv_cfg sv) (ss_hub s) h \<Longrightarrow> matches (ss_hub s) h i name ev ro acts \<Longrightarrow>
    server_step sv sends s (s\<lparr>ss_hub := h, ss_disk := d,
      ss_rooms := (ss_rooms s)(i := case ro of None \<Rightarrow> ss_rooms s i | Some r \<Rightarrow> r),
      ss_said := (ss_said s)(name := ss_said s name @ announced acts)\<rparr>)"
| crash: "server_step sv sends s (s\<lparr>ss_hub := hub_start\<rparr>)"

inductive_cases server_stepE: "server_step sv sends s t"

text \<open>A server that starts for the first time: no room has a file.\<close>

definition server_start :: "server_state \<Rightarrow> bool" where
  "server_start s \<longleftrightarrow> ss_hub s = hub_start \<and>
     (\<forall>name. ss_disk s (room_path name) = None \<and> ss_said s name = [])"

section \<open>What the hub's moves leave alone\<close>

text \<open>A name enters the table with an instance that opens; names of instances change with that only.\<close>

lemma takes_table:
  assumes "t = registry_takes cfg now ev s"
  shows "room_of t n = Some i \<longrightarrow> room_of s n = Some i \<or> phase_of t i = Opening"
    and "(phase_of t i = phase_of s i \<and> name_of t i = name_of s i) \<or> phase_of t i = Opening"
    and "hb_notes t = hb_notes s"
proof -
  have "(room_of t n = Some i \<longrightarrow> room_of s n = Some i \<or> phase_of t i = Opening) \<and>
    ((phase_of t i = phase_of s i \<and> name_of t i = name_of s i) \<or> phase_of t i = Opening) \<and>
    hb_notes t = hb_notes s"
  proof (cases ev)
    case (Cmd cmd)
    with assms show ?thesis
      by (cases cmd) (auto simp: reg_simps reg_command_def AList.update_conv' AList.delete_conv' Let_def
          split: option.splits if_splits)
  next
    case Tick
    with assms show ?thesis
      by (auto simp: reg_simps reg_sweep_def map_of_filter_key split: if_splits)
  qed (use assms in \<open>auto simp: reg_simps reg_shutdown_def reg_note_def act_on_rooms_append\<close>)
  then show "room_of t n = Some i \<longrightarrow> room_of s n = Some i \<or> phase_of t i = Opening"
    "(phase_of t i = phase_of s i \<and> name_of t i = name_of s i) \<or> phase_of t i = Opening"
    "hb_notes t = hb_notes s" by blast+
qed

definition running :: "phase \<Rightarrow> bool" where
  "running ph \<longleftrightarrow> (case ph of Serving \<Rightarrow> True | Announcing q \<Rightarrow> True | _ \<Rightarrow> False)"

text \<open>What a move of the hub may do to an instance.\<close>

definition moved :: "hub \<Rightarrow> hub \<Rightarrow> nat \<Rightarrow> bool" where
  "moved s t i \<longleftrightarrow> phase_of t i = Opening \<or> (name_of t i = name_of s i \<and>
     (phase_of t i = phase_of s i \<or> \<not> running (phase_of t i) \<or>
      (phase_of t i = Serving \<and> (\<exists>q. phase_of s i = Announcing q))))"

definition calm :: "hub \<Rightarrow> hub \<Rightarrow> bool" where
  "calm s t \<longleftrightarrow> (\<forall>i. moved s t i) \<and>
     (\<forall>n i. room_of t n = Some i \<longrightarrow> room_of s n = Some i \<or> phase_of t i = Opening) \<and>
     (\<forall>n q. (n, q) \<in> set (hb_notes t) \<longrightarrow>
        (n, q) \<in> set (hb_notes s) \<or> (\<exists>i. phase_of s i = Announcing q \<and> name_of s i = n))"

lemma running_simps [simp]:
  "running Serving" "running (Announcing q)" "\<not> running Opening" "\<not> running Gone" "\<not> running Draining"
  "\<not> running FailedOpen" "\<not> running FailedFatal"
  by (simp_all add: running_def)

lemma calm_refl: "calm s s"
  by (simp add: calm_def moved_def)

lemma calm_conn [simp]: "calm s (set_conn c a t) = calm s t"
  by (simp add: calm_def moved_def set_conn_def)

lemma calm_done [simp]: "calm s (close_done t) = calm s t"
  by (simp add: calm_def moved_def close_done_def)

lemma calm_takes: "calm s (registry_takes cfg now ev s)"
  using takes_table [of _ cfg now ev s, OF refl] unfolding calm_def moved_def by metis

lemma evict_inst [simp]: "hb_inst (evict_room cfg now i s) = hb_inst s"
  by (simp add: evict_room_def reg_simps reg_command_def)

lemma calm_phase:
  assumes "calm s t" "phase_of t i = phase_of s i" "phase_of s i \<noteq> Opening"
    and "running ph \<Longrightarrow> ph = Serving \<and> (\<exists>q. phase_of s i = Announcing q)"
  shows "calm s (set_phase i ph t)"
proof -
  have "name_of t i = name_of s i" "\<And>n. room_of t n = Some i \<Longrightarrow> room_of s n = Some i"
    using assms(1-3) unfolding calm_def moved_def by metis+
  then show ?thesis using assms by (auto simp: calm_def moved_def)
qed

lemma calm_note: "calm s (take_note cfg now s)"
proof (cases "hb_notes s")
  case (Cons x ns)
  obtain n q where x: "x = (n, q)" by (cases x)
  have "calm s (registry_takes cfg now (Note n q) s)" by (rule calm_takes)
  with Cons x show ?thesis by (auto simp: take_note_def calm_def moved_def)
qed (simp add: take_note_def calm_refl)

lemma calm_evict: "calm s (evict_room cfg now i s)"
  unfolding evict_room_def by (rule calm_takes)

lemma calm_notify: "phase_of s i = Announcing q \<Longrightarrow> calm s (notify_activity (name_of s i) q s)"
  by (auto simp: calm_def moved_def notify_activity_def)

lemma calm_ask: "calm s (ask_registry cfg now c name k s)"
  using calm_takes calm_refl by (simp add: ask_registry_def Let_def split: option.split)

lemma calm_step:
  assumes "hub_step cfg s t" "apart s t"
  shows "calm s t"
  using assms(1)
proof cases
  case (submit_publish c name i q)
  with assms(2) show ?thesis by (auto simp: apart_def)
next
  case (opened i)
  with assms(2) show ?thesis by (auto simp: apart_def)
next
  case (open_failed i)
  with assms(2) show ?thesis by (auto simp: apart_def)
qed (auto intro!: calm_refl calm_takes calm_note calm_ask calm_phase calm_evict calm_notify)

section \<open>The invariant\<close>

text \<open>The instance that is in the table and runs is what its file says; every room's file opens to a room
  with all that was announced; and what is on its way to the registry was announced.\<close>

definition said_ok :: "server_state \<Rightarrow> bool" where
  "said_ok s \<longleftrightarrow>
     (\<forall>i q. phase_of (ss_hub s) i = Announcing q \<longrightarrow> q \<in> set (ss_said s (name_of (ss_hub s) i))) \<and>
     (\<forall>n q. (n, q) \<in> set (hb_notes (ss_hub s)) \<longrightarrow> q \<in> set (ss_said s n))"

definition kept :: "server \<Rightarrow> server_state \<Rightarrow> bool" where
  "kept sv s \<longleftrightarrow> (\<forall>n. validate_room_name n = None \<longrightarrow> restarts sv n (ss_disk s) (ss_said s n))"

definition current :: "server \<Rightarrow> server_state \<Rightarrow> nat \<Rightarrow> bool" where
  "current sv s i \<longleftrightarrow> (\<exists>ms. room_inv sv (ss_disk s) (ss_rooms s i) ms \<and>
     records (ss_rooms s i) (name_of (ss_hub s) i) ms (ss_said s (name_of (ss_hub s) i)))"

definition in_table :: "hub \<Rightarrow> nat \<Rightarrow> bool" where
  "in_table h i \<longleftrightarrow> room_of h (name_of h i) = Some i"

definition server_inv :: "server \<Rightarrow> server_state \<Rightarrow> bool" where
  "server_inv sv s \<longleftrightarrow> hub_inv (ss_hub s) \<and> said_ok s \<and> kept sv s \<and>
     (\<forall>i. running (phase_of (ss_hub s) i) \<and> in_table (ss_hub s) i \<longrightarrow> current sv s i)"

lemma server_invD:
  assumes "server_inv sv s"
  shows "hub_inv (ss_hub s)" "said_ok s" "kept sv s"
    "running (phase_of (ss_hub s) i) \<Longrightarrow> in_table (ss_hub s) i \<Longrightarrow> current sv s i"
  using assms by (simp_all add: server_inv_def)

text \<open>A move that only concerns the hub.\<close>

lemma inv_calm:
  assumes "server_inv sv s" "calm (ss_hub s) h" "hub_inv h"
  shows "server_inv sv (s\<lparr>ss_hub := h\<rparr>)"
proof -
  let ?h = "ss_hub s"
  have m: "name_of h i = name_of ?h i \<and> running (phase_of ?h i) \<and>
      (\<forall>q. phase_of h i = Announcing q \<longrightarrow> phase_of ?h i = Announcing q)" if "running (phase_of h i)" for i
  proof -
    have "moved ?h h i" using assms(2) by (simp add: calm_def)
    with that show ?thesis by (auto simp: moved_def)
  qed
  have tab: "in_table ?h i" if "running (phase_of h i)" "in_table h i" for i
    using assms(2) that m [OF that(1)] unfolding calm_def in_table_def by (metis running_simps(3))
  have "said_ok (s\<lparr>ss_hub := h\<rparr>)"
    using server_invD(2) [OF assms(1)] assms(2) m unfolding said_ok_def calm_def
    by (simp) (metis running_simps(2))
  moreover have "current sv (s\<lparr>ss_hub := h\<rparr>) i" if "running (phase_of h i)" "in_table h i" for i
    using server_invD(4) [OF assms(1), of i] m [OF that(1)] tab [OF that] by (simp add: current_def)
  ultimately show ?thesis
    using assms(3) server_invD(3) [OF assms(1)] by (simp add: server_inv_def kept_def)
qed

text \<open>A move of one room of the table, which concerns its file and its own sequences.\<close>

lemma restarts_frame:
  assumes "restarts sv n d qs" "e (room_path n) = d (room_path n)"
  shows "restarts sv n e qs"
proof -
  obtain r d' ms where o: "open_room sv no_faults d n = (Inr r, d')" "room_inv sv d' r ms" "records r n ms qs"
    using assms(1) by (auto simp: restarts_def)
  have n: "rm_name r = n" using o(3) by (simp add: records_def)
  have "open_room sv no_faults e n = (Inr r, e(room_path n := d' (room_path n)))"
    using o(1) assms(2) by (rule open_room_frame(1))
  moreover have "room_inv sv (e(room_path n := d' (room_path n))) r ms"
    using o(2) by (rule room_inv_frame) (simp add: n)
  ultimately show ?thesis using o(3) unfolding restarts_def by blast
qed

lemma inv_room_moves:
  assumes inv: "server_inv sv s" and i: "in_table (ss_hub s) i" "name = name_of (ss_hub s) i"
    and hub: "hub_inv h" "hb_reg h = hb_reg (ss_hub s)" "hb_notes h = hb_notes (ss_hub s)"
      "hb_inst h = (hb_inst (ss_hub s))(i := (hb_inst (ss_hub s) i)\<lparr>in_phase := ph\<rparr>)"
    and disk: "\<And>p. p \<noteq> room_path name \<Longrightarrow> d p = ss_disk s p"
    and life: "life_inv sv name (d, ro, ss_said s name @ new)" "running ph \<Longrightarrow> ro = Some r"
    and ann: "\<And>q. ph = Announcing q \<Longrightarrow> q \<in> set new"
  shows "server_inv sv (s\<lparr>ss_hub := h, ss_disk := d, ss_rooms := (ss_rooms s)(i := r),
    ss_said := (ss_said s)(name := ss_said s name @ new)\<rparr>)" (is "server_inv sv ?t")
proof -
  note I = server_invD [OF inv]
  have names: "name_of h j = name_of (ss_hub s) j" for j using i(2) by (simp add: hub(4))
  have tab: "in_table h j = in_table (ss_hub s) j" for j by (simp add: in_table_def names hub(2))
  have only: "name_of (ss_hub s) j \<noteq> name" if "in_table (ss_hub s) j" "j \<noteq> i" for j
    using that i by (auto simp: in_table_def)
  have old: "q \<in> set (ss_said s (name_of (ss_hub s) j))" if "phase_of (ss_hub s) j = Announcing q" for j q
    using I(2) that by (simp add: said_ok_def)
  have "said_ok ?t" using I(2) ann i(2) by (auto simp: said_ok_def hub(3,4) names dest: old)
  moreover have "restarts sv n d (ss_said ?t n)" if "validate_room_name n = None" for n
  proof (cases "n = name")
    case True
    with life(1) show ?thesis by (auto simp: life_inv_def intro: room_restarts split: option.splits)
  next
    case False
    with that I(3) have "restarts sv n (ss_disk s) (ss_said s n)" by (simp add: kept_def)
    then show ?thesis using False disk by (simp add: restarts_frame)
  qed
  moreover have "current sv ?t j" if "running (phase_of h j)" "in_table h j" for j
  proof (cases "j = i")
    case True
    with that(1) life i(2) show ?thesis by (auto simp: current_def life_inv_def names hub(4))
  next
    case False
    note n = only [OF that(2) [unfolded tab] False]
    have "running (phase_of (ss_hub s) j)" using that(1) False by (simp add: hub(4))
    from I(4) [OF this that(2) [unfolded tab]] obtain ms where ms: "room_inv sv (ss_disk s) (ss_rooms s j) ms"
      "records (ss_rooms s j) (name_of (ss_hub s) j) ms (ss_said s (name_of (ss_hub s) j))"
      by (auto simp: current_def)
    have "room_inv sv d (ss_rooms s j) ms"
      using ms(1) by (rule room_inv_frame) (use ms(2) n disk in \<open>simp add: records_def\<close>)
    with ms(2) n False show ?thesis by (auto simp: current_def names)
  qed
  ultimately show ?thesis using hub(1) by (simp add: server_inv_def kept_def)
qed

lemma event_holds:
  "event_at h i n (Register c since) \<Longrightarrow> holds (hb_conn h c) = Some (n, i)"
  "event_at h i n (Unregister c) \<Longrightarrow> holds (hb_conn h c) = Some (n, i)"
  "event_at h i n (Request c f) \<Longrightarrow> holds (hb_conn h c) = Some (n, i)"
  by auto

lemma event_in_table:
  assumes "hub_inv h" "phase_of h i = Serving" "event_at h i (name_of h i) ev" "ev \<noteq> Shutdown"
  shows "in_table h i"
proof -
  have "\<exists>c. holds (hb_conn h c) = Some (name_of h i, i)"
    using assms(3,4) by (cases ev) (blast dest: event_holds)+
  then obtain c where "holds (hb_conn h c) = Some (name_of h i, i)" ..
  from holder_facts(4) [OF assms(1) this] assms(2) show ?thesis by (simp add: in_table_def)
qed

lemma phase_afterD:
  "running (phase_after ev ro acts) \<Longrightarrow> ro \<noteq> None"
  "phase_after ev ro acts = Announcing q \<Longrightarrow> q \<in> set (announced acts)"
  by (auto simp: phase_after_def split: option.splits if_splits list.splits)

lemma inv_turn:
  assumes inv: "server_inv sv s" and sv: "life_server sv"
    and ev: "phase_of (ss_hub s) i = Serving" "name = name_of (ss_hub s) i" "event_at (ss_hub s) i name ev"
    and turn: "room_turn sv fl now (ss_disk s) (ss_rooms s i) ev = Some (ro, d, acts)"
    and fits: "int64_range now" "event_fits ev" "hi_last (rm_hist (ss_rooms s i)) \<noteq> - 1"
    and hub: "hub_step (sv_cfg sv) (ss_hub s) h" "matches (ss_hub s) h i name ev ro acts"
  shows "server_inv sv (s\<lparr>ss_hub := h, ss_disk := d,
      ss_rooms := (ss_rooms s)(i := case ro of None \<Rightarrow> ss_rooms s i | Some r \<Rightarrow> r),
      ss_said := (ss_said s)(name := ss_said s name @ announced acts)\<rparr>)"
proof (cases "ev = Shutdown")
  case True
  then have t: "ro = None" "d = ss_disk s" "acts = []" using turn by (simp_all add: room_turn_def)
  have hi: "hub_inv h" using server_invD(1) [OF inv] hub(1) by (rule hub_inv_step)
  have "calm (ss_hub s) h"
    using hub(2) True t ev(1) by (auto simp: matches_def calm_def moved_def phase_after_def)
  from inv_calm [OF inv this hi] t show ?thesis by simp
next
  case False
  have tab: "in_table (ss_hub s) i"
    using event_in_table [OF server_invD(1) [OF inv] ev(1) _ False] ev(2,3) by simp
  obtain ms where ms: "room_inv sv (ss_disk s) (ss_rooms s i) ms"
    "records (ss_rooms s i) name ms (ss_said s name)"
    using server_invD(4) [OF inv _ tab] ev(1,2) by (auto simp: current_def)
  have path: "a_path (hi_archive (rm_hist (ss_rooms s i))) = room_path name"
    using room_inv_facts(3) [OF ms(1)] ms(2) by (simp add: records_def)
  have "life_inv sv name (d, ro, ss_said s name @ announced acts)"
    using turn_keeps [OF turn fits _ _ ms] sv by (simp add: life_server_def)
  moreover have "hub_inv h" using server_invD(1) [OF inv] hub(1) by (rule hub_inv_step)
  ultimately show ?thesis
    using hub(2) turn_touches [OF turn, unfolded path] phase_afterD(1) [of ev ro acts] phase_afterD(2) [of ev ro acts]
    by (intro inv_room_moves [where ro = ro, OF inv tab ev(2)]) (auto simp: matches_def)
qed

text \<open>An instance that opens is in the table: the session that asked for it waits.\<close>

lemma inv_open:
  assumes inv: "server_inv sv s" and i: "phase_of (ss_hub s) i = Opening" "name = name_of (ss_hub s) i"
    and o: "open_room sv fl (ss_disk s) name = (res, d)"
    and hub: "hub_step (sv_cfg sv) (ss_hub s) (set_phase i ph (ss_hub s))"
    and ph: "\<And>q. ph \<noteq> Announcing q" "running ph \<Longrightarrow> res = Inr r" "\<not> running ph \<Longrightarrow> r = ss_rooms s i"
  shows "server_inv sv (s\<lparr>ss_hub := set_phase i ph (ss_hub s), ss_disk := d, ss_rooms := (ss_rooms s)(i := r)\<rparr>)"
proof -
  note I = server_invD [OF inv]
  have hi: "hub_inv (set_phase i ph (ss_hub s))" using I(1) hub by (rule hub_inv_step)
  have tab: "in_table (ss_hub s) i" using needed_facts(1) [OF I(1)] i(1) by (simp add: in_table_def)
  have same: "ss_said s = (ss_said s)(name := ss_said s name @ [])" by simp
  show ?thesis
  proof (cases "validate_room_name name = None")
    case True
    then have "restarts sv name (ss_disk s) (ss_said s name)" using I(3) by (simp add: kept_def)
    from open_keeps [OF this o] have life: "life_inv sv name
        (d, case res of Inr r \<Rightarrow> Some r | Inl e \<Rightarrow> None, ss_said s name @ [])" by simp
    have "server_inv sv (s\<lparr>ss_hub := set_phase i ph (ss_hub s), ss_disk := d, ss_rooms := (ss_rooms s)(i := r),
        ss_said := (ss_said s)(name := ss_said s name @ [])\<rparr>)"
      by (rule inv_room_moves [OF inv tab i(2) hi _ _ _ _ life])
        (use ph(1,2) open_room_frame(2) [OF o] in \<open>auto simp: set_phase_def\<close>)
    then show ?thesis by simp
  next
    case False
    then have d: "d = ss_disk s" "\<not> running ph" using o ph(2) by (auto simp: open_room_def open_history_def)
    have "calm (ss_hub s) (set_phase i ph (ss_hub s))"
      using d(2) i(1) by (auto simp: calm_def moved_def)
    from inv_calm [OF inv this hi] d ph(3) show ?thesis by simp
  qed
qed

lemma server_inv_step:
  assumes "server_inv sv s" "server_step sv sends s t" "life_server sv" "\<forall>f. sends f \<longrightarrow> frame_fits f"
  shows "server_inv sv t"
  using assms(2)
proof cases
  case (hub_moves h)
  with inv_calm [OF assms(1) calm_step] hub_inv_step [OF server_invD(1) [OF assms(1)]] show ?thesis by simp
next
  case (opens i fl r d)
  from inv_open [OF assms(1) opens(2) refl opens(3) hub_step.opened [OF opens(2)]] show ?thesis
    unfolding opens(1) by simp
next
  case (open_fails i fl e d)
  from inv_open [OF assms(1) open_fails(2) refl open_fails(3) hub_step.open_failed [OF open_fails(2)],
      of "ss_rooms s i"] show ?thesis
    unfolding open_fails(1) by simp
next
  case (turns i name ev fl now ro d acts h)
  have "event_fits ev" using assms(4) turns(7) by (rule event_sent_fits)
  show ?thesis unfolding turns(1) by (rule inv_turn [OF assms(1,3) turns(2-6) \<open>event_fits ev\<close> turns(8-)])
next
  case crash
  have "server_inv sv (s\<lparr>ss_hub := hub_start\<rparr>)"
    using server_invD(3) [OF assms(1)] hub_inv_start
    by (simp add: server_inv_def kept_def said_ok_def hub_start_def)
  then show ?thesis unfolding crash .
qed

lemma server_inv_start: "server_start s \<Longrightarrow> server_inv sv s"
  using hub_inv_start open_fresh
  by (auto simp: server_start_def server_inv_def kept_def said_ok_def) (auto simp: hub_start_def)

interpretation server_machine: invariant_machine "\<lambda>s. life_server sv \<and> server_start s"
    "\<lambda>s t. life_server sv \<and> (\<forall>f. sends f \<longrightarrow> frame_fits f) \<and> server_step sv sends s t" "server_inv sv"
  for sv sends
  by unfold_locales (auto intro: server_inv_start server_inv_step)

lemma server_reach:
  assumes "(server_step sv sends)\<^sup>*\<^sup>* s0 s" "server_start s0" "life_server sv"
    and "\<forall>f. sends f \<longrightarrow> frame_fits f"
  shows "server_inv sv s"
  using server_machine.reach_inv [of sv s0 sends s] assms by simp

section \<open>Properties\<close>

text \<open>C1: the server keeps its word. It starts without files, its signer is known, its text limit is at most
  160000 bytes, and the clients only send frames that fit: a mime type of at most 27777 bytes (what a longer
  one does is \<open>long_mime_bricks_room\<close>). Short of the last of the 64 bits of a room's counter and of the
  int64 clock, however the registry, the sessions and the room instances
  interleave, with rooms swept, failing, evicted and opened again, with any call of the operating system
  failing at any time, through shutdowns and crashes and restarts on the disk that is left: the
  sequences that the instances of a room announce, one after another, strictly increase; at every moment
  the room can be opened from its file, with an archive of strictly increasing sequences that has all of
  those announced; the instance in the registry's table, while it serves, is in step with its file; and
  no note of activity waits for the registry but of a message that was announced.\<close>

theorem server_keeps_its_word:
  assumes "(server_step sv sends)\<^sup>*\<^sup>* s0 s" "server_start s0" "server_ok sv" "hc_max_text (sv_cfg sv) \<le> 160000"
    and "\<forall>f. sends f \<longrightarrow> frame_fits f" "validate_room_name name = None"
  shows "sorted_wrt (<) (ss_said s name) \<and>
    (\<exists>r d ms. open_room sv no_faults (ss_disk s) name = (Inr r, d) \<and> room_inv sv d r ms \<and>
       sorted_wrt (<) (map m_seq ms) \<and> set (ss_said s name) \<subseteq> m_seq ` set ms) \<and>
    (\<forall>i. room_of (ss_hub s) name = Some i \<and> phase_of (ss_hub s) i = Serving \<longrightarrow>
       (\<exists>ms. room_inv sv (ss_disk s) (ss_rooms s i) ms \<and> rm_name (ss_rooms s i) = name \<and>
          set (ss_said s name) \<subseteq> m_seq ` set ms)) \<and>
    (\<forall>q. (name, q) \<in> set (hb_notes (ss_hub s)) \<longrightarrow> q \<in> set (ss_said s name))"
proof -
  have inv: "server_inv sv s" using assms by (intro server_reach) (simp_all add: life_server_def)
  note I = server_invD [OF inv]
  have "restarts sv name (ss_disk s) (ss_said s name)" using I(3) assms(6) by (simp add: kept_def)
  then obtain r d ms where o: "open_room sv no_faults (ss_disk s) name = (Inr r, d)" "room_inv sv d r ms"
    "subseq (ss_said s name) (map m_seq ms)" by (auto simp: restarts_def records_def)
  have "sorted_wrt (<) (map m_seq ms)" using o(2) by (rule room_inv_ascending)
  moreover from this have "sorted_wrt (<) (ss_said s name)" using o(3) by (rule subseq_sorted_wrt [rotated])
  moreover have "set (ss_said s name) \<subseteq> m_seq ` set ms" using subseq_set [OF o(3)] by simp
  moreover have "\<exists>ms. room_inv sv (ss_disk s) (ss_rooms s i) ms \<and> rm_name (ss_rooms s i) = name \<and>
      set (ss_said s name) \<subseteq> m_seq ` set ms"
    if "room_of (ss_hub s) name = Some i" "phase_of (ss_hub s) i = Serving" for i
  proof -
    have n: "name_of (ss_hub s) i = name" using I(1) that(1) by (rule table_facts(2))
    then have "current sv s i" using that by (intro I(4)) (simp_all add: in_table_def)
    then obtain ms where ms: "room_inv sv (ss_disk s) (ss_rooms s i) ms" "rm_name (ss_rooms s i) = name"
      "subseq (ss_said s name) (map m_seq ms)" unfolding current_def n by (auto simp: records_def)
    from ms(1,2) subseq_set [OF ms(3)] show ?thesis by (auto simp: image_iff)
  qed
  moreover have "q \<in> set (ss_said s name)" if "(name, q) \<in> set (hb_notes (ss_hub s))" for q
    using I(2) that by (simp add: said_ok_def)
  ultimately show ?thesis using o(1,2) by blast
qed

text \<open>A server that starts, a client that asks for a room, is let in and sends a text.\<close>

definition sample_start :: server_state where
  "sample_start = \<lparr>ss_hub = hub_start, ss_rooms = (\<lambda>_. sample_room), ss_disk = Map.empty, ss_said = (\<lambda>_. [])\<rparr>"

lemma sample_starts: "server_start sample_start" "life_server sample_server"
  using sample_server_ok by (simp_all add: server_start_def sample_start_def life_server_def sample_server_def)

lemma apart_ready:
  assumes "hb_inst h' = hb_inst h" "\<And>c. calls (hb_conn h c) = None \<or> hb_conn h' c = hb_conn h c"
  shows "apart h h'"
  using assms by (auto simp: apart_def) (metis option.distinct(1))

lemma apart_idle: "(\<And>i. phase_of h i = Gone) \<Longrightarrow> apart h h'"
  by (simp add: apart_def)

lemma sample_opens:
  obtains h r d where "(server_step sample_server frame_fits)\<^sup>*\<^sup>* sample_start
      (sample_start\<lparr>ss_hub := h, ss_disk := d, ss_rooms := (ss_rooms sample_start)(0 := r)\<rparr>)"
    "hb_conn h 1 = Joining ''r'' 0 2" "phase_of h 0 = Serving" "name_of h 0 = ''r''"
    "hb_conn h 2 = NotConnected" "\<not> hb_down h" "hb_notes h = []"
    "room_inv sample_server d r []" "rm_name r = ''r''" "hi_last (rm_hist r) = 0"
proof -
  let ?step = "server_step sample_server frame_fits" and ?cfg = "sv_cfg sample_server"
  let ?h1 = "set_conn 1 (Ready None) (registry_takes ?cfg 0 (Cmd (AddClient 1)) hub_start)"
  let ?h2 = "set_conn 1 (Asking ''r'' 3) ?h1"
  let ?h3 = "ask_registry ?cfg 0 1 ''r'' 2 ?h2"
  let ?at = "\<lambda>h. sample_start\<lparr>ss_hub := h\<rparr>"
  have h1: "hb_inst ?h1 = hb_inst hub_start" "hb_conn ?h1 = (hb_conn hub_start)(1 := Ready None)" "\<not> hb_down ?h2"
    by (auto simp: reg_simps reg_command_def hub_start_def set_conn_def)
  have h3: "hb_conn ?h3 1 = Joining ''r'' 0 2" "phase_of ?h3 0 = Opening" "name_of ?h3 0 = ''r''"
    "hb_conn ?h3 2 = NotConnected" "\<not> hb_down ?h3" "hb_notes ?h3 = []"
    by (simp_all add: ask_registry_def valid_r reg_simps reg_command_def hub_start_def new_registry_def Let_def)
  have idle: "phase_of ?h2 i = Gone" for i by (simp add: reg_simps reg_command_def hub_start_def)
  have "apart hub_start ?h1" by (rule apart_ready) (use h1 in \<open>auto simp: hub_start_def\<close>)
  then have "?step sample_start (?at ?h1)"
    using server_step.hub_moves [of sample_server sample_start ?h1 frame_fits] hub_step.connect [of hub_start 1 ?cfg 0]
    by (simp add: sample_start_def) (simp add: hub_start_def)
  moreover have "apart ?h1 ?h2" by (rule apart_ready) (use h1 in \<open>auto simp: hub_start_def\<close>)
  then have "?step (?at ?h1) (?at ?h2)"
    using server_step.hub_moves [of sample_server "?at ?h1" ?h2 frame_fits] hub_step.frame_join [of ?h1 1 ?cfg "''r''"]
    by (simp add: join_attempts_def)
  moreover have "apart ?h2 ?h3" using idle by (rule apart_idle)
  then have "?step (?at ?h2) (?at ?h3)"
    using server_step.hub_moves [of sample_server "?at ?h2" ?h3 frame_fits] hub_step.ask [of ?h2 1 "''r''" 2 ?cfg 0] h1(3)
    by (simp add: eval_nat_numeral)
  ultimately have run: "?step\<^sup>*\<^sup>* sample_start (?at ?h3)"
    by (meson rtranclp.rtrancl_refl converse_rtranclp_into_rtranclp)
  obtain r d where r: "open_room sample_server no_faults Map.empty ''r'' = (Inr r, d)"
    "room_inv sample_server d r []" "rm_name r = ''r''" "hi_last (rm_hist r) = 0"
    by (rule fresh_room [where d = Map.empty and name = "''r''" and sv = sample_server, OF _ valid_r]) simp_all
  let ?h4 = "set_phase 0 Serving ?h3"
  have "?step (?at ?h3) (?at ?h3\<lparr>ss_hub := ?h4, ss_disk := d, ss_rooms := (ss_rooms (?at ?h3))(0 := r)\<rparr>)"
    using server_step.opens [of "?at ?h3" 0 sample_server no_faults r d] h3 r(1) by (simp add: sample_start_def)
  with run have "?step\<^sup>*\<^sup>* sample_start (sample_start\<lparr>ss_hub := ?h4, ss_disk := d, ss_rooms := (ss_rooms sample_start)(0 := r)\<rparr>)"
    by (simp add: rtranclp.rtrancl_into_rtrancl)
  then show thesis by (rule that) (use h3 r(2-4) in simp_all)
qed

lemma sample_joins:
  obtains s where "(server_step sample_server frame_fits)\<^sup>*\<^sup>* sample_start s" "ss_said s ''r'' = []"
    "hb_conn (ss_hub s) 1 = Ready (Some (''r'', 0))" "phase_of (ss_hub s) 0 = Serving" "name_of (ss_hub s) 0 = ''r''"
    "hb_conn (ss_hub s) 2 = NotConnected" "\<not> hb_down (ss_hub s)" "hb_notes (ss_hub s) = []"
    "room_inv sample_server (ss_disk s) (ss_rooms s 0) []" "rm_name (ss_rooms s 0) = ''r''"
    "hi_last (rm_hist (ss_rooms s 0)) = 0"
proof -
  let ?cfg = "sv_cfg sample_server"
  obtain h r d where run: "(server_step sample_server frame_fits)\<^sup>*\<^sup>* sample_start
      (sample_start\<lparr>ss_hub := h, ss_disk := d, ss_rooms := (ss_rooms sample_start)(0 := r)\<rparr>)"
    and h: "hb_conn h 1 = Joining ''r'' 0 2" "phase_of h 0 = Serving" "name_of h 0 = ''r''"
      "hb_conn h 2 = NotConnected" "\<not> hb_down h" "hb_notes h = []"
    and r: "room_inv sample_server d r []" "rm_name r = ''r''" "hi_last (rm_hist r) = 0" by (rule sample_opens)
  let ?s = "sample_start\<lparr>ss_hub := h, ss_disk := d, ss_rooms := (ss_rooms sample_start)(0 := r)\<rparr>"
  let ?r = "r\<lparr>rm_clients := List.insert 1 (rm_clients r)\<rparr>"
  obtain acts where t: "room_turn sample_server no_faults 0 d r (Register 1 0) = Some (Some ?r, d, acts)"
    "announced acts = []"
    using r(3) by (simp add: room_turn_def join_def history_since_def deliver_def)
  have "event_at h 0 (rm_name r) (Register 1 0)" using h(1) r(2) by simp
  from register_simulated [OF t(1) h(2) this, of ?cfg] r(2)
  obtain h' where h': "hub_step ?cfg h h'" "matches h h' 0 ''r'' (Register 1 0) (Some ?r) acts"
    unfolding simulated_def by auto
  define s where "s = ?s\<lparr>ss_hub := h', ss_disk := d, ss_rooms := (ss_rooms ?s)(0 := ?r),
    ss_said := (ss_said ?s)(''r'' := ss_said ?s ''r'' @ announced acts)\<rparr>"
  have "server_step sample_server frame_fits ?s s" unfolding s_def
    using server_step.turns [of ?s 0 "''r''" "Register 1 0" sample_server no_faults 0 "Some ?r" d acts frame_fits h']
      h h' t(1) r(3) by (simp add: int64_range_def)
  with run have run': "(server_step sample_server frame_fits)\<^sup>*\<^sup>* sample_start s" by (rule rtranclp.rtrancl_into_rtrancl)
  have "room_inv sample_server d ?r []" using r(1) room_inv_facts(5) [OF r(1)] by (simp add: room_inv_clients)
  moreover have "hb_conn h' 1 = Ready (Some (''r'', 0))" "phase_of h' 0 = Serving" "name_of h' 0 = ''r''"
      "hb_conn h' 2 = NotConnected" "\<not> hb_down h'" "hb_notes h' = []"
    using h'(2) h(3-6) t(2) by (simp_all add: matches_def phase_after_def)
  ultimately show thesis using r(2,3) t(2)
    by (intro that [OF run']) (simp_all add: s_def sample_start_def)
qed

lemma sample_announces:
  obtains s where "(server_step sample_server frame_fits)\<^sup>*\<^sup>* sample_start s" "ss_said s ''r'' = [1]"
    "phase_of (ss_hub s) 0 = Announcing 1" "hb_conn (ss_hub s) 1 = Ready (Some (''r'', 0))"
    "hb_conn (ss_hub s) 2 = NotConnected" "\<not> hb_down (ss_hub s)" "hb_notes (ss_hub s) = []"
    "name_of (ss_hub s) 0 = ''r''" "hi_last (rm_hist (ss_rooms s 0)) = 1" "hub_inv (ss_hub s)"
proof -
  let ?cfg = "sv_cfg sample_server" and ?step = "server_step sample_server frame_fits"
  obtain s where run: "?step\<^sup>*\<^sup>* sample_start s" "ss_said s ''r'' = []"
    and h: "hb_conn (ss_hub s) 1 = Ready (Some (''r'', 0))" "phase_of (ss_hub s) 0 = Serving" "name_of (ss_hub s) 0 = ''r''"
      "hb_conn (ss_hub s) 2 = NotConnected" "\<not> hb_down (ss_hub s)" "hb_notes (ss_hub s) = []"
    and r: "room_inv sample_server (ss_disk s) (ss_rooms s 0) []" "rm_name (ss_rooms s 0) = ''r''"
      "hi_last (rm_hist (ss_rooms s 0)) = 0" by (rule sample_joins)
  let ?h = "set_conn 1 (Submitting ''r'' 0) (ss_hub s)"
  let ?s = "s\<lparr>ss_hub := ?h\<rparr>"
  have "apart (ss_hub s) ?h" by (rule apart_ready) (use h(1) in auto)
  with hub_step.frame_submit [OF h(1), of ?cfg] have "?step s ?s" by (rule server_step.hub_moves)
  moreover obtain d r' acts where "handle sample_server no_faults 0 (ss_disk s) (ss_rooms s 0) 1 sample_frame =
      Some (None, d, r', acts)" and t: "announced acts = [1]" "hi_last (rm_hist r') = 1"
    by (rule sample_published [OF r(1)]) (use r(3) in simp_all)
  moreover from this(1) have t': "room_turn sample_server no_faults 0 (ss_disk s) (ss_rooms s 0) (Request 1 sample_frame) =
      Some (Some r', d, acts)" by (simp add: room_turn_def)
  obtain h' where h': "hub_step ?cfg ?h h'" "matches ?h h' 0 ''r'' (Request 1 sample_frame) (Some r') acts"
    using request_simulated [OF t', of ?h 0 ?cfg] r(2) h unfolding simulated_def by auto
  define u where "u = ?s\<lparr>ss_hub := h', ss_disk := d, ss_rooms := (ss_rooms ?s)(0 := r'),
    ss_said := (ss_said ?s)(''r'' := ss_said ?s ''r'' @ announced acts)\<rparr>"
  have "?step ?s u" unfolding u_def
    using server_step.turns [of ?s 0 "''r''" "Request 1 sample_frame" sample_server no_faults 0
        "Some r'" d acts frame_fits h'] h' t' r(3) h sample_frame_fits by (simp add: int64_range_def)
  ultimately have run': "?step\<^sup>*\<^sup>* sample_start u" using run(1) by (meson rtranclp.rtrancl_into_rtrancl)
  have inv: "hub_inv (ss_hub u)" using server_invD(1) [OF server_reach [OF run' sample_starts]] by simp
  show thesis
    by (rule that [OF run' _ _ _ _ _ _ _ _ inv])
      (use h h'(2) run(2) t(1,2) in \<open>simp_all add: u_def matches_def phase_after_def\<close>)
qed

theorem server_keeps_its_word_witness:
  "\<exists>s r d ms. (server_step sample_server frame_fits)\<^sup>*\<^sup>* sample_start s \<and> ss_said s ''r'' = [1] \<and>
    phase_of (ss_hub s) 0 = Announcing 1 \<and> open_room sample_server no_faults (ss_disk s) ''r'' = (Inr r, d) \<and>
    room_inv sample_server d r ms \<and> 1 \<in> m_seq ` set ms"
proof -
  obtain u where run: "(server_step sample_server frame_fits)\<^sup>*\<^sup>* sample_start u" and said: "ss_said u ''r'' = [1]"
    and ph: "phase_of (ss_hub u) 0 = Announcing 1" by (rule sample_announces)
  have "hc_max_text (sv_cfg sample_server) \<le> 160000" by (simp add: sample_server_def)
  from server_keeps_its_word [OF run sample_starts(1) sample_server_ok this _ valid_r]
  obtain r' d' ms where o: "open_room sample_server no_faults (ss_disk u) ''r'' = (Inr r', d')"
    "room_inv sample_server d' r' ms" "set [1] \<subseteq> m_seq ` set ms" unfolding said by blast
  from o(3) have "1 \<in> m_seq ` set ms" by simp
  with run said ph o(1,2) show ?thesis by blast
qed

end
