(* ===== verification/Delivery.thy ===== *)
theory Delivery
  imports Registry
begin

text \<open>
  From one client's frame to the queues of all the others: the actions of a room's turn and of the
  registry's turn carried out on the clients of theory \<open>Client\<close>, and what a receiver can make of the
  bytes with the verifying key. It composes theories \<open>Envelope\<close>, \<open>History\<close>, \<open>Room\<close>, \<open>Registry\<close> and
  \<open>Client\<close>; a queue is read between the turns, not during one.
\<close>

section \<open>Carrying out actions\<close>

text \<open>\<open>pick c\<close> is the choice of a \<open>select\<close> on client \<open>c\<close> (see \<open>client_send\<close>). Replies to a join and
  calls of the registry do not touch a queue.\<close>

type_synonym clients = "nat \<Rightarrow> client"

fun perform :: "(nat \<Rightarrow> bool) \<Rightarrow> action list \<Rightarrow> clients \<Rightarrow> clients" where
  "perform pick [] cls = cls"
| "perform pick (Send c b # acts) cls = perform pick acts (cls(c := client_send (pick c) (cls c) b))"
| "perform pick (KillClient c code reason # acts) cls = perform pick acts (cls(c := kill (cls c) code reason))"
| "perform pick (a # acts) cls = perform pick acts cls"

fun perform_reg :: "(nat \<Rightarrow> bool) \<Rightarrow> reg_action list \<Rightarrow> clients \<Rightarrow> clients" where
  "perform_reg pick [] cls = cls"
| "perform_reg pick (Ping c b # acts) cls = perform_reg pick acts (cls(c := client_send (pick c) (cls c) b))"
| "perform_reg pick (KillAll c code reason # acts) cls = perform_reg pick acts (cls(c := kill (cls c) code reason))"
| "perform_reg pick (a # acts) cls = perform_reg pick acts cls"

lemma perform_append: "perform pick (xs @ ys) cls = perform pick ys (perform pick xs cls)"
  by (induction pick xs cls rule: perform.induct) (simp_all add: fun_upd_def)

lemma perform_fan_out:
  "distinct cs \<Longrightarrow> perform pick (map (\<lambda>c. Send c b) cs) cls =
    (\<lambda>c. if c \<in> set cs then client_send (pick c) (cls c) b else cls c)"
proof (induction cs arbitrary: cls)
  case (Cons c cs)
  then show ?case by (auto simp: Cons.IH fun_upd_def fun_eq_iff)
qed simp

lemma perform_pings:
  "distinct (map fst cs) \<Longrightarrow> perform_reg pick (map (\<lambda>(c, room). Ping c b) cs) cls =
    (\<lambda>c. if c \<in> fst ` set cs then client_send (pick c) (cls c) b else cls c)"
proof (induction cs arbitrary: cls)
  case (Cons p cs)
  obtain c room where p: "p = (c, room)" by (cases p)
  with Cons.prems show ?case by (auto simp: Cons.IH fun_upd_def fun_eq_iff image_iff)
qed simp

text \<open>A run of frames to one client: they are queued as long as they fit; with the first that does not,
  the client is killed, and the rest is dropped.\<close>

definition send_all :: "bool \<Rightarrow> string list \<Rightarrow> client \<Rightarrow> client" where
  "send_all pick bs c = fold (\<lambda>b c. client_send pick c b) bs c"

lemma perform_sends:
  "perform pick (map (Send c) bs) cls = cls(c := send_all (pick c) bs (cls c))"
  by (induction bs arbitrary: cls) (simp_all add: send_all_def)

lemma send_full:
  "cl_closed c \<Longrightarrow> length (cl_out c) = cl_cap c \<Longrightarrow> send_all pick bs c = c"
  by (induction bs) (simp_all add: send_all_def client_send_def)

lemma send_all_fits:
  assumes "\<not> cl_closed c" "length (cl_out c) + length bs \<le> cl_cap c"
  shows "send_all pick bs c = c\<lparr>cl_out := cl_out c @ bs\<rparr>"
  using assms
proof (induction bs arbitrary: c)
  case (Cons b bs)
  then have "send_all pick (b # bs) c = send_all pick bs (c\<lparr>cl_out := cl_out c @ [b]\<rparr>)"
    by (simp add: send_all_def client_send_def)
  also have "\<dots> = c\<lparr>cl_out := cl_out c @ b # bs\<rparr>"
    using Cons.IH [of "c\<lparr>cl_out := cl_out c @ [b]\<rparr>"] Cons.prems by simp
  finally show ?case .
qed (simp add: send_all_def)

lemma send_all_overflows:
  assumes "\<not> cl_closed c" "\<not> cl_once c" "length (cl_out c) \<le> cl_cap c" "cl_cap c < length (cl_out c) + length bs"
  shows "send_all pick bs c = kill (c\<lparr>cl_out := take (cl_cap c) (cl_out c @ bs)\<rparr>) close_slow_consumer
    ''outbound queue full''"
proof -
  define n where "n = cl_cap c - length (cl_out c)"
  have n: "n < length bs" using assms by (simp add: n_def)
  then obtain b ys where bs: "bs = take n bs @ b # ys" by (metis id_take_nth_drop)
  let ?c = "c\<lparr>cl_out := cl_out c @ take n bs\<rparr>"
  have full: "length (cl_out ?c) = cl_cap c" using assms n by (simp add: n_def)
  have "send_all pick bs c = send_all pick (b # ys) (send_all pick (take n bs) c)"
    by (subst bs) (simp add: send_all_def)
  also have "send_all pick (take n bs) c = ?c" using assms n by (intro send_all_fits) (simp_all add: n_def)
  also have "send_all pick (b # ys) ?c =
      send_all pick ys (kill ?c close_slow_consumer ''outbound queue full'')"
    using full assms(1) by (simp add: send_all_def client_send_def)
  also have "\<dots> = kill ?c close_slow_consumer ''outbound queue full''"
    using full assms(1,2) by (intro send_full) simp_all
  finally show ?thesis using assms(3) by (simp add: n_def)
qed

section \<open>What a receiver can verify\<close>

text \<open>What a room has on its list opens, in its archival form, to itself under the server's key.\<close>

lemma member_opens:
  assumes "room_inv sv d r ms" "m \<in> set ms"
  shows "open_envelope (sv_crypto sv) (sv_keys sv) (m_wire (archival m)) = Inr (archival m)"
proof -
  have "readable (archival m) \<and> authentic (sv_crypto sv) (sv_keys sv) (archival m)"
    using history_inv_facts(1) [OF room_inv_facts(1) [OF assms(1)]] room_inv_facts(3) [OF assms(1)] assms(2)
    by (simp add: log_holds_def)
  then show ?thesis by (simp add: open_wf_Inr readable_def authentic_def)
qed

lemma not_image_archival: "h_kind (m_header m) \<noteq> kind_image \<Longrightarrow> archival m = m"
  by (simp add: archival_def)

lemma listed_opens:
  assumes "room_inv sv d r ms" "m \<in> set ms" "h_kind (m_header m) \<noteq> kind_image"
  shows "open_envelope (sv_crypto sv) (sv_keys sv) (m_wire m) = Inr m"
  using member_opens [OF assms(1,2)] not_image_archival [OF assms(3)] by simp

text \<open>A message that a view serves is one of the list, or its archival form.\<close>

lemma viewed_opens:
  assumes "room_inv sv d r ms" "view_of (rm_hist r) ms from to msgs gaps" "x \<in> set msgs"
    and "h_kind (m_header x) \<noteq> kind_image"
  shows "open_envelope (sv_crypto sv) (sv_keys sv) (m_wire x) = Inr x"
proof -
  obtain m where m: "m \<in> set ms" "x = m \<or> x = archival m"
  proof -
    have "x \<in> served_copy (hi_ring (rm_hist r)) ` set ms" using assms(2,3) unfolding view_of_def by blast
    then obtain m where "m \<in> set ms" "x = served_copy (hi_ring (rm_hist r)) m" by blast
    then show thesis using that [of m] by (simp add: served_copy_def split: if_splits)
  qed
  have "h_kind (m_header m) = h_kind (m_header x)" using m(2) by (elim disjE) simp_all
  with assms(4) have "archival m = m" by (intro not_image_archival) simp
  with m(2) have "x = m" by metis
  with listed_opens [OF assms(1) m(1)] assms(4) show ?thesis by simp
qed

section \<open>Who gets what\<close>

text \<open>The clients after a room's fan-out of \<open>w\<close> and the registry's ping for it.\<close>

definition fanned :: "(nat \<Rightarrow> bool) \<Rightarrow> (nat \<Rightarrow> bool) \<Rightarrow> room \<Rightarrow> registry \<Rightarrow> string \<Rightarrow> string \<Rightarrow> clients \<Rightarrow> clients" where
  "fanned pick pick' r g w ping cls = (\<lambda>cl.
     if cl \<in> set (rm_clients r) then client_send (pick cl) (cls cl) w
     else if map_of (rg_clients g) cl \<notin> {None, Some (rm_name r)} then client_send (pick' cl) (cls cl) ping
     else cls cl)"

lemma pinged:
  assumes "distinct (map fst cs)"
  shows "c \<in> fst ` set (filter (\<lambda>(c, current). current \<noteq> name) cs) \<longleftrightarrow> map_of cs c \<notin> {None, Some name}"
proof -
  have "c \<in> fst ` set (filter (\<lambda>(c, current). current \<noteq> name) cs) \<longleftrightarrow>
      (\<exists>current. (c, current) \<in> set cs \<and> current \<noteq> name)" by force
  also have "\<dots> \<longleftrightarrow> (\<exists>current. map_of cs c = Some current \<and> current \<noteq> name)"
    using assms by simp
  finally show ?thesis by auto
qed

lemma fanned_perform:
  assumes "distinct (rm_clients r)" "distinct (map fst (rg_clients g))"
    and "\<And>cl. cl \<in> set (rm_clients r) \<Longrightarrow> map_of (rg_clients g) cl = Some (rm_name r)"
  shows "perform_reg pick' (snd (reg_note now g (rm_name r) q))
      (perform pick (map (\<lambda>cl. Send cl w) (rm_clients r) @ [Activity (rm_name r) q']) cls) =
    fanned pick pick' r g w (activity_bytes (rm_name r) q) cls"
proof -
  let ?cs = "filter (\<lambda>(c, current). current \<noteq> rm_name r) (rg_clients g)"
  have "distinct (map fst ?cs)" using assms(2) by (induction "rg_clients g" arbitrary: g) (auto intro: distinct_map_filter)
  from perform_pings [OF this] show ?thesis
    using assms(3) pinged [OF assms(2)]
    by (auto simp: reg_note_def perform_append perform_fan_out [OF assms(1)] fanned_def fun_eq_iff)
qed

section \<open>Properties\<close>

text \<open>C3: a message reaches everyone it should. When a room takes an acceptable text frame, one message is
  archived and appended to the room's list, under the next sequence. Carrying out the room's actions and
  then the registry's for the note: every client of the room is sent that message, every client connected
  elsewhere is sent the room's activity, nobody else is sent anything; and what the room's clients receive
  opens, with the server's key, to a message of that room with the sender's nickname and payload.\<close>

theorem text_reaches_everyone:
  assumes "room_inv sv d r ms" "server_ok sv" "hi_last (rm_hist r) \<noteq> - 1" "int64_range now"
    and "clean_nick (f_nick f) = Inr nick" "f_t f = frame_send" "f_kind f = kind_text" "f_p f \<noteq> []"
    and "utf8_valid (f_p f)" "int (length (f_p f)) \<le> hc_max_text (sv_cfg sv)"
    and "hc_max_text (sv_cfg sv) \<le> 160000" "distinct (map fst (rg_clients g))"
    and "\<And>cl. cl \<in> set (rm_clients r) \<Longrightarrow> map_of (rg_clients g) cl = Some (rm_name r)"
  shows "\<exists>m d' r' acts g' pings.
    room_turn sv no_faults now d r (Request c f) = Some (Some r', d', acts) \<and>
    room_inv sv d' r' (ms @ [m]) \<and> m_seq m = hi_last (rm_hist r) + 1 \<and>
    reg_turn cfg later g (Note (rm_name r) (m_seq m)) = (Some g', pings) \<and>
    perform_reg pick' pings (perform pick acts cls) =
      fanned pick pick' r g (m_wire m) (activity_bytes (rm_name r) (m_seq m)) cls \<and>
    open_envelope (sv_crypto sv) (sv_keys sv) (m_wire m) = Inr m \<and>
    h_room (m_header m) = rm_name r \<and> h_nick (m_header m) = nick \<and> m_payload m = f_p f"
proof -
  obtain m where m: "broadcast_done sv r ms m (publish sv no_faults now d r c f)" "m_payload m = f_p f"
    "h_nick (m_header m) = nick" "h_kind (m_header m) = kind_text"
    using publish_text_spec [OF assms(1-5,7-11), of c] by blast
  then obtain d' h' where b: "publish sv no_faults now d r c f = Some (None, d', r\<lparr>rm_hist := h'\<rparr>,
      map (\<lambda>cl. Send cl (m_wire m)) (rm_clients r) @ [Activity (rm_name r) (m_seq m)])"
    "room_inv sv d' (r\<lparr>rm_hist := h'\<rparr>) (ms @ [m])" "m_seq m = hi_last (rm_hist r) + 1"
    by (auto simp: broadcast_done_def)
  have turn: "room_turn sv no_faults now d r (Request c f) = Some (Some (r\<lparr>rm_hist := h'\<rparr>), d',
      map (\<lambda>cl. Send cl (m_wire m)) (rm_clients r) @ [Activity (rm_name r) (m_seq m)])"
    using b(1) assms(6) by (simp add: room_turn_def handle_def)
  have reg: "reg_turn cfg later g (Note (rm_name r) (m_seq m)) =
      (Some (fst (reg_note later g (rm_name r) (m_seq m))), snd (reg_note later g (rm_name r) (m_seq m)))"
    by (simp add: reg_turn_def case_prod_beta Let_def)
  have "open_envelope (sv_crypto sv) (sv_keys sv) (m_wire m) = Inr m"
    by (rule listed_opens [OF b(2)]) (simp_all add: m(4) kind_text_def kind_image_def)
  moreover have "h_room (m_header m) = rm_name r" using room_inv_facts(6) [OF b(2)] by simp
  ultimately show ?thesis
    using turn reg b(2,3) m(2,3) fanned_perform [OF room_inv_facts(5) [OF assms(1)] assms(12,13)] by blast
qed

text \<open>Two clients in the room, one in another, one in none.\<close>

definition sample_registry :: registry where
  "sample_registry = \<lparr>rg_rooms = [(''general'', 0), (''other'', 1)], rg_last_use = [],
     rg_clients = [(1, ''general''), (2, ''general''), (3, ''other'')], rg_next = 2\<rparr>"

theorem text_reaches_everyone_witness:
  "\<exists>m d' r' acts g' pings.
    room_turn sample_server no_faults 1755130000 sample_disk sample_room (Request 1 sample_frame) = Some (Some r', d', acts) \<and>
    reg_turn (sv_cfg sample_server) 0 sample_registry (Note ''general'' 8) = (Some g', pings) \<and>
    (let cls = perform_reg (\<lambda>_. True) pings (perform (\<lambda>_. True) acts (\<lambda>_. new_client 64))
     in cl_out (cls 1) = [m_wire m] \<and> cl_out (cls 2) = [m_wire m] \<and> cl_out (cls 3) = [activity_bytes ''general'' 8] \<and>
       cl_out (cls 4) = []) \<and>
    open_envelope sample_crypto sample_keys (m_wire m) = Inr m \<and> m_payload m = ''hi''"
proof -
  have f: "clean_nick (f_nick sample_frame) = Inr ''sam''" "f_kind sample_frame = kind_text"
    "f_p sample_frame = ''hi''" "hi_last (rm_hist sample_room) \<noteq> - 1" "int64_range 1755130000"
    "hc_max_text (sv_cfg sample_server) = 16384" "f_t sample_frame = frame_send"
    using sample_nick sample_last by (simp_all add: sample_frame_def int64_range_def sample_server_def)
  have p: "f_p sample_frame \<noteq> []" "utf8_valid (f_p sample_frame)"
    "int (length (f_p sample_frame)) \<le> hc_max_text (sv_cfg sample_server)" "hc_max_text (sv_cfg sample_server) \<le> 160000"
    unfolding f(3,6) by simp_all
  have g: "distinct (map fst (rg_clients sample_registry))"
    "cl \<in> set (rm_clients sample_room) \<Longrightarrow> map_of (rg_clients sample_registry) cl = Some (rm_name sample_room)" for cl
    by (auto simp: sample_registry_def sample_room_def)
  have fan: "fanned pick pick' sample_room sample_registry w b (\<lambda>_. new_client 64) cl =
      (if cl = 1 \<or> cl = 2 then client_send (pick cl) (new_client 64) w
       else if cl = 3 then client_send (pick' cl) (new_client 64) b else new_client 64)" for pick pick' w b cl
    by (simp add: fanned_def sample_room_def sample_registry_def)
  have new: "cl_out (client_send pick (new_client 64) b) = [b]" "cl_out (new_client 64) = []" for pick b
    by (simp_all add: client_send_def new_client_def)
  from text_reaches_everyone [where g = sample_registry and c = 1 and cfg = "sv_cfg sample_server" and later = 0
      and pick = "\<lambda>_. True" and pick' = "\<lambda>_. True" and cls = "\<lambda>_. new_client 64",
      OF sample_room_inv sample_server_ok f(4,5,1,7,2) p g(1) g(2)]
  obtain m d' r' acts g' pings where t:
    "room_turn sample_server no_faults 1755130000 sample_disk sample_room (Request 1 sample_frame) = Some (Some r', d', acts)"
    "m_seq m = hi_last (rm_hist sample_room) + 1"
    "reg_turn (sv_cfg sample_server) 0 sample_registry (Note (rm_name sample_room) (m_seq m)) = (Some g', pings)"
    "perform_reg (\<lambda>_. True) pings (perform (\<lambda>_. True) acts (\<lambda>_. new_client 64)) =
      fanned (\<lambda>_. True) (\<lambda>_. True) sample_room sample_registry (m_wire m)
        (activity_bytes (rm_name sample_room) (m_seq m)) (\<lambda>_. new_client 64)"
    "open_envelope (sv_crypto sample_server) (sv_keys sample_server) (m_wire m) = Inr m" "m_payload m = f_p sample_frame"
    by blast
  have q: "m_seq m = 8" "rm_name sample_room = ''general''" "sv_crypto sample_server = sample_crypto"
    "sv_keys sample_server = sample_keys"
    using t(2) sample_last by (simp_all add: sample_room_def sample_server_def)
  show ?thesis
    unfolding Let_def using t(1,3,5,6) f(3)
    by (intro exI [of _ m] exI [of _ d'] exI [of _ r'] exI [of _ acts] exI [of _ g'] exI [of _ pings])
      (simp add: t(4) fan new q)
qed



end
