(* ===== verification/ReadFaults.thy ===== *)
theory ReadFaults
  imports Room
begin

text \<open>
  Reads of the archive that fail while a room serves: the file does not open, or the reads stop after
  any number of bytes, in the middle of a line too. A scan then either reports the error or gives
  what it gives without failures (it had seen enough before them). The one thing to see is that a record cut
  short is never taken for a record: a proper prefix of a printed object is not a JSON value.
\<close>

section \<open>A literal cut short\<close>

text \<open>A quote that is not escaped.\<close>

fun shuts :: "string \<Rightarrow> bool" where
  "shuts [] = False"
| "shuts (c # s) \<longleftrightarrow> c = quote_char \<or> (if c = backslash then (case s of [] \<Rightarrow> False | e # t \<Rightarrow> shuts t) else shuts s)"

definition inert :: "char \<Rightarrow> bool" where
  "inert c \<longleftrightarrow> c \<noteq> quote_char \<and> c \<noteq> backslash"

lemma shuts_inert: "list_all inert xs \<Longrightarrow> shuts (xs @ s) = shuts s"
  by (induction xs) (auto simp: inert_def)

lemma shuts_drop: "list_all inert (take n s) \<Longrightarrow> shuts (drop n s) = shuts s"
  using shuts_inert [of "take n s" "drop n s"] by simp

lemma shuts_escape [simp]: "shuts (backslash # e # t) = shuts t"
  by simp

lemma shuts_append: "shuts s \<Longrightarrow> shuts (s @ t)"
proof (induction s rule: shuts.induct)
  case (2 c s)
  then show ?case
    by (cases "c = quote_char"; cases "c = backslash"; cases s) simp_all
qed simp

lemma shuts_prefix: "prefix p s \<Longrightarrow> shuts p \<Longrightarrow> shuts s"
  by (auto simp: prefix_def shuts_append)

lemma hex_val_inert: "hex_val c = Some v \<Longrightarrow> inert c"
  by (auto simp: hex_val_def inert_def split: if_splits)

lemma hex4_inert: "hex4 s = Some r \<Longrightarrow> list_all inert (take 4 s)"
  by (induction s rule: hex4.induct) (simp_all add: hex_val_inert split: option.splits)

lemma high_inert: "0x80 \<le> byte c \<Longrightarrow> inert c"
  by (auto simp: inert_def)

lemma rune_inert:
  assumes "0x80 \<le> byte c"
  shows "shuts (drop (rune_width (c # s) - 1) s) = shuts s"
proof (cases "bad_rune (c # s)")
  case True
  then show ?thesis by (simp add: bad_rune_width)
next
  case False
  then obtain r u where r: "rune_scalar r" "c # s = encode_scalar r @ u"
    by (auto elim: decode_rune_sound)
  have "0x80 \<le> r"
  proof (rule ccontr)
    assume "\<not> 0x80 \<le> r"
    then have "c = char_of r" using r(2) by (simp add: encode_scalar_def)
    with assms \<open>\<not> 0x80 \<le> r\<close> show False by simp
  qed
  then have "list_all inert (encode_scalar r)"
    using encode_scalar_high [OF _ r(1)] by (auto simp: list_all_iff intro: high_inert)
  then have "shuts (c # s) = shuts u" unfolding r(2) by (rule shuts_inert)
  moreover have "shuts (c # s) = shuts s" using high_inert [OF assms] by (simp add: inert_def)
  moreover have "drop (rune_width (c # s) - 1) s = u"
    using unfold_drop_rune [OF r(1)] r(2) by metis
  ultimately show ?thesis by simp
qed

lemma low_half_inert:
  assumes "low_half r s = Some x"
  shows "shuts (drop 6 s) = shuts s"
proof -
  from assms obtain u where s: "s = backslash # CHR ''u'' # u" "hex4 u \<noteq> None"
    by (cases s; cases "tl s") (auto simp: low_half_def split: if_splits option.splits)
  then show ?thesis using shuts_drop [of 4 u] hex4_inert [of u] by auto
qed

lemma json_str_shuts: "json_str s = Some (x, t) \<Longrightarrow> shuts s"
proof (induction s arbitrary: x rule: length_induct)
  case (1 s)
  show ?case
  proof (cases s)
    case (Cons c u)
    note step = 1(2) [unfolded Cons json_str.simps(2)]
    have IH: "shuts v" if "prepend p (json_str v) = Some (x, t)" "length v \<le> length u" for p v
      using that 1(1) Cons by (auto simp: prepend_eq_Some)
    consider "c = quote_char" | "c \<noteq> quote_char" "c \<noteq> backslash" "byte c < 0x80"
      | "c \<noteq> quote_char" "c \<noteq> backslash" "\<not> byte c < 0x80" | "c = backslash" by blast
    then show ?thesis
    proof cases
      case 2
      then have "prepend [c] (json_str u) = Some (x, t)" using step by (simp split: if_splits)
      from IH [OF this] 2 Cons show ?thesis by simp
    next
      case 3
      then have "prepend (encode_rune (fst (decode_rune (c # u))))
          (json_str (drop (rune_width (c # u) - 1) u)) = Some (x, t)" using step by simp
      from IH [OF this] 3 Cons rune_inert [of c u] show ?thesis by simp
    next
      case 4
      with step obtain e v where e: "u = e # v" by (auto split: list.splits)
      have "shuts v"
      proof (cases "e = CHR ''u''")
        case True
        with 4 step e obtain r where r: "hex4 v = Some r" by (auto split: option.splits)
        have d4: "shuts (drop 4 v) = shuts v" using hex4_inert [OF r] by (rule shuts_drop)
        show ?thesis
        proof (cases "is_surrogate r \<and> low_half r (drop 4 v) \<noteq> None")
          case True
          then obtain y where y: "low_half r (drop 4 v) = Some y" by auto
          have "prepend (encode_rune y) (json_str (drop 10 v)) = Some (x, t)"
            using True y 4 step e r \<open>e = CHR ''u''\<close> by simp
          from IH [OF this] e have "shuts (drop 6 (drop 4 v))" by simp
          with low_half_inert [OF y] d4 show ?thesis by simp
        next
          case False
          then obtain p where "prepend p (json_str (drop 4 v)) = Some (x, t)"
            using 4 step e r \<open>e = CHR ''u''\<close> by (auto split: if_splits)
          from IH [OF this] e d4 show ?thesis by simp
        qed
      next
        case False
        with 4 step e obtain y where "unescape e = Some y" by (auto split: option.splits)
        then have "prepend [y] (json_str v) = Some (x, t)" using 4 step e False by simp
        from IH [OF this] e show ?thesis by simp
      qed
      with 4 e Cons show ?thesis by simp
    qed (simp add: Cons)
  qed (use 1 in simp)
qed

lemma esc_ascii_open:
  assumes "byte c < 0x80"
  shows "shuts (esc_ascii c @ t) = shuts t"
proof -
  let ?u = "[CHR ''0'', CHR ''0'', hex_digit (byte c div 16), hex_digit (byte c mod 16)]"
  have "hex_val (hex_digit (byte c div 16)) \<noteq> None" "hex_val (hex_digit (byte c mod 16)) \<noteq> None"
    using assms by simp_all
  then have "inert (hex_digit (byte c div 16))" "inert (hex_digit (byte c mod 16))"
    using hex_val_inert by blast+
  then have "list_all inert ?u" by (simp add: inert_def)
  then have u: "shuts (?u @ t) = shuts t" by (rule shuts_inert)
  have esc: "shuts (backslash # e # s) = shuts s" for e s by simp
  show ?thesis
  proof (cases "inert c \<and> esc_ascii c = [c]")
    case True
    then show ?thesis by (simp add: inert_def)
  next
    case False
    then have "(\<exists>e. esc_ascii c = [backslash, e]) \<or> esc_ascii c = backslash # CHR ''u'' # ?u"
      by (simp add: esc_ascii_def inert_def split: if_splits)
    with u esc show ?thesis by (elim disjE exE) (simp_all only: append_Cons append_Nil)
  qed
qed

lemma esc_open: "\<not> shuts (esc s)"
proof (induction s rule: rune_induct)
  case (bad c s)
  have "esc_head (c # s) = backslash # ''ufffd''"
    using bad bad_rune_not_ascii [OF bad(1)] by (simp add: esc_head_def)
  with bad show ?case by (simp add: esc_bad)
next
  case (good r s)
  show ?case
  proof (cases "r < 0x80")
    case True
    with good esc_ascii_open [of "char_of r"] esc_head_low [OF True, of s] show ?thesis
      by (simp add: esc_encode_append)
  next
    case False
    then have "list_all inert (encode_scalar r)"
      using encode_scalar_high [OF _ good(1)] by (auto simp: list_all_iff intro: high_inert)
    then have "shuts (encode_scalar r @ esc s) = shuts (esc s)" by (rule shuts_inert)
    with False good esc_head_high [OF good(1), of s] show ?thesis
      by (auto simp: esc_encode_append split: if_splits)
  qed
qed simp

lemma lex_nothing [simp]: "lex [] = None"
  by (simp add: lex_def)

lemma lex_cut:
  assumes "prefix p (json_quote k)"
  shows "lex p = (if p = json_quote k then Some (TStr (to_valid k), []) else None)"
proof (cases "p = json_quote k")
  case True
  then show ?thesis using lex_quote [of k "[]"] by simp
next
  case False
  show ?thesis
  proof (cases p)
    case (Cons c q)
    with assms False have q: "c = quote_char" "prefix q (esc k)" by (auto simp: json_quote_def)
    then have "\<not> shuts q" using shuts_prefix esc_open by blast
    then have "json_str q = None" using json_str_shuts by (cases "json_str q") auto
    with q(1) Cons False show ?thesis by (simp add: lex_def is_ws_def)
  qed (use False in simp)
qed

section \<open>An object cut short\<close>

definition string_member :: "string \<times> json \<Rightarrow> bool" where
  "string_member m \<longleftrightarrow> (\<exists>s. snd m = JStr s)"

lemma parse_cut_value:
  assumes "prefix p (json_quote v)"
  shows "parse_json (FObj ms k # stk) PVal p = None"
  using lex_cut [OF assms] by (simp add: parse_json.simps(1,7))

lemma parse_cut_members:
  assumes "list_all string_member (m # ms)" "prefix p (commas (map print_member (m # ms)))"
  shows "parse_json stk (PKey acc) p = None"
  using assms
proof (induction ms arbitrary: m p acc)
  case Nil
  obtain k v where m: "m = (k, JStr v)" using Nil.prems(1) by (cases m) (auto simp: string_member_def)
  with Nil.prems(2) have "prefix p (json_quote k @ CHR '':'' # json_quote v)" by (simp add: print_member_def)
  then consider "prefix p (json_quote k)" | q where "p = json_quote k @ CHR '':'' # q" "prefix q (json_quote v)"
    unfolding prefix_append prefix_Cons by auto
  then show ?case
    by cases (simp_all add: parse_json.simps(4) lex_cut parse_cut_value)
next
  case (Cons n ms)
  obtain k v where m: "m = (k, JStr v)" using Cons.prems(1) by (cases m) (auto simp: string_member_def)
  let ?rest = "commas (map print_member (n # ms))"
  from Cons.prems(2) m have "prefix p (json_quote k @ CHR '':'' # json_quote v @ CHR '','' # ?rest)"
    by (simp add: print_member_def)
  then consider "prefix p (json_quote k)" | q where "p = json_quote k @ CHR '':'' # q" "prefix q (json_quote v)"
    | q where "p = json_quote k @ CHR '':'' # json_quote v @ CHR '','' # q" "prefix q ?rest"
    unfolding prefix_append prefix_Cons by auto
  then show ?case
  proof cases
    case (3 q)
    have "parse_json stk (PKey ((to_valid k, JStr (to_valid v)) # acc)) q = None"
      by (rule Cons.IH [OF _ 3(2)]) (use Cons.prems(1) in simp)
    then show ?thesis by (simp add: 3(1) parse_json.simps(1,4,7))
  qed (simp_all add: parse_json.simps(4) lex_cut parse_cut_value)
qed

lemma unmarshal_cut:
  assumes "list_all string_member ms" "ms \<noteq> []" "strict_prefix p (json_print (JObj ms))"
  shows "json_unmarshal p = None"
proof (cases p)
  case (Cons c q)
  obtain m ns where ms: "ms = m # ns" using assms(2) by (cases ms) auto
  have "json_print (JObj ms) = CHR ''{'' # commas (map print_member ms) @ ''}''"
    by (simp add: print_member_def case_prod_unfold)
  with assms(3) Cons have q: "c = CHR ''{''" "prefix q (commas (map print_member ms))"
    by (auto simp: strict_prefix_def)
  have key: "parse_json [] (PKey []) q = None" using parse_cut_members assms(1) q(2) unfolding ms by blast
  have "\<exists>w. commas (map print_member ms) = quote_char # w"
    by (cases ns) (simp_all add: ms print_member_def json_quote_def split: prod.split)
  with q(2) have "q = [] \<or> (\<exists>w. q = quote_char # w)" by (cases q) auto
  then have "parse_json [] PKey0 q = parse_json [] (PKey []) q"
    by (auto simp: parse_json.simps(3) lex_def is_ws_def split: option.split)
  with key q(1) Cons show ?thesis by (simp add: json_unmarshal_def parse_json.simps(1) max_depth_def)
qed (simp add: json_unmarshal_def parse_json.simps(1))

section \<open>The scan\<close>

lemma peek_cut:
  assumes "wf_message m" "strict_prefix p (m_wire m)"
  shows "\<exists>e. peek p = Inl e"
proof -
  let ?w = "\<lparr>w_h = m_raw m, w_sig = b64_encode b64_std True (m_sig m), w_p = m_payload m\<rparr>"
  have "m_wire m = json_print (JObj (wire_members ?w))"
    using assms(1) by (simp only: wf_message_def encode_wire_def)
  moreover have "list_all string_member (wire_members ?w)" "wire_members ?w \<noteq> []"
    by (simp_all add: wire_members_def string_member_def)
  ultimately have "json_unmarshal p = None" using assms(2) unmarshal_cut by metis
  then show ?thesis by (simp add: peek_def unmarshal_struct_def)
qed

lemma scan_records_append:
  "scan_records f (xs @ ys) st =
    (case scan_records f xs st of (True, st') \<Rightarrow> scan_records f ys st' | (False, st') \<Rightarrow> (False, st'))"
  by (induction f xs st rule: scan_records.induct) (auto split: sum.split bool.split prod.split)

text \<open>The lines of a log that is read up to some byte: whole records, and perhaps one that is cut.\<close>

lemma scan_tokens_cut:
  assumes "\<forall>m\<in>set ms. readable m"
  shows "\<exists>k junk. scan_tokens (take n (log_bytes ms)) = (map m_wire (take k ms) @ junk, False) \<and>
    (\<forall>l\<in>set junk. \<exists>e. peek l = Inl e)"
  using assms
proof (induction ms arbitrary: n)
  case Nil
  then show ?case by (intro exI [of _ 0] exI [of _ "[]"]) (simp add: scan_tokens.simps)
next
  case (Cons m ms)
  have m: "readable m" using Cons.prems by simp
  note w = wf_message_wire [OF readable_facts(1) [OF m]] readable_facts(3) [OF m]
  show ?case
  proof (cases "n \<le> length (m_wire m)")
    case True
    define p where "p = take n (m_wire m)"
    have cut: "take n (log_bytes (m # ms)) = p" using True by (simp add: p_def)
    have p: "prefix p (m_wire m)" unfolding p_def by (rule take_is_prefix)
    have "newline_byte \<notin> set p" "CHR 0x0D \<notin> set p" "length p < max_line"
      using w set_mono_prefix [OF p] prefix_length_le [OF p] by auto
    moreover have tw: "takeWhile (\<lambda>c. c \<noteq> newline_byte) p = p"
      using \<open>newline_byte \<notin> set p\<close> by (auto simp: takeWhile_eq_all_conv)
    moreover have "drop_cr p = p" using \<open>CHR 0x0D \<notin> set p\<close> by (metis drop_cr_def last_in_set)
    ultimately have toks: "scan_tokens p = (if p = [] then [] else [p], False)"
      by (subst scan_tokens.simps) (simp add: tw Let_def scan_tokens.simps [of "[]"] del: takeWhile_eq_all_conv)
    show ?thesis
    proof (cases "p = m_wire m")
      case True
      with toks cut w(3) show ?thesis by (intro exI [of _ 1] exI [of _ "[]"]) simp
    next
      case False
      then have "\<exists>e. peek p = Inl e" using p readable_facts(1) [OF m] by (intro peek_cut) (auto simp: strict_prefix_def)
      with toks cut show ?thesis by (intro exI [of _ 0] exI [of _ "if p = [] then [] else [p]"]) simp
    qed
  next
    case False
    define n' where "n' = n - Suc (length (m_wire m))"
    have "n - length (m_wire m) = Suc n'" using False by (simp add: n'_def)
    then have cut: "take n (log_bytes (m # ms)) = m_wire m @ newline_byte # take n' (log_bytes ms)"
      using False by simp
    have "\<forall>m\<in>set ms. readable m" using Cons.prems by simp
    from Cons.IH [OF this, of n'] obtain k junk where
      k: "scan_tokens (take n' (log_bytes ms)) = (map m_wire (take k ms) @ junk, False)"
      "\<forall>l\<in>set junk. \<exists>e. peek l = Inl e" by blast
    with scan_tokens_record [OF readable_facts(1,3) [OF m]] cut show ?thesis
      by (intro exI [of _ "Suc k"] exI [of _ junk]) simp
  qed
qed

lemma scan_junk: "\<forall>l\<in>set ls. \<exists>e. peek l = Inl e \<Longrightarrow> scan_records f ls st = (True, st)"
  by (induction ls) auto

lemma archive_scan_faults:
  assumes "d (a_path a) = Some (log_bytes ms)" "\<forall>m\<in>set ms. readable m"
  shows "fst (archive_scan fl d a f st) \<noteq> None \<and> (fl_op fl IoReopen \<or> fl_read fl \<noteq> None) \<or>
    archive_scan fl d a f st = archive_scan no_faults d a f st"
proof (cases "fl_op fl IoReopen")
  case False
  show ?thesis
  proof (cases "fl_read fl")
    case (Some n)
    obtain k junk where toks: "scan_tokens (take n (log_bytes ms)) = (map m_wire (take k ms) @ junk, False)"
      "\<forall>l\<in>set junk. \<exists>e. peek l = Inl e" using scan_tokens_cut [OF assms(2)] by blast
    obtain more st' where part: "scan_records f (map m_wire (take k ms)) st = (more, st')" by fastforce
    have "map m_wire ms = map m_wire (take k ms) @ map m_wire (drop k ms)" by (simp flip: map_append)
    then have "\<not> more \<Longrightarrow> scan_records f (map m_wire ms) st = (False, st')"
      using part by (simp add: scan_records_append)
    with toks part False Some assms show ?thesis
      by (cases more) (simp_all add: archive_scan_def scan_records_append scan_junk scan_tokens_log readable_def)
  qed (use False assms in \<open>simp add: archive_scan_def\<close>)
qed (simp add: archive_scan_def assms(1))

section \<open>What is served\<close>

lemma archive_range_faults:
  assumes "log_holds cr a d ms"
  shows "(\<exists>e. archive_range cr fl d a from to = Inl e) \<and> (fl_op fl IoReopen \<or> fl_read fl \<noteq> None) \<or>
    archive_range cr fl d a from to = archive_range cr no_faults d a from to"
  using archive_scan_faults [of d a ms fl "range_step cr (a_keys a) from to" "[]"] assms
  by (auto simp: archive_range_def log_holds_def split: prod.splits option.splits)

lemma serve_faults:
  assumes "history_inv cr d h ms"
  shows "(\<exists>e. serve cr fl d h from to = Some ([], [], Some e)) \<and> (fl_op fl IoReopen \<or> fl_read fl \<noteq> None) \<or>
    serve cr fl d h from to = serve cr no_faults d h from to"
  using archive_range_faults [OF history_inv_facts(1) [OF assms], of fl "from" to]
  by (auto simp: serve_def Let_def split: option.splits bool.splits)

lemma history_since_faults:
  assumes "history_inv cr d h ms"
  shows "(\<exists>msgs gaps e. history_since cr fl d h since = Some (msgs, gaps, Some e)) \<and>
      (fl_op fl IoReopen \<or> fl_read fl \<noteq> None) \<or>
    history_since cr fl d h since = history_since cr no_faults d h since"
proof (cases "since \<ge> hi_last h")
  case False
  obtain start cut where "\<And>g. history_since cr g d h since =
      (case serve cr g d h start (hi_last h) of None \<Rightarrow> None | Some (msgs, gaps, e) \<Rightarrow> Some (msgs, cut @ gaps, e))"
    using False by (simp add: history_since_def Let_def case_prod_beta)
  with serve_faults [OF assms, of fl start "hi_last h"] show ?thesis by auto
qed (simp add: history_since_def)

end
