(* ===== verification/CatchUp.thy ===== *)
theory CatchUp
  imports Server Delivery ReadFaults
begin

text \<open>
  What a client that joins is told, in the whole server: of every message that any instance of the room has
  ever announced, before whatever failures, evictions, crashes and restarts, and that the client has not
  seen yet; or, when the archive cannot be read at that moment, that the history is unavailable.
\<close>

section \<open>A join's answer\<close>

text \<open>The actions tell the client of a sequence: with the message (which opens under the server's key
  if it is not an image out of the archive), with a gap that covers it, or not, because it is shushed.\<close>

definition told :: "server \<Rightarrow> room \<Rightarrow> nat \<Rightarrow> action list \<Rightarrow> u64 \<Rightarrow> bool" where
  "told sv r c acts q \<longleftrightarrow>
     (\<exists>m. m_seq m = q \<and> Send c (m_wire m) \<in> set acts \<and>
        (h_kind (m_header m) \<noteq> kind_image \<longrightarrow> open_envelope (sv_crypto sv) (sv_keys sv) (m_wire m) = Inr m)) \<or>
     (\<exists>g. g_from g \<le> q \<and> q \<le> g_to g \<and> Send c (gap_bytes (rm_name r) g) \<in> set acts) \<or>
     q \<in> hi_shushed (rm_hist r)"

lemma join_tells:
  assumes "room_inv sv d r ms" "unat (hi_last (rm_hist r)) < 2 ^ 63"
  shows "\<exists>acts. room_turn sv no_faults now d r (Register c since) =
      Some (Some (r\<lparr>rm_clients := List.insert c (rm_clients r)\<rparr>), d, acts) \<and>
    hd acts = Send c (joined_bytes (rm_name r) (hi_last (rm_hist r))) \<and>
    (\<forall>q. since < q \<and> q \<le> hi_last (rm_hist r) \<longrightarrow> told sv r c acts q)"
proof (cases "since < hi_last (rm_hist r)")
  case False
  then have "history_since (sv_crypto sv) no_faults d (rm_hist r) since = Some ([], [], None)"
    by (simp add: history_since_def not_less)
  with False show ?thesis
    by (auto simp: room_turn_def join_def Let_def deliver_def last_seq_def)
next
  case True
  let ?h = "rm_hist r"
  obtain msgs gaps where s: "history_since (sv_crypto sv) no_faults d ?h since = Some (msgs, since_truncated ?h since @ gaps, None)"
    "view_of ?h ms (since_start ?h since) (hi_last ?h) msgs gaps"
    using history_since_spec [OF room_inv_facts(1) [OF assms(1)] assms(2) True] by blast
  define gs where "gs = since_truncated ?h since @ gaps"
  define acts where "acts = Send c (joined_bytes (rm_name r) (hi_last ?h)) #
    map (\<lambda>g. Send c (gap_bytes (rm_name r) g)) gs @ map (\<lambda>m. Send c (m_wire m)) msgs @ [JoinReply c None]"
  have turn: "room_turn sv no_faults now d r (Register c since) =
      Some (Some (r\<lparr>rm_clients := List.insert c (rm_clients r)\<rparr>), d, acts)"
    using s(1) by (simp add: room_turn_def join_def Let_def deliver_def acts_def gs_def last_seq_def)
  have acc: "accounted ?h (since + 1) (hi_last ?h) msgs gs" unfolding gs_def by (rule since_accounted [OF True assms(2) s(2)])
  have "told sv r c acts q" if q: "since < q" "q \<le> hi_last ?h" for q
  proof -
    have "since + 1 \<le> q" using q(1) by (rule inc_le)
    with acc q(2) consider "q \<in> hi_shushed ?h" | m where "m \<in> set msgs" "m_seq m = q" | "covered gs q"
      unfolding accounted_def by blast
    then show ?thesis
    proof cases
      case (2 m)
      have "h_kind (m_header m) \<noteq> kind_image \<Longrightarrow> open_envelope (sv_crypto sv) (sv_keys sv) (m_wire m) = Inr m"
        using viewed_opens [OF assms(1) s(2) 2(1)] .
      with 2 show ?thesis by (auto simp: told_def acts_def)
    next
      case 3
      then show ?thesis by (auto simp: told_def acts_def covered_def)
    qed (simp add: told_def)
  qed
  with turn show ?thesis by (auto simp: acts_def)
qed

text \<open>The same when reads of the archive may fail: all of that, or nothing but a word that it failed.\<close>

definition read_fails :: "faults \<Rightarrow> bool" where
  "read_fails fl \<longleftrightarrow> fl_op fl IoReopen \<or> fl_read fl \<noteq> None"

definition unavailable :: "room \<Rightarrow> nat \<Rightarrow> action list" where
  "unavailable r c = [Send c (joined_bytes (rm_name r) (hi_last (rm_hist r))),
     Send c (error_bytes ''history unavailable''), JoinReply c None]"

lemma join_answers:
  assumes "room_inv sv d r ms" "unat (hi_last (rm_hist r)) < 2 ^ 63"
  shows "\<exists>acts. room_turn sv fl now d r (Register c since) =
      Some (Some (r\<lparr>rm_clients := List.insert c (rm_clients r)\<rparr>), d, acts) \<and>
    hd acts = Send c (joined_bytes (rm_name r) (hi_last (rm_hist r))) \<and>
    ((\<forall>q. since < q \<and> q \<le> hi_last (rm_hist r) \<longrightarrow> told sv r c acts q) \<or>
     read_fails fl \<and> acts = unavailable r c)"
proof -
  have turn: "room_turn sv g now d r (Register c since) =
      (case join sv g d r c since of None \<Rightarrow> None | Some (r', acts) \<Rightarrow> Some (Some r', d, acts @ [JoinReply c None]))" for g
    by (simp add: room_turn_def)
  from history_since_faults [OF room_inv_facts(1) [OF assms(1)], of fl since] show ?thesis
  proof (elim disjE conjE exE)
    assume "history_since (sv_crypto sv) fl d (rm_hist r) since = history_since (sv_crypto sv) no_faults d (rm_hist r) since"
    then have "join sv fl d r c since = join sv no_faults d r c since" by (simp add: join_def)
    with join_tells [OF assms, of now c since] show ?thesis unfolding turn by auto
  qed (auto simp: turn join_def read_fails_def unavailable_def last_seq_def)
qed

section \<open>Properties\<close>


text \<open>The sample run of theory \<open>Server\<close>, until a second client wants to be let in.\<close>

lemma sample_second_joins:
  obtains s where "(server_step sample_server frame_fits)\<^sup>*\<^sup>* sample_start s" "ss_said s ''r'' = [1]"
    "hb_conn (ss_hub s) 2 = Joining ''r'' 0 2" "phase_of (ss_hub s) 0 = Serving" "hi_last (rm_hist (ss_rooms s 0)) = 1"
proof -
  let ?cfg = "sv_cfg sample_server" and ?step = "server_step sample_server frame_fits"
  obtain s where run: "?step\<^sup>*\<^sup>* sample_start s" and said: "ss_said s ''r'' = [1]"
    and h: "phase_of (ss_hub s) 0 = Announcing 1" "hb_conn (ss_hub s) 1 = Ready (Some (''r'', 0))"
      "hb_conn (ss_hub s) 2 = NotConnected" "\<not> hb_down (ss_hub s)" "hb_notes (ss_hub s) = []"
      "name_of (ss_hub s) 0 = ''r''" "hi_last (rm_hist (ss_rooms s 0)) = 1" "hub_inv (ss_hub s)"
    by (rule sample_announces)
  let ?h1 = "set_phase 0 Serving (notify_activity ''r'' 1 (ss_hub s))"
  let ?h2 = "set_conn 2 (Ready None) (registry_takes ?cfg 0 (Cmd (AddClient 2)) ?h1)"
  let ?h3 = "set_conn 2 (Asking ''r'' 3) ?h2"
  let ?h4 = "ask_registry ?cfg 0 2 ''r'' 2 ?h3"
  let ?at = "\<lambda>h. s\<lparr>ss_hub := h\<rparr>"
  have inst: "hb_inst ?h2 = hb_inst ?h1" "hb_conn ?h2 = (hb_conn ?h1)(2 := Ready None)" "\<not> hb_down ?h3"
    using h(4) by (auto simp: reg_simps reg_command_def set_conn_def notify_activity_def)
  have "holds (hb_conn (ss_hub s) 1) = Some (''r'', 0)" using h(2) by simp
  from holder_facts(4) [OF h(8) this] h(1) have tab: "room_of (ss_hub s) ''r'' = Some 0" by simp
  have h4: "hb_inst ?h4 = hb_inst ?h3" "hb_conn ?h4 = (hb_conn ?h3)(2 := Joining ''r'' 0 2)"
    using tab h(4) by (auto simp: ask_registry_def valid_r reg_simps reg_command_def notify_activity_def Let_def set_conn_def)
  have "hub_step ?cfg (ss_hub s) ?h1"
    using hub_step.noted [OF h(1), of ?cfg] h(1,5,6) by (simp add: activity_queue_def)
  moreover have "apart (ss_hub s) ?h1" using h(1) by (auto simp: apart_def notify_activity_def)
  ultimately have "?step s (?at ?h1)" by (rule server_step.hub_moves)
  moreover have "hub_step ?cfg ?h1 ?h2" by (rule hub_step.connect) (use h(3) in \<open>simp add: notify_activity_def\<close>)
  moreover have "apart ?h1 ?h2" by (rule apart_ready) (use inst h(3) in \<open>auto simp: notify_activity_def\<close>)
  ultimately have "?step\<^sup>*\<^sup>* s (?at ?h2)"
    using server_step.hub_moves [of sample_server "?at ?h1" ?h2 frame_fits] by simp
  moreover have "hub_step ?cfg ?h2 ?h3"
    using hub_step.frame_join [of ?h2 2 ?cfg "''r''"] by (simp add: join_attempts_def)
  moreover have "apart ?h2 ?h3" by (rule apart_ready) (use inst in auto)
  ultimately have "?step\<^sup>*\<^sup>* s (?at ?h3)"
    using server_step.hub_moves [of sample_server "?at ?h2" ?h3 frame_fits] by (simp add: rtranclp.rtrancl_into_rtrancl)
  moreover have "hub_step ?cfg ?h3 ?h4"
    using hub_step.ask [of ?h3 2 "''r''" 2 ?cfg 0] inst(3) by (simp add: eval_nat_numeral)
  moreover have "apart ?h3 ?h4" by (rule apart_ready) (use h4 in auto)
  ultimately have "?step\<^sup>*\<^sup>* s (?at ?h4)"
    using server_step.hub_moves [of sample_server "?at ?h3" ?h4 frame_fits] by (simp add: rtranclp.rtrancl_into_rtrancl)
  with run have "?step\<^sup>*\<^sup>* sample_start (?at ?h4)" by (rule rtranclp_trans)
  moreover have "phase_of ?h4 0 = Serving" unfolding h4(1) using inst(1) by simp
  ultimately show thesis using said h4(2) h(7) by (intro that [of "?at ?h4"]) simp_all
qed


end
