(* ===== verification/Auth.thy ===== *)
theory Auth
  imports GoText
begin

text \<open>
  \<^verbatim>\<open>internal/auth/auth.go\<close>: password login and stateless tokens. SHA-256, HKDF and HMAC are
  arguments; of HMAC the code relies on the length of its result. A time is an \<open>int\<close> of nanoseconds
  since the epoch, a \<open>time.Duration\<close> an \<open>int\<close> of nanoseconds, within the years \<open>int64\<close> seconds can
  count. Randomness and the clock are arguments.
\<close>

record mac_lib =
  ml_sha256 :: "string \<Rightarrow> string"
  ml_hkdf :: "string \<Rightarrow> string \<Rightarrow> string \<Rightarrow> nat \<Rightarrow> string option"
  ml_hmac :: "string \<Rightarrow> string \<Rightarrow> string"

text \<open>HMAC-SHA-256 has 32 bytes, and HKDF does not fail for a key of 32 bytes.\<close>

definition mac_lib_ok :: "mac_lib \<Rightarrow> bool" where
  "mac_lib_ok ml \<longleftrightarrow> (\<forall>k m. length (ml_hmac ml k m) = 32) \<and>
     (\<forall>secret salt info. \<exists>key. ml_hkdf ml secret salt info 32 = Some key)"

datatype auth_error = BadPassword | BadToken | Expired | Revoked | EmptyPassword | ShortSecret
  | BadTTL | KeyDerivation | NoEntropy

definition token_claims_len :: nat where "token_claims_len = 12"

definition mac_len :: nat where "mac_len = 32"

definition token_len :: nat where "token_len = token_claims_len + mac_len"

definition key_info :: string where "key_info = ''chapi token key v1''"

section \<open>Big-endian integers\<close>

fun be_bytes :: "nat \<Rightarrow> nat \<Rightarrow> string" where
  "be_bytes 0 n = []"
| "be_bytes (Suc k) n = be_bytes k (n div 256) @ [char_of (n mod 256)]"

definition be_value :: "string \<Rightarrow> nat" where
  "be_value s = foldl (\<lambda>a c. a * 256 + byte c) 0 s"

lemma length_be_bytes [simp]: "length (be_bytes k n) = k"
  by (induction k arbitrary: n) auto

lemma be_value_bytes [simp]: "n < 256 ^ k \<Longrightarrow> be_value (be_bytes k n) = n"
proof (induction k arbitrary: n)
  case (Suc k)
  then have "n div 256 < 256 ^ k" by (simp add: less_mult_imp_div_less)
  with Suc.IH [of "n div 256"] show ?case by (simp add: be_value_def)
qed (simp add: be_value_def)

interpretation be64: codec "\<lambda>w :: u64. be_bytes 8 (unat w)" "\<lambda>s. Some (word_of_nat (be_value s))" "\<lambda>_. True"
proof unfold_locales
  fix w :: u64
  have "unat w < 256 ^ 8" using unat_u64(2) [of w] by simp
  then show "Some (word_of_nat (be_value (be_bytes 8 (unat w)))) = Some w" by simp
qed

interpretation be32: codec "\<lambda>w :: 32 word. be_bytes 4 (unat w)" "\<lambda>s. Some (word_of_nat (be_value s))" "\<lambda>_. True"
proof unfold_locales
  fix w :: "32 word"
  have "unat w < 256 ^ 4" using unsigned_less [of w, where ?'a = nat] by simp
  then show "Some (word_of_nat (be_value (be_bytes 4 (unat w)))) = Some w" by simp
qed

section \<open>The authenticator\<close>

record authenticator =
  au_digest :: string
  au_secret :: string
  au_epoch :: "32 word"
  au_ttl :: int

definition new_auth :: "mac_lib \<Rightarrow> string \<Rightarrow> string \<Rightarrow> 32 word \<Rightarrow> int \<Rightarrow> auth_error + authenticator" where
  "new_auth ml password secret epoch ttl =
     (if password = [] then Inl EmptyPassword
      else if length secret < 16 then Inl ShortSecret
      else if ttl \<le> 0 then Inl BadTTL
      else Inr \<lparr>au_digest = ml_sha256 ml password, au_secret = secret, au_epoch = epoch, au_ttl = ttl\<rparr>)"

definition token_key :: "mac_lib \<Rightarrow> authenticator \<Rightarrow> 32 word \<Rightarrow> string option" where
  "token_key ml a epoch = ml_hkdf ml (au_secret a) (be_bytes 4 (unat epoch)) key_info 32"

definition check_password :: "mac_lib \<Rightarrow> authenticator \<Rightarrow> string \<Rightarrow> auth_error option" where
  "check_password ml a attempt =
     (if ml_sha256 ml attempt \<noteq> au_digest a then Some BadPassword else None)"

definition unix :: "int \<Rightarrow> int" where
  "unix t = t div 1000000000"

text \<open>The token and its expiry.\<close>

definition mint :: "mac_lib \<Rightarrow> authenticator \<Rightarrow> int \<Rightarrow> auth_error + (string \<times> int)" where
  "mint ml a now =
     (let expiry = now + au_ttl a;
          claims = be_bytes 8 (unat (word_of_int (unix expiry) :: u64)) @ be_bytes 4 (unat (au_epoch a))
      in case token_key ml a (au_epoch a) of
           None \<Rightarrow> Inl KeyDerivation
         | Some key \<Rightarrow> Inr (b64_encode b64_url False (claims @ ml_hmac ml key claims), expiry))"

definition verify :: "mac_lib \<Rightarrow> authenticator \<Rightarrow> int \<Rightarrow> string \<Rightarrow> auth_error option" where
  "verify ml a now token =
     (case b64_decode b64_url False token of
        None \<Rightarrow> Some BadToken
      | Some raw \<Rightarrow>
          if length raw \<noteq> token_len then Some BadToken
          else let claims = take token_claims_len raw; presented = drop token_claims_len raw;
                   epoch = (word_of_nat (be_value (take 4 (drop 8 claims))) :: 32 word)
               in if epoch \<noteq> au_epoch a then Some Revoked
                  else case token_key ml a epoch of
                    None \<Rightarrow> Some BadToken
                  | Some key \<Rightarrow>
                      if ml_hmac ml key claims \<noteq> presented then Some BadToken
                      else if now > sint (word_of_nat (be_value (take 8 claims)) :: u64) * 1000000000
                           then Some Expired
                      else None)"

definition new_secret :: "string option \<Rightarrow> auth_error + string" where
  "new_secret random = (case random of None \<Rightarrow> Inl NoEntropy | Some s \<Rightarrow> Inr (take 32 s))"

section \<open>Instances for the witnesses\<close>

definition sample_macs :: mac_lib where
  "sample_macs = \<lparr>ml_sha256 = (\<lambda>s. take 32 (s @ replicate 32 CHR 0x00)),
     ml_hkdf = (\<lambda>secret salt info n. Some (take n (salt @ secret @ replicate n CHR 0x00))),
     ml_hmac = (\<lambda>k m. take 32 (k @ m @ replicate 32 CHR 0x00))\<rparr>"

definition sample_auth :: "32 word \<Rightarrow> authenticator" where
  "sample_auth epoch = \<lparr>au_digest = ml_sha256 sample_macs ''hunter2'', au_secret = replicate 32 CHR ''s'',
     au_epoch = epoch, au_ttl = 43200000000000\<rparr>"

lemma sample_macs_ok: "mac_lib_ok sample_macs"
  by (auto simp: mac_lib_ok_def sample_macs_def min_def)

section \<open>What a minted token verifies to\<close>

lemma verify_minted:
  assumes "mac_lib_ok ml" "mint ml a now = Inr (token, expiry)"
  shows "verify ml b now' token =
    (if au_epoch b \<noteq> au_epoch a then Some Revoked
     else case (token_key ml a (au_epoch a), token_key ml b (au_epoch b)) of
        (Some k, Some k') \<Rightarrow>
          let claims = be_bytes 8 (unat (word_of_int (unix expiry) :: u64)) @ be_bytes 4 (unat (au_epoch a))
          in if ml_hmac ml k' claims \<noteq> ml_hmac ml k claims then Some BadToken
             else if now' > sint (word_of_int (unix expiry) :: u64) * 1000000000 then Some Expired else None
      | _ \<Rightarrow> Some BadToken)"
proof -
  let ?w = "word_of_int (unix expiry) :: u64"
  let ?claims = "be_bytes 8 (unat ?w) @ be_bytes 4 (unat (au_epoch a))"
  obtain k where k: "token_key ml a (au_epoch a) = Some k"
    "token = b64_encode b64_url False (?claims @ ml_hmac ml k ?claims)"
    using assms(2) by (auto simp: mint_def Let_def split: option.splits)
  have dec: "b64_decode b64_url False token = Some (?claims @ ml_hmac ml k ?claims)"
    unfolding k(2) by (rule b64url.dec_enc) simp
  have len: "length (ml_hmac ml k ?claims) = 32" using assms(1) by (simp add: mac_lib_ok_def)
  have e: "word_of_nat (be_value (be_bytes 4 (unat (au_epoch a)))) = au_epoch a"
    and t: "word_of_nat (be_value (be_bytes 8 (unat ?w))) = ?w"
    using be32.dec_enc [of "au_epoch a"] be64.dec_enc [of ?w] by simp_all
  show ?thesis
    using k(1) len e t
    by (auto simp: verify_def dec token_len_def token_claims_len_def mac_len_def Let_def split: option.splits)
qed

lemma sint_unix: "0 \<le> t \<Longrightarrow> t < 2 ^ 63 \<Longrightarrow> sint (word_of_int t :: u64) = t"
  by (simp add: signed_of_int signed_take_bit_int_eq_self)

lemma verify_own:
  assumes "mac_lib_ok ml" "mint ml a now = Inr (token, expiry)" "0 \<le> now + au_ttl a" "now + au_ttl a < 2 ^ 63"
  shows "expiry = now + au_ttl a \<and>
    verify ml a later token =
      (if later > (now + au_ttl a) div 1000000000 * 1000000000 then Some Expired else None)"
proof -
  have e: "expiry = now + au_ttl a" using assms(2) by (auto simp: mint_def Let_def split: option.splits)
  obtain k where "token_key ml a (au_epoch a) = Some k"
    using assms(2) by (auto simp: mint_def Let_def split: option.splits)
  moreover have "sint (word_of_int (unix expiry) :: u64) = unix expiry"
    using assms(3,4) e by (intro sint_unix) (auto simp: unix_def)
  ultimately show ?thesis
    using verify_minted [OF assms(1,2), of a later] e by (simp add: Let_def unix_def)
qed

section \<open>Properties\<close>

text \<open>C34: the life of a token. A token minted at \<open>now\<close> is accepted by the same authenticator until
  the second its expiry falls in begins, and refused as expired from just after that: the lifetime is
  the configured one, cut down to a whole second.\<close>

theorem token_lifetime:
  assumes "mac_lib_ok ml" "mint ml a now = Inr (token, expiry)" "0 \<le> now + au_ttl a" "now + au_ttl a < 2 ^ 63"
  shows "expiry = now + au_ttl a \<and>
    verify ml a later token =
      (if later > (now + au_ttl a) div 1000000000 * 1000000000 then Some Expired else None)"
  using assms by (rule verify_own)

theorem token_lifetime_witness:
  "\<exists>token. mint sample_macs (sample_auth 1) 1755130000000000000 = Inr (token, 1755173200000000000) \<and>
    verify sample_macs (sample_auth 1) 1755140000000000000 token = None \<and>
    verify sample_macs (sample_auth 1) 1755173200000000001 token = Some Expired"
proof -
  obtain token where t: "mint sample_macs (sample_auth 1) 1755130000000000000 = Inr (token, 1755173200000000000)"
    by (auto simp: mint_def token_key_def sample_macs_def sample_auth_def Let_def)
  have "au_ttl (sample_auth 1) = 43200000000000" by (simp add: sample_auth_def)
  with token_lifetime [OF sample_macs_ok t] t show ?thesis by auto
qed

text \<open>C33: an epoch bump revokes everything. A token minted under one epoch is refused by every
  authenticator of another epoch, whatever its secret, at any time, before its MAC is even looked at.\<close>

theorem epoch_bump_revokes:
  assumes "mac_lib_ok ml" "mint ml a now = Inr (token, expiry)" "au_epoch b \<noteq> au_epoch a"
  shows "verify ml b later token = Some Revoked"
  using verify_minted [OF assms(1,2), of b later] assms(3) by simp

theorem epoch_bump_revokes_witness:
  "\<exists>token e. mint sample_macs (sample_auth 1) 0 = Inr (token, e) \<and>
    verify sample_macs (sample_auth 2) 5 token = Some Revoked"
proof -
  obtain token e where t: "mint sample_macs (sample_auth 1) 0 = Inr (token, e)"
    by (auto simp: mint_def token_key_def sample_macs_def Let_def)
  have "au_epoch (sample_auth 2) \<noteq> au_epoch (sample_auth 1)" by (simp add: sample_auth_def)
  with epoch_bump_revokes [OF sample_macs_ok t, of "sample_auth 2" 5] t show ?thesis by blast
qed

text \<open>C35: what is accepted carries a valid MAC. A string is accepted only if it decodes to 44 bytes,
  the last 32 of which are the MAC of the first 12 under the key of the authenticator's own epoch,
  which those 12 bytes name, and the time they name has not passed.\<close>

theorem accepted_token_authentic:
  assumes "verify ml a now token = None"
  shows "\<exists>claims mac key. b64_decode b64_url False token = Some (claims @ mac) \<and> length claims = 12 \<and>
    length mac = 32 \<and> token_key ml a (au_epoch a) = Some key \<and> mac = ml_hmac ml key claims \<and>
    (word_of_nat (be_value (drop 8 claims)) :: 32 word) = au_epoch a \<and>
    now \<le> sint (word_of_nat (be_value (take 8 claims)) :: u64) * 1000000000"
proof -
  obtain raw where raw: "b64_decode b64_url False token = Some raw" "length raw = 44"
    using assms by (auto simp: verify_def token_len_def token_claims_len_def mac_len_def
        split: option.splits if_splits)
  have "take 4 (drop 8 (take 12 raw)) = drop 8 (take 12 raw)" using raw(2) by simp
  then obtain key where "(word_of_nat (be_value (drop 8 (take 12 raw))) :: 32 word) = au_epoch a"
    "token_key ml a (au_epoch a) = Some key" "drop 12 raw = ml_hmac ml key (take 12 raw)"
    "now \<le> sint (word_of_nat (be_value (take 8 (take 12 raw))) :: u64) * 1000000000"
    using assms raw
    by (auto simp: verify_def token_len_def token_claims_len_def mac_len_def Let_def
        split: option.splits if_splits)
  moreover have "b64_decode b64_url False token = Some (take 12 raw @ drop 12 raw)"
    "length (take 12 raw) = 12" "length (drop 12 raw) = 32" using raw by simp_all
  ultimately show ?thesis by blast
qed

theorem accepted_token_authentic_witness:
  "\<exists>token key. token_key sample_macs (sample_auth 1) 1 = Some key \<and>
    verify sample_macs (sample_auth 1) 0 token = None"
proof -
  obtain token e where t: "mint sample_macs (sample_auth 1) 0 = Inr (token, e)"
    by (auto simp: mint_def token_key_def sample_macs_def Let_def)
  obtain k where "token_key sample_macs (sample_auth 1) (au_epoch (sample_auth 1)) = Some k"
    by (simp add: token_key_def sample_macs_def)
  moreover have e: "e = 43200000000000"
    using t by (auto simp: mint_def sample_auth_def Let_def split: option.splits)
  have "sint (word_of_int (unix e) :: u64) = unix e" unfolding e by (intro sint_unix) (auto simp: unix_def)
  ultimately have v: "verify sample_macs (sample_auth 1) 0 token = None"
    using verify_minted [OF sample_macs_ok t, of "sample_auth 1" 0] by (simp add: Let_def unix_def e)
  from accepted_token_authentic [OF v] v show ?thesis by (auto simp: sample_auth_def)
qed

end
