(* ===== verification/Ws.thy ===== *)
theory Ws
  imports Registry Auth
begin

text \<open>
  \<^verbatim>\<open>internal/httpapi/ws.go\<close>: the websocket handshake and the two pumps of a connection.

  The websocket library is not the repository's code. Of it the model uses its documented behaviour:
  what \<open>Accept\<close> negotiates and what \<open>Read\<close>, \<open>Write\<close> and \<open>Ping\<close> answer are arguments; a socket that is
  closed gives no more frames and takes no more writes; a frame over the read limit is not given.
  The peer or the library may drop the socket at any moment. The pumps are two goroutines: a run
  interleaves their turns with what the hub does to the client's queue.
\<close>

section \<open>The handshake\<close>

definition subprotocol :: string where
  "subprotocol = ''chapi.v1''"

definition close_token_expired :: int where
  "close_token_expired = 4004"

definition frame_overhead :: int where
  "frame_overhead = 65536"

text \<open>The argument: the values of the \<open>Sec-WebSocket-Protocol\<close> header.\<close>

definition offered_token :: "string list \<Rightarrow> string option" where
  "offered_token headers =
     List.find (\<lambda>offered. offered \<noteq> [] \<and> offered \<noteq> subprotocol)
       (concat (map (\<lambda>h. map trim_space (split_on CHR '','' h)) headers))"

definition truncate_reason :: "string \<Rightarrow> string" where
  "truncate_reason reason = (if length reason \<le> 123 then reason else take 123 reason)"

definition read_limit :: "hub_config \<Rightarrow> int" where
  "read_limit cfg = wrap64 (max (hc_image_max cfg) (hc_max_text cfg) + frame_overhead)"

datatype handshake = Unauthorized | HandshakeFailed | PolicyViolation | Upgraded string int

text \<open>\<open>accepted\<close> is what \<open>Accept\<close> gives: the subprotocol it negotiated, or a failure.\<close>

definition handle_websocket ::
  "mac_lib \<Rightarrow> authenticator \<Rightarrow> int \<Rightarrow> hub_config \<Rightarrow> string list \<Rightarrow> string option \<Rightarrow> handshake" where
  "handle_websocket ml a now cfg headers accepted =
     (case offered_token headers of
        None \<Rightarrow> Unauthorized
      | Some token \<Rightarrow>
          if verify ml a now token \<noteq> None then Unauthorized
          else case accepted of
            None \<Rightarrow> HandshakeFailed
          | Some p \<Rightarrow> if p \<noteq> subprotocol then PolicyViolation else Upgraded token (read_limit cfg))"

section \<open>The connection\<close>

record conn =
  cn_client :: client
  cn_session :: session
  cn_limit :: int
  cn_reading :: bool
  cn_writing :: bool
  cn_cancelled :: bool
  cn_open :: bool
  cn_written :: "string list"
  cn_close :: "(int \<times> string) option"
  cn_acts :: "session_action list"

text \<open>The connection as the handler starts the pumps.\<close>

definition start_conn :: "hub_config \<Rightarrow> nat \<Rightarrow> conn" where
  "start_conn cfg c =
     (let (s, acts) = new_session c
      in \<lparr>cn_client = new_client (hc_outbound cfg), cn_session = s, cn_limit = read_limit cfg,
          cn_reading = True, cn_writing = True, cn_cancelled = False, cn_open = True,
          cn_written = [], cn_close = None, cn_acts = acts\<rparr>)"

text \<open>The deferred calls of the handler once \<open>readPump\<close> returns, in their order: the session closes,
  the context is cancelled, the socket is closed without a close frame.\<close>

definition end_handler :: "conn \<Rightarrow> conn" where
  "end_handler cn =
     (let (s, acts) = close_session (cn_session cn)
      in cn\<lparr>cn_session := s, cn_acts := cn_acts cn @ acts, cn_reading := False, cn_cancelled := True,
            cn_open := False\<rparr>)"

fun told :: "session_action list \<Rightarrow> string list" where
  "told [] = []"
| "told (Tell b # acts) = b # told acts"
| "told (a # acts) = told acts"

datatype read_event = ReadFailed | BinaryFrame | TextFrame string

text \<open>What the session answers goes to the client's own queue; \<open>pick\<close> is \<open>send\<close>'s choice.\<close>

definition read_turn :: "(join_error \<Rightarrow> string) \<Rightarrow> answers \<Rightarrow> listing \<Rightarrow> bool \<Rightarrow> read_event \<Rightarrow> conn \<Rightarrow> conn" where
  "read_turn text ans l pick ev cn =
     (case ev of
        ReadFailed \<Rightarrow>
          end_handler (cn\<lparr>cn_client := kill (cn_client cn) close_protocol_error ''connection closed''\<rparr>)
      | BinaryFrame \<Rightarrow>
          end_handler (cn\<lparr>cn_client := kill (cn_client cn) close_protocol_error
                            ''binary frames are not part of this protocol''\<rparr>)
      | TextFrame raw \<Rightarrow>
          let (s, acts) = session_handle text ans l (cn_session cn) raw
          in cn\<lparr>cn_session := s, cn_acts := cn_acts cn @ acts,
                cn_client := foldl (client_send pick) (cn_client cn) (told acts)\<rparr>)"

text \<open>One turn of the write pump: which case its \<open>select\<close> takes, with what the library and the
  authenticator answer. \<open>None\<close> when the case is not ready.\<close>

datatype write_event = CtxDone | ClientClosed | QueuedFrame bool | PingTick "auth_error option" bool

definition stop_writing :: "int \<Rightarrow> string \<Rightarrow> conn \<Rightarrow> conn" where
  "stop_writing code reason cn = cn\<lparr>cn_client := kill (cn_client cn) code reason, cn_writing := False\<rparr>"

definition write_turn :: "write_event \<Rightarrow> conn \<Rightarrow> conn option" where
  "write_turn ev cn =
     (case ev of
        CtxDone \<Rightarrow> if cn_cancelled cn then Some (cn\<lparr>cn_writing := False\<rparr>) else None
      | ClientClosed \<Rightarrow>
          if cl_closed (cn_client cn) then
            (let (code, reason) = close_info (cn_client cn)
             in Some (cn\<lparr>cn_close := (if cn_open cn then Some (code, truncate_reason reason) else cn_close cn),
                         cn_open := False, cn_writing := False\<rparr>))
          else None
      | QueuedFrame ok \<Rightarrow>
          (case client_recv (cn_client cn) of
             None \<Rightarrow> None
           | Some (b, c) \<Rightarrow>
               if ok \<and> cn_open cn then Some (cn\<lparr>cn_client := c, cn_written := cn_written cn @ [b]\<rparr>)
               else Some (stop_writing close_server_error ''write failed'' (cn\<lparr>cn_client := c\<rparr>)))
      | PingTick verdict ok \<Rightarrow>
          if verdict \<noteq> None then Some (stop_writing close_token_expired ''token no longer valid'' cn)
          else if \<not> (ok \<and> cn_open cn) then Some (stop_writing close_server_error ''ping failed'' cn)
          else Some cn)"

section \<open>A connection's runs\<close>

inductive conn_step :: "mac_lib \<Rightarrow> authenticator \<Rightarrow> string \<Rightarrow> conn \<Rightarrow> conn \<Rightarrow> bool"
  for ml a token where
  read_text: "cn_reading cn \<Longrightarrow> cn_open cn \<Longrightarrow> int (length raw) \<le> cn_limit cn \<Longrightarrow>
     conn_step ml a token cn (read_turn text ans l pick (TextFrame raw) cn)"
| read_other: "cn_reading cn \<Longrightarrow> ev = ReadFailed \<or> ev = BinaryFrame \<Longrightarrow>
     conn_step ml a token cn (read_turn text ans l pick ev cn)"
| write_pump: "cn_writing cn \<Longrightarrow> \<forall>verdict ok. ev = PingTick verdict ok \<longrightarrow> verdict = verify ml a now token \<Longrightarrow>
     write_turn ev cn = Some cn' \<Longrightarrow> conn_step ml a token cn cn'"
| hub_send: "conn_step ml a token cn (cn\<lparr>cn_client := client_send pick (cn_client cn) b\<rparr>)"
| hub_kill: "conn_step ml a token cn (cn\<lparr>cn_client := kill (cn_client cn) code reason\<rparr>)"
| dropped: "conn_step ml a token cn (cn\<lparr>cn_open := False\<rparr>)"

inductive_cases conn_stepE: "conn_step ml a token cn cn'"

definition conn_start :: "conn \<Rightarrow> bool" where
  "conn_start cn \<longleftrightarrow> (\<exists>cfg c. cn = start_conn cfg c)"

text \<open>A close frame carries what the client was killed with; the registry is told of the connection
  first, and of its end last and once the read pump has stopped.\<close>

definition bracketed :: "bool \<Rightarrow> session_action list \<Rightarrow> bool" where
  "bracketed live acts \<longleftrightarrow> (\<exists>mid. acts = AddToRegistry # mid @ (if live then [] else [RemoveFromRegistry]) \<and>
     AddToRegistry \<notin> set mid \<and> RemoveFromRegistry \<notin> set mid)"

definition conn_inv :: "conn \<Rightarrow> bool" where
  "conn_inv cn \<longleftrightarrow>
     (\<forall>code reason. cn_close cn = Some (code, reason) \<longrightarrow> cl_once (cn_client cn) \<and>
        code = cl_code (cn_client cn) \<and> reason = truncate_reason (cl_reason (cn_client cn))) \<and>
     (cl_closed (cn_client cn) \<longleftrightarrow> cl_once (cn_client cn)) \<and>
     (cn_close cn \<noteq> None \<longrightarrow> \<not> cn_open cn) \<and>
     bracketed (cn_reading cn) (cn_acts cn) \<and>
     (\<not> cn_reading cn \<longrightarrow> se_room (cn_session cn) = None \<and> \<not> cn_open cn)"

lemma bracketed_append:
  "bracketed True acts \<Longrightarrow> AddToRegistry \<notin> set acts' \<Longrightarrow> RemoveFromRegistry \<notin> set acts' \<Longrightarrow>
     bracketed True (acts @ acts')"
  unfolding bracketed_def by auto

lemma bracketed_close:
  "bracketed True acts \<Longrightarrow> bracketed False (acts @ snd (close_session s))"
  unfolding bracketed_def close_session_def by (auto split: option.splits)

lemma try_join_acts:
  "AddToRegistry \<notin> set (snd (try_join text ans f k s)) \<and> RemoveFromRegistry \<notin> set (snd (try_join text ans f k s))"
  by (induction k arbitrary: s)
    (auto simp: Let_def case_prod_beta split: sum.splits option.splits join_error.splits)

lemma session_handle_acts:
  "AddToRegistry \<notin> set (snd (session_handle text ans l s raw))"
  "RemoveFromRegistry \<notin> set (snd (session_handle text ans l s raw))"
  using try_join_acts
  by (auto simp: session_handle_def session_join_def list_rooms_def Let_def case_prod_beta
      split: option.splits sum.splits)

lemma client_send_kept:
  assumes "cl_closed c \<longleftrightarrow> cl_once c"
  shows "cl_closed (client_send pick c b) \<longleftrightarrow> cl_once (client_send pick c b)"
    "cl_once c \<Longrightarrow> cl_once (client_send pick c b) \<and> close_info (client_send pick c b) = close_info c"
  using assms by (auto simp: client_send_def kill_def close_info_def Let_def)

lemma client_sends_kept:
  "cl_closed c \<longleftrightarrow> cl_once c \<Longrightarrow>
   (cl_closed (foldl (client_send pick) c bs) \<longleftrightarrow> cl_once (foldl (client_send pick) c bs)) \<and>
   (cl_once c \<longrightarrow> cl_once (foldl (client_send pick) c bs) \<and>
      close_info (foldl (client_send pick) c bs) = close_info c)"
  by (induction bs arbitrary: c) (simp_all add: client_send_kept)

lemma conn_inv_kill [inv_intros]: "conn_inv cn \<Longrightarrow> conn_inv (cn\<lparr>cn_client := kill (cn_client cn) code reason\<rparr>)"
  by (auto simp: conn_inv_def kill_def)

lemma conn_inv_client:
  assumes "conn_inv cn" "cl_closed c \<longleftrightarrow> cl_once c"
    and "cl_once (cn_client cn) \<Longrightarrow> cl_once c \<and> close_info c = close_info (cn_client cn)"
  shows "conn_inv (cn\<lparr>cn_client := c\<rparr>)"
  using assms by (auto simp: conn_inv_def close_info_def)

lemma conn_inv_closed: "conn_inv cn \<Longrightarrow> cl_closed (cn_client cn) \<longleftrightarrow> cl_once (cn_client cn)"
  by (simp add: conn_inv_def)

lemma conn_inv_end: "conn_inv cn \<Longrightarrow> cn_reading cn \<Longrightarrow> conn_inv (end_handler cn)"
  using bracketed_close [of "cn_acts cn" "cn_session cn"]
  by (auto simp: conn_inv_def end_handler_def case_prod_beta) (auto simp: close_session_def split: option.splits)

lemma conn_inv_read [inv_intros]:
  assumes "conn_inv cn" "cn_reading cn"
  shows "conn_inv (read_turn text ans l pick ev cn)"
proof (cases ev)
  case ReadFailed
  with assms show ?thesis by (simp add: read_turn_def conn_inv_end conn_inv_kill)
next
  case BinaryFrame
  with assms show ?thesis by (simp add: read_turn_def conn_inv_end conn_inv_kill)
next
  case (TextFrame raw)
  let ?h = "session_handle text ans l (cn_session cn) raw"
  have "conn_inv (cn\<lparr>cn_client := foldl (client_send pick) (cn_client cn) (told (snd ?h))\<rparr>)"
    using client_sends_kept [OF conn_inv_closed [OF assms(1)]] by (intro conn_inv_client assms(1)) blast+
  moreover have "bracketed True (cn_acts cn @ snd ?h)"
    using assms by (intro bracketed_append session_handle_acts) (simp add: conn_inv_def)
  ultimately show ?thesis
    using assms(2) TextFrame by (auto simp: conn_inv_def read_turn_def case_prod_beta)
qed

lemma conn_inv_write [inv_intros]:
  assumes "conn_inv cn" "write_turn ev cn = Some cn'"
  shows "conn_inv cn'"
  using assms
  by (auto simp: conn_inv_def write_turn_def stop_writing_def kill_def close_info_def client_recv_def
      split: write_event.splits option.splits if_splits list.splits)

interpretation conn_machine: invariant_machine conn_start "conn_step ml a token" conn_inv
  for ml a token
proof unfold_locales
  fix cn assume "conn_start cn"
  then show "conn_inv cn"
    by (auto simp: conn_start_def start_conn_def new_session_def conn_inv_def bracketed_def new_client_def)
next
  fix cn cn' assume "conn_inv cn" "conn_step ml a token cn cn'"
  from this(2,1) show "conn_inv cn'"
  proof cases
    case (dropped)
    with \<open>conn_inv cn\<close> show ?thesis by (auto simp: conn_inv_def)
  next
    case (hub_send pick b)
    with \<open>conn_inv cn\<close> show ?thesis
      using client_send_kept [OF conn_inv_closed [OF \<open>conn_inv cn\<close>]] by (simp add: conn_inv_client)
  qed (auto intro: inv_intros)
qed

section \<open>Properties\<close>

text \<open>C30: how a connection ends. In every run of a connection, a close frame carries the code of the
  first kill and its reason cut to 123 bytes; the registry hears of the connection exactly once, before
  anything else, and of its end exactly once, as the last thing, when the read pump has stopped; and
  then the session is in no room and the socket is closed.\<close>

theorem connection_lifecycle:
  assumes "(conn_step ml a token)\<^sup>*\<^sup>* (start_conn cfg c) cn"
  shows "(\<forall>code reason. cn_close cn = Some (code, reason) \<longrightarrow> cl_once (cn_client cn) \<and>
      code = cl_code (cn_client cn) \<and> reason = take 123 (cl_reason (cn_client cn))) \<and>
    (\<exists>mid. cn_acts cn = AddToRegistry # mid @ (if cn_reading cn then [] else [RemoveFromRegistry]) \<and>
       AddToRegistry \<notin> set mid \<and> RemoveFromRegistry \<notin> set mid) \<and>
    (cn_reading cn \<or> (se_room (cn_session cn) = None \<and> \<not> cn_open cn))"
proof -
  have "conn_start (start_conn cfg c)" by (auto simp: conn_start_def)
  then have "conn_inv cn" using assms by (rule conn_machine.reach_inv)
  then show ?thesis by (auto simp: conn_inv_def bracketed_def truncate_reason_def)
qed
text \<open>A registry that is down, for the witnesses.\<close>

definition no_answers :: answers where
  "no_answers k = (Inl RoomClosed, None)"

theorem connection_lifecycle_witness:
  "let start = start_conn (sv_cfg sample_server) 7;
       cn = read_turn (\<lambda>e. ''closed'') no_answers DirMissing True BinaryFrame start
   in (conn_step sample_macs (sample_auth 1) ''t'')\<^sup>*\<^sup>* start cn \<and>
      cn_acts cn = [AddToRegistry, RemoveFromRegistry] \<and> se_room (cn_session cn) = None"
proof -
  let ?start = "start_conn (sv_cfg sample_server) 7"
  let ?cn = "read_turn (\<lambda>e. ''closed'') no_answers DirMissing True BinaryFrame ?start"
  have "cn_reading ?start" by (simp add: start_conn_def new_session_def)
  then have run: "(conn_step sample_macs (sample_auth 1) ''t'')\<^sup>*\<^sup>* ?start ?cn"
    by (intro r_into_rtranclp conn_step.read_other) auto
  moreover have "\<not> cn_reading ?cn" "cn_acts ?cn = [AddToRegistry, RemoveFromRegistry]"
    by (simp_all add: read_turn_def end_handler_def start_conn_def new_session_def close_session_def)
  ultimately show ?thesis unfolding Let_def using connection_lifecycle [OF run] by blast
qed

text \<open>The frames a session has handled one after the other.\<close>

fun handle_all :: "(join_error \<Rightarrow> string) \<Rightarrow> answers \<Rightarrow> listing \<Rightarrow> session \<Rightarrow> string list \<Rightarrow> session_action list" where
  "handle_all text ans l s [] = []"
| "handle_all text ans l s (raw # raws) =
     (let (s', acts) = session_handle text ans l s raw in acts @ handle_all text ans l s' raws)"

lemma read_all:
  assumes "cn_reading cn" "cn_open cn" "\<forall>raw\<in>set raws. int (length raw) \<le> cn_limit cn"
  shows "\<exists>cn'. (conn_step ml a token)\<^sup>*\<^sup>* cn cn' \<and> cn_reading cn' \<and> cn_open cn' \<and>
    cn_acts cn' = cn_acts cn @ handle_all text ans l (cn_session cn) raws"
  using assms
proof (induction raws arbitrary: cn)
  case (Cons raw raws)
  let ?cn1 = "read_turn text ans l False (TextFrame raw) cn"
  let ?h = "session_handle text ans l (cn_session cn) raw"
  have cn1: "cn_reading ?cn1" "cn_open ?cn1" "cn_limit ?cn1 = cn_limit cn"
    "cn_session ?cn1 = fst ?h" "cn_acts ?cn1 = cn_acts cn @ snd ?h"
    using Cons.prems by (simp_all add: read_turn_def case_prod_beta)
  moreover have "\<forall>raw\<in>set raws. int (length raw) \<le> cn_limit ?cn1" using Cons.prems cn1(3) by simp
  ultimately obtain cn' where cn': "(conn_step ml a token)\<^sup>*\<^sup>* ?cn1 cn'" "cn_reading cn'" "cn_open cn'"
    "cn_acts cn' = cn_acts ?cn1 @ handle_all text ans l (cn_session ?cn1) raws"
    using Cons.IH [of ?cn1] by blast
  have "conn_step ml a token cn ?cn1" using Cons.prems by (intro conn_step.read_text) auto
  then have "(conn_step ml a token)\<^sup>*\<^sup>* cn cn'" using cn'(1) by (rule converse_rtranclp_into_rtranclp)
  with cn' cn1(4,5) show ?case by (auto simp: case_prod_beta)
qed auto

text \<open>Without a write pump nothing is written and no close frame goes out.\<close>

lemma no_pump_step:
  assumes "conn_step ml a token cn cn'" "\<not> cn_writing cn"
  shows "\<not> cn_writing cn' \<and> cn_written cn' = cn_written cn \<and> cn_close cn' = cn_close cn"
  using assms
  by cases (auto simp: read_turn_def end_handler_def case_prod_beta split: read_event.splits)

lemma no_pump_run:
  assumes "(conn_step ml a token)\<^sup>*\<^sup>* cn cn'" "\<not> cn_writing cn"
  shows "\<not> cn_writing cn' \<and> cn_written cn' = cn_written cn \<and> cn_close cn' = cn_close cn"
  using assms by (induction rule: rtranclp_induct) (auto dest: no_pump_step)

text \<open>C13: a token that dies does not end its connection. When the write pump's recheck finds the token
  no longer valid, the pump is gone: whatever happens afterwards, no further frame and no close frame
  (such as 4004) is written. But the socket stays open, and whatever frames the client goes on sending,
  there is a run in which the session handles them all and the socket is open still.\<close>

theorem dead_token_keeps_connection:
  assumes "cn_reading cn" "cn_writing cn" "cn_open cn" "verify ml a now token = Some e"
    and "\<forall>raw\<in>set raws. int (length raw) \<le> cn_limit cn"
  shows "\<exists>cn1. write_turn (PingTick (verify ml a now token) ok) cn = Some cn1 \<and>
    conn_step ml a token cn cn1 \<and>
    (\<forall>cn2. (conn_step ml a token)\<^sup>*\<^sup>* cn1 cn2 \<longrightarrow>
       cn_written cn2 = cn_written cn \<and> cn_close cn2 = cn_close cn) \<and>
    (\<exists>cn2. (conn_step ml a token)\<^sup>*\<^sup>* cn1 cn2 \<and> cn_reading cn2 \<and> cn_open cn2 \<and>
       cn_acts cn2 = cn_acts cn @ handle_all text ans l (cn_session cn) raws)"
proof -
  let ?cn1 = "stop_writing close_token_expired ''token no longer valid'' cn"
  have w: "write_turn (PingTick (verify ml a now token) ok) cn = Some ?cn1"
    using assms(4) by (simp add: write_turn_def)
  have st: "conn_step ml a token cn ?cn1"
    using assms(2) w by (intro conn_step.write_pump [where now = now]) auto
  have cn1: "\<not> cn_writing ?cn1" "cn_reading ?cn1" "cn_open ?cn1" "cn_limit ?cn1 = cn_limit cn"
    "cn_written ?cn1 = cn_written cn" "cn_close ?cn1 = cn_close cn" "cn_acts ?cn1 = cn_acts cn"
    "cn_session ?cn1 = cn_session cn"
    using assms(1,3) by (simp_all add: stop_writing_def)
  have "\<forall>cn2. (conn_step ml a token)\<^sup>*\<^sup>* ?cn1 cn2 \<longrightarrow> cn_written cn2 = cn_written cn \<and> cn_close cn2 = cn_close cn"
    using no_pump_run [of ml a token ?cn1] cn1(1,5,6) by simp
  moreover have "\<exists>cn2. (conn_step ml a token)\<^sup>*\<^sup>* ?cn1 cn2 \<and> cn_reading cn2 \<and> cn_open cn2 \<and>
       cn_acts cn2 = cn_acts cn @ handle_all text ans l (cn_session cn) raws"
    using read_all [OF cn1(2,3), of raws] assms(5) cn1(4,7,8) by metis
  ultimately show ?thesis using w st by blast
qed

theorem dead_token_keeps_connection_witness:
  "\<exists>cn1 cn2. write_turn (PingTick (Some BadToken) True) (start_conn (sv_cfg sample_server) 7) = Some cn1 \<and>
    (conn_step sample_macs (sample_auth 1) ''t'')\<^sup>*\<^sup>* cn1 cn2 \<and> cn_reading cn2 \<and> cn_open cn2 \<and>
    cn_acts cn2 = AddToRegistry # handle_all (\<lambda>e. ''closed'') no_answers DirMissing \<lparr>se_client = 7, se_room = None\<rparr> [''x'', ''y'']"
proof -
  have v: "verify sample_macs (sample_auth 1) 0 ''t'' = Some BadToken"
    by (simp add: verify_def b64_decode_def)
  have "cn_reading (start_conn (sv_cfg sample_server) 7)" "cn_writing (start_conn (sv_cfg sample_server) 7)" "cn_open (start_conn (sv_cfg sample_server) 7)"
    "cn_acts (start_conn (sv_cfg sample_server) 7) = [AddToRegistry]"
    "cn_session (start_conn (sv_cfg sample_server) 7) = \<lparr>se_client = 7, se_room = None\<rparr>"
    "\<forall>raw\<in>set [''x'', ''y'']. int (length raw) \<le> cn_limit (start_conn (sv_cfg sample_server) 7)"
    by (simp_all add: start_conn_def new_session_def read_limit_def frame_overhead_def sample_server_def int64_range_def)
  with dead_token_keeps_connection [OF _ _ _ v, of "start_conn (sv_cfg sample_server) 7" "[''x'', ''y'']"  True "\<lambda>e. ''closed''" no_answers DirMissing] v
  show ?thesis by auto
qed

end
