(* ===== verification/RateLimit.thy ===== *)
theory RateLimit
  imports Complex_Main GoText
begin

text \<open>
  \<^verbatim>\<open>internal/auth/ratelimit.go\<close>: a token bucket per key. Times and durations are \<open>int\<close> nanoseconds;
  the product that gives the idle time wraps around as an \<open>int64\<close> does, and the differences of clock
  readings are those of a clock that runs for less than the 292 years of a duration. The \<open>float64\<close> token
  counts are idealised as rationals: the model does not round. The mutex makes each call atomic, so a
  run is the sequence of its calls.

  The reference limiter keeps every bucket for ever; the properties show that the real one, which
  drops idle buckets, decides the same, and that both bound what a key is allowed; but where the idle
  time wraps to one that is not positive, no bucket is kept and nothing is limited.
\<close>

record bucket =
  b_tokens :: rat
  b_seen :: int

record limiter =
  rl_buckets :: "string \<rightharpoonup> bucket"
  rl_burst :: rat
  rl_refill :: rat
  rl_idle :: int
  rl_last_sweep :: int

definition seconds :: "int \<Rightarrow> rat" where
  "seconds d = of_int d / 1000000000"

definition new_limiter :: "int \<Rightarrow> int \<Rightarrow> int \<Rightarrow> limiter" where
  "new_limiter burst window now =
     (let burst = (if burst < 1 then 1 else burst);
          window = (if window \<le> 0 then 60 * 1000000000 else window)
      in \<lparr>rl_buckets = Map.empty, rl_burst = of_int burst, rl_refill = of_int burst / seconds window,
          rl_idle = wrap64 (window * 4), rl_last_sweep = now\<rparr>)"

definition sweep_buckets :: "int \<Rightarrow> limiter \<Rightarrow> limiter" where
  "sweep_buckets now l =
     (if now - rl_last_sweep l < rl_idle l then l
      else l\<lparr>rl_last_sweep := now,
             rl_buckets := (\<lambda>k. case rl_buckets l k of
               None \<Rightarrow> None | Some b \<Rightarrow> if now - b_seen b \<ge> rl_idle l then None else Some b)\<rparr>)"

text \<open>The bucket of a key as the call finds or makes it, its tokens refilled up to \<open>now\<close>.\<close>

definition refilled :: "int \<Rightarrow> string \<Rightarrow> limiter \<Rightarrow> bucket" where
  "refilled now key l =
     (case rl_buckets l key of
        None \<Rightarrow> \<lparr>b_tokens = rl_burst l, b_seen = now\<rparr>
      | Some b \<Rightarrow> \<lparr>b_tokens = min (rl_burst l) (b_tokens b + seconds (now - b_seen b) * rl_refill l),
                   b_seen = now\<rparr>)"

definition take_token :: "int \<Rightarrow> string \<Rightarrow> limiter \<Rightarrow> bool \<times> limiter" where
  "take_token now key l =
     (let b = refilled now key l
      in if b_tokens b < 1 then (False, l\<lparr>rl_buckets := (rl_buckets l)(key \<mapsto> b)\<rparr>)
         else (True, l\<lparr>rl_buckets := (rl_buckets l)(key \<mapsto> b\<lparr>b_tokens := b_tokens b - 1\<rparr>)\<rparr>))"

definition allow :: "int \<Rightarrow> string \<Rightarrow> limiter \<Rightarrow> bool \<times> limiter" where
  "allow now key l = take_token now key (sweep_buckets now l)"

section \<open>Runs\<close>

fun run_allow :: "(int \<Rightarrow> string \<Rightarrow> limiter \<Rightarrow> bool \<times> limiter) \<Rightarrow> (int \<times> string) list \<Rightarrow> limiter \<Rightarrow> bool list" where
  "run_allow f [] l = []"
| "run_allow f ((now, key) # cs) l = (let (ok, l') = f now key l in ok # run_allow f cs l')"

text \<open>The clock does not go back.\<close>

fun clock_from :: "int \<Rightarrow> (int \<times> string) list \<Rightarrow> bool" where
  "clock_from t [] = True"
| "clock_from t ((now, key) # cs) \<longleftrightarrow> t \<le> now \<and> clock_from now cs"

text \<open>A limiter at time \<open>t\<close>: refilling over the idle time fills a bucket, and no bucket is from
  the future or in debt.\<close>

definition limiter_ok :: "int \<Rightarrow> limiter \<Rightarrow> bool" where
  "limiter_ok t l \<longleftrightarrow> 1 \<le> rl_burst l \<and> 0 \<le> rl_refill l \<and> rl_burst l \<le> seconds (rl_idle l) * rl_refill l \<and>
     (\<forall>k b. rl_buckets l k = Some b \<longrightarrow> 0 \<le> b_tokens b \<and> b_seen b \<le> t)"

definition same_params :: "limiter \<Rightarrow> limiter \<Rightarrow> bool" where
  "same_params l r \<longleftrightarrow> rl_burst l = rl_burst r \<and> rl_refill l = rl_refill r \<and> rl_idle l = rl_idle r"

text \<open>The real limiter has the reference's bucket, or has dropped one that is full again.\<close>

definition follows :: "int \<Rightarrow> limiter \<Rightarrow> limiter \<Rightarrow> bool" where
  "follows t l r \<longleftrightarrow> same_params l r \<and> limiter_ok t l \<and> limiter_ok t r \<and>
     (\<forall>k. rl_buckets l k = rl_buckets r k \<or>
        (rl_buckets l k = None \<and> (\<exists>b. rl_buckets r k = Some b \<and> rl_idle r \<le> t - b_seen b)))"

lemma seconds_mono: "d \<le> e \<Longrightarrow> seconds d \<le> seconds e"
  by (simp add: seconds_def divide_right_mono)

lemma seconds_add: "seconds d + seconds e = seconds (d + e)"
  by (simp add: seconds_def add_divide_distrib)

lemma seconds_nonneg: "0 \<le> d \<Longrightarrow> 0 \<le> seconds d"
  by (simp add: seconds_def)

text \<open>The idle time of a window whose fourfold is a duration.\<close>

lemma new_limiter_idle:
  assumes "window * 4 < 2 ^ 63"
  shows "rl_idle (new_limiter burst window now) = (if window \<le> 0 then 60 * 1000000000 else window) * 4"
  using assms by (auto simp: new_limiter_def Let_def int64_range_def)

lemma new_limiter_ok:
  assumes "window * 4 < 2 ^ 63"
  shows "limiter_ok t (new_limiter burst window now)"
proof -
  let ?b = "if burst < 1 then 1 else burst" and ?w = "if window \<le> 0 then 60 * 1000000000 else window"
  have "seconds (?w * 4) * (of_int ?b / seconds ?w) = 4 * of_int ?b"
    by (auto simp: seconds_def)
  moreover have "(1 :: rat) \<le> of_int ?b" by simp
  moreover have "(0 :: rat) \<le> of_int ?b / seconds ?w" by (simp add: seconds_def)
  ultimately show ?thesis
    unfolding limiter_ok_def new_limiter_idle [OF assms]
    by (simp add: new_limiter_def Let_def del: of_int_le_iff of_int_mult)
qed

lemma idle_full:
  assumes "limiter_ok t l" "rl_buckets l k = Some b" "rl_idle l \<le> now - b_seen b"
  shows "refilled now k l = \<lparr>b_tokens = rl_burst l, b_seen = now\<rparr>"
proof -
  have "rl_burst l \<le> seconds (rl_idle l) * rl_refill l" "0 \<le> rl_refill l" "0 \<le> b_tokens b"
    using assms(1,2) by (auto simp: limiter_ok_def)
  moreover have "seconds (rl_idle l) * rl_refill l \<le> seconds (now - b_seen b) * rl_refill l"
    using calculation(2) seconds_mono [OF assms(3)] by (rule_tac mult_right_mono)
  ultimately show ?thesis using assms(2) by (simp add: refilled_def min_def)
qed

lemma limiter_ok_later: "limiter_ok t l \<Longrightarrow> t \<le> now \<Longrightarrow> limiter_ok now l"
  by (auto simp: limiter_ok_def) (meson order_trans)

lemma sweep_ok: "limiter_ok t l \<Longrightarrow> limiter_ok t (sweep_buckets now l)"
  by (auto simp: sweep_buckets_def limiter_ok_def split: option.splits if_splits)

lemma sweep_follows:
  assumes "follows t l r" "t \<le> now"
  shows "follows now (sweep_buckets now l) r"
proof -
  have f: "same_params l r" "limiter_ok t l" "limiter_ok t r"
    "rl_buckets l k = rl_buckets r k \<or>
      (rl_buckets l k = None \<and> (\<exists>b. rl_buckets r k = Some b \<and> rl_idle r \<le> t - b_seen b))" for k
    using assms(1) by (simp_all add: follows_def)
  have "same_params (sweep_buckets now l) r" using f(1) by (simp add: same_params_def sweep_buckets_def)
  moreover have "limiter_ok now (sweep_buckets now l)" "limiter_ok now r"
    using f(2,3) assms(2) by (auto intro: sweep_ok limiter_ok_later)
  moreover have "rl_buckets (sweep_buckets now l) k = rl_buckets r k \<or>
    (rl_buckets (sweep_buckets now l) k = None \<and> (\<exists>b. rl_buckets r k = Some b \<and> rl_idle r \<le> now - b_seen b))" for k
    using f(4) [of k] f(1) assms(2) by (auto simp: sweep_buckets_def same_params_def split: option.splits)
  ultimately show ?thesis by (simp add: follows_def)
qed

lemma refilled_nonneg: "limiter_ok now l \<Longrightarrow> 0 \<le> b_tokens (refilled now k l)"
proof (cases "rl_buckets l k")
  case (Some b)
  assume "limiter_ok now l"
  then have "0 \<le> b_tokens b" "b_seen b \<le> now" "0 \<le> rl_refill l" "1 \<le> rl_burst l"
    using Some by (auto simp: limiter_ok_def)
  moreover have "0 \<le> seconds (now - b_seen b) * rl_refill l"
    using calculation by (intro mult_nonneg_nonneg seconds_nonneg) auto
  ultimately show ?thesis using Some by (simp add: refilled_def)
qed (auto simp: refilled_def limiter_ok_def)

lemma refilled_seen [simp]: "b_seen (refilled now k l) = now"
  by (simp add: refilled_def split: option.splits)

lemma take_token_ok: "limiter_ok now l \<Longrightarrow> limiter_ok now (snd (take_token now key l))"
  using refilled_nonneg [of now l key] by (auto simp: take_token_def limiter_ok_def Let_def not_less)

lemma take_token_follows:
  assumes "follows now l r"
  shows "fst (take_token now key l) = fst (take_token now key r) \<and>
    follows now (snd (take_token now key l)) (snd (take_token now key r))"
proof -
  have pl: "same_params l r" "limiter_ok now l" "limiter_ok now r" using assms by (simp_all add: follows_def)
  have same: "refilled now key l = refilled now key r"
  proof (cases "rl_buckets l key = rl_buckets r key")
    case True
    with pl(1) show ?thesis by (cases "rl_buckets r key") (auto simp: refilled_def same_params_def)
  next
    case False
    then obtain b where b: "rl_buckets l key = None" "rl_buckets r key = Some b" "rl_idle r \<le> now - b_seen b"
      using assms by (auto simp: follows_def)
    then show ?thesis
      using idle_full [OF pl(3) b(2,3)] pl(1) by (simp add: refilled_def same_params_def)
  qed
  have "same_params (snd (take_token now key l)) (snd (take_token now key r))"
    using pl(1) by (auto simp: take_token_def same_params_def Let_def)
  then show ?thesis
    using same assms take_token_ok [OF pl(2), of key] take_token_ok [OF pl(3), of key]
    by (auto simp: follows_def take_token_def Let_def)
qed

lemma run_follows:
  "follows t l r \<Longrightarrow> clock_from t cs \<Longrightarrow> run_allow allow cs l = run_allow take_token cs r"
proof (induction cs arbitrary: t l r)
  case (Cons c cs)
  obtain now key where c: "c = (now, key)" by (cases c)
  have "follows now (sweep_buckets now l) r" using Cons.prems c by (intro sweep_follows) auto
  from take_token_follows [OF this, of key] Cons.IH Cons.prems(2) c show ?case
    by (auto simp: allow_def split_beta Let_def)
qed simp

section \<open>How much a key is allowed\<close>

text \<open>The tokens a key can still use at \<open>t\<close>.\<close>

definition credit :: "int \<Rightarrow> string \<Rightarrow> limiter \<Rightarrow> rat" where
  "credit t key l = b_tokens (refilled t key l)"

fun allowed_for :: "string \<Rightarrow> (int \<times> string) list \<Rightarrow> bool list \<Rightarrow> nat" where
  "allowed_for key ((now, k) # cs) (ok # oks) =
     (if k = key \<and> ok then 1 else 0) + allowed_for key cs oks"
| "allowed_for key _ _ = 0"

fun last_time :: "int \<Rightarrow> (int \<times> string) list \<Rightarrow> int" where
  "last_time t [] = t"
| "last_time t ((now, key) # cs) = last_time now cs"

lemma credit_later:
  assumes "limiter_ok t l" "t \<le> now"
  shows "credit now key l \<le> credit t key l + seconds (now - t) * rl_refill l"
proof -
  have p: "0 \<le> rl_refill l" "0 \<le> seconds (now - t) * rl_refill l"
    using assms by (auto simp: limiter_ok_def intro!: mult_nonneg_nonneg seconds_nonneg)
  show ?thesis
  proof (cases "rl_buckets l key")
    case None
    with p show ?thesis by (simp add: credit_def refilled_def)
  next
    case (Some b)
    have "seconds (now - b_seen b) = seconds (t - b_seen b) + seconds (now - t)"
      by (simp add: seconds_add)
    then have "seconds (now - b_seen b) * rl_refill l =
        seconds (t - b_seen b) * rl_refill l + seconds (now - t) * rl_refill l"
      by (simp add: distrib_right)
    with p Some show ?thesis by (simp add: credit_def refilled_def min_def)
  qed
qed

lemma credit_le_burst: "limiter_ok t l \<Longrightarrow> credit t key l \<le> rl_burst l"
  by (auto simp: credit_def refilled_def limiter_ok_def split: option.splits)

lemma credit_take:
  assumes "limiter_ok now l"
  shows "credit now key (snd (take_token now k l)) + (if k = key \<and> fst (take_token now k l) then 1 else 0)
    \<le> credit now key l"
  using assms by (auto simp: credit_def take_token_def refilled_def Let_def seconds_def split: option.splits)

lemma last_time_le: "clock_from t cs \<Longrightarrow> t \<le> last_time t cs"
  by (induction cs arbitrary: t) (auto intro: order_trans)

lemma take_token_refill [simp]: "rl_refill (snd (take_token now k l)) = rl_refill l"
  by (simp add: take_token_def Let_def)

lemma run_bound:
  "limiter_ok t l \<Longrightarrow> clock_from t cs \<Longrightarrow>
    of_nat (allowed_for key cs (run_allow take_token cs l)) \<le>
      credit t key l + seconds (last_time t cs - t) * rl_refill l"
proof (induction cs arbitrary: t l)
  case (Cons c cs)
  obtain now k where c: "c = (now, k)" by (cases c)
  let ?l = "snd (take_token now k l)" and ?ok = "fst (take_token now k l)"
  define e :: nat where "e = (if k = key \<and> ?ok then 1 else 0)"
  have t: "t \<le> now" "clock_from now cs" using Cons.prems c by auto
  have ok: "limiter_ok now l" using Cons.prems(1) t(1) by (rule limiter_ok_later)
  have "of_nat (allowed_for key cs (run_allow take_token cs ?l)) \<le>
      credit now key ?l + seconds (last_time now cs - now) * rl_refill l"
    using Cons.IH [OF take_token_ok [OF ok] t(2)] by simp
  moreover have "credit now key ?l + of_nat e \<le> credit now key l"
  proof -
    have "(of_nat e :: rat) = (if k = key \<and> ?ok then 1 else 0)" by (auto simp: e_def)
    with credit_take [OF ok, of key k] show ?thesis by (simp only:)
  qed
  moreover have "credit now key l \<le> credit t key l + seconds (now - t) * rl_refill l"
    by (rule credit_later [OF Cons.prems(1) t(1)])
  moreover have "seconds (now - t) * rl_refill l + seconds (last_time now cs - now) * rl_refill l =
      seconds (last_time now cs - t) * rl_refill l"
    by (simp add: seconds_add flip: distrib_right)
  moreover have "allowed_for key (c # cs) (run_allow take_token (c # cs) l) =
      e + allowed_for key cs (run_allow take_token cs ?l)"
    by (simp add: c split_beta Let_def e_def)
  moreover have "last_time t (c # cs) = last_time now cs" by (simp add: c)
  ultimately show ?case by (simp only: of_nat_add)
qed (auto simp: seconds_def credit_def refilled_nonneg)

section \<open>A window that wraps\<close>

text \<open>Between a quarter and a half of the longest duration four windows wrap to a time that is not
  positive. Then every call drops every bucket and finds a full one.\<close>

lemma wrapped_idle:
  assumes "2 ^ 63 \<le> window * 4" "window * 4 \<le> 2 ^ 64"
  shows "rl_idle (new_limiter burst window now) \<le> 0"
proof -
  have "word_of_int (window * 4) = (word_of_int (window * 4 - 2 ^ 64) :: 64 word)"
    by (rule word_of_int_eq_iff [THEN iffD2]) (simp add: take_bit_eq_mod)
  then have "wrap64 (window * 4) = wrap64 (window * 4 - 2 ^ 64)" unfolding wrap64_def by (rule arg_cong)
  also have "\<dots> = window * 4 - 2 ^ 64" using assms by (intro wrap64_id) (simp add: int64_range_def)
  finally show ?thesis using assms by (auto simp: new_limiter_def Let_def)
qed

definition forgetful :: "int \<Rightarrow> limiter \<Rightarrow> bool" where
  "forgetful t l \<longleftrightarrow> rl_idle l \<le> 0 \<and> 1 \<le> rl_burst l \<and> rl_last_sweep l \<le> t \<and>
     (\<forall>k b. rl_buckets l k = Some b \<longrightarrow> b_seen b \<le> t)"

lemma forgetful_allow:
  assumes "forgetful t l" "t \<le> now"
  shows "fst (allow now key l) \<and> forgetful now (snd (allow now key l))"
proof -
  have f: "rl_idle l \<le> 0" "rl_last_sweep l \<le> t" "\<And>k b. rl_buckets l k = Some b \<Longrightarrow> b_seen b \<le> t"
    using assms(1) by (auto simp: forgetful_def)
  have "(case rl_buckets l k of None \<Rightarrow> None | Some b \<Rightarrow> if now - b_seen b \<ge> rl_idle l then None else Some b) = None" for k
    using f(1) f(3) [of k] assms(2) by (fastforce split: option.split)
  then have "sweep_buckets now l = l\<lparr>rl_last_sweep := now, rl_buckets := Map.empty\<rparr>"
    using f(1,2) assms(2) by (simp add: sweep_buckets_def)
  then show ?thesis using assms(1) by (auto simp: allow_def take_token_def refilled_def forgetful_def)
qed

lemma forgetful_run: "forgetful t l \<Longrightarrow> clock_from t cs \<Longrightarrow> run_allow allow cs l = replicate (length cs) True"
proof (induction cs arbitrary: t l)
  case (Cons c cs)
  obtain now key where c: "c = (now, key)" by (cases c)
  with Cons.prems have f: "forgetful t l" "t \<le> now" "clock_from now cs" by simp_all
  from Cons.IH [OF _ f(3)] forgetful_allow [OF f(1,2)] c show ?case by (simp add: split_beta Let_def)
qed simp

section \<open>Properties\<close>

text \<open>C36: when dropping idle buckets is not observable. On a clock that does not go back, and for a
  window whose fourfold is below \<open>2 ^ 63\<close> nanoseconds (73 years), the limiter that sweeps decides every
  call of every run exactly as the one that keeps all buckets for ever. From there to twice that window
  the idle time has wrapped around: the sweep drops every bucket at every call, and every attempt of
  every run is granted.\<close>

theorem sweep_unobservable:
  assumes "clock_from now cs"
  shows "(window * 4 < 2 ^ 63 \<longrightarrow>
      run_allow allow cs (new_limiter burst window now) = run_allow take_token cs (new_limiter burst window now)) \<and>
    (2 ^ 63 \<le> window * 4 \<and> window * 4 \<le> 2 ^ 64 \<longrightarrow>
      run_allow allow cs (new_limiter burst window now) = replicate (length cs) True)"
proof (intro conjI impI)
  assume w: "window * 4 < 2 ^ 63"
  show "run_allow allow cs (new_limiter burst window now) = run_allow take_token cs (new_limiter burst window now)"
    using assms by (intro run_follows [where t = now]) (simp_all add: follows_def same_params_def new_limiter_ok [OF w])
next
  assume "2 ^ 63 \<le> window * 4 \<and> window * 4 \<le> 2 ^ 64"
  then have "forgetful now (new_limiter burst window now)"
    using wrapped_idle [of window burst now] by (simp add: forgetful_def) (simp add: new_limiter_def Let_def)
  then show "run_allow allow cs (new_limiter burst window now) = replicate (length cs) True"
    using assms by (rule forgetful_run)
qed

theorem sweep_unobservable_witness:
  "run_allow allow [(0, ''a''), (1, ''a'')] (new_limiter 1 0 0) = [True, False] \<and>
   run_allow allow [(0, ''a''), (1, ''a'')] (new_limiter 1 (700000 * 3600 * 1000000000) 0) = [True, True]"
proof -
  have "run_allow take_token [(0, ''a''), (1, ''a'')] (new_limiter 1 0 0) = [True, False]"
    by (simp add: take_token_def refilled_def new_limiter_def seconds_def Let_def)
  then show ?thesis
    using sweep_unobservable [of 0 "[(0, ''a''), (1, ''a'')]" 0 1]
      sweep_unobservable [of 0 "[(0, ''a''), (1, ''a'')]" "700000 * 3600 * 1000000000" 1] by simp
qed

text \<open>C37: what guessing costs. For a window whose fourfold is below \<open>2 ^ 63\<close> nanoseconds, in any run of the
  limiter, however the keys interleave, the attempts allowed to one key are at most the burst plus the
  refill over the time the run takes.\<close>

theorem attempts_bounded:
  assumes "clock_from now cs" "window * 4 < 2 ^ 63"
  shows "of_nat (allowed_for key cs (run_allow allow cs (new_limiter burst window now))) \<le>
    rl_burst (new_limiter burst window now) +
    seconds (last_time now cs - now) * rl_refill (new_limiter burst window now)"
proof -
  let ?l = "new_limiter burst window now"
  note ok = new_limiter_ok [OF assms(2)]
  have "run_allow allow cs ?l = run_allow take_token cs ?l"
    using assms(1) by (intro run_follows [where t = now]) (simp_all add: follows_def same_params_def ok)
  moreover have "credit now key ?l \<le> rl_burst ?l" by (rule credit_le_burst [OF ok])
  ultimately show ?thesis using run_bound [OF ok assms(1), of key burst now] by simp
qed

theorem attempts_bounded_witness:
  "of_nat (allowed_for ''a'' [(0, ''a''), (6000000000, ''a'')]
     (run_allow allow [(0, ''a''), (6000000000, ''a'')] (new_limiter 10 60000000000 0))) \<le> (11 :: rat)"
  using attempts_bounded [of 0 "[(0, ''a''), (6000000000, ''a'')]" 60000000000 "''a''" 10]
  by (simp add: new_limiter_def seconds_def)

end
