(* ===== verification/HttpApi.thy ===== *)
theory HttpApi
  imports Ws RateLimit
begin

text \<open>
  \<^verbatim>\<open>internal/httpapi/server.go\<close>: the routes, the login endpoint, the headers of the static assets and
  the address the login limiter counts by. \<^verbatim>\<open>net/http\<close>'s part of a request (the method, the cleaned
  path, a header's first value, the remote address, the body) is an argument; what is answered is a
  status, headers and a body. The files the assets are served from are not modelled.
\<close>

section \<open>Configuration\<close>

record http_config =
  ht_origins :: "string list"
  ht_trust_proxy :: bool
  ht_ping :: int
  ht_write_timeout :: int
  ht_burst :: int
  ht_window :: int

record http_server =
  hs_cfg :: http_config
  hs_auth :: authenticator
  hs_limiter :: limiter
  hs_hub :: hub_config
  hs_signer :: signer

definition new_server :: "http_config \<Rightarrow> authenticator \<Rightarrow> hub_config \<Rightarrow> signer \<Rightarrow> int \<Rightarrow> http_server" where
  "new_server cfg a hub sg now =
     (let ping = (if ht_ping cfg \<le> 0 then 30 * 1000000000 else ht_ping cfg);
          wt = (if ht_write_timeout cfg \<le> 0 then 10 * 1000000000 else ht_write_timeout cfg);
          burst = (if ht_burst cfg \<le> 0 then 10 else ht_burst cfg);
          window = (if ht_window cfg \<le> 0 then 60 * 1000000000 else ht_window cfg)
      in \<lparr>hs_cfg = cfg\<lparr>ht_ping := ping, ht_write_timeout := wt, ht_burst := burst, ht_window := window\<rparr>,
          hs_auth = a, hs_limiter = new_limiter burst window now, hs_hub = hub, hs_signer = sg\<rparr>)"

section \<open>Routes and headers\<close>

datatype route = LoginRoute | WsRoute | StaticRoute | MethodNotAllowed

text \<open>\<open>ServeMux\<close>: a \<open>GET\<close> pattern also serves \<open>HEAD\<close>, and the longest matching path wins.\<close>

definition route_of :: "string \<Rightarrow> string \<Rightarrow> route" where
  "route_of meth path =
     (if meth = ''POST'' \<and> path = ''/login'' then LoginRoute
      else if meth = ''GET'' \<or> meth = ''HEAD'' then (if path = ''/ws'' then WsRoute else StaticRoute)
      else MethodNotAllowed)"

definition quoted :: "string \<Rightarrow> string" where
  "quoted s = CHR 0x27 # s @ [CHR 0x27]"

definition content_security_policy :: string where
  "content_security_policy = ''default-src '' @ quoted ''self'' @ ''; script-src '' @ quoted ''self'' @
     ''; style-src '' @ quoted ''self'' @ ''; img-src '' @ quoted ''self'' @ '' data:; connect-src '' @
     quoted ''self'' @ '' wss: ws:; frame-ancestors '' @ quoted ''none''"

definition static_headers :: "(string \<times> string) list" where
  "static_headers =
     [(''Content-Security-Policy'', content_security_policy), (''X-Content-Type-Options'', ''nosniff''),
      (''Referrer-Policy'', ''no-referrer'')]"

section \<open>The client's address\<close>

text \<open>The host of \<open>net.SplitHostPort\<close>; \<open>None\<close> when it gives an error.\<close>

definition split_host :: "string \<Rightarrow> string option" where
  "split_host s =
     (if CHR '':'' \<notin> set s then None
      else let before = rev (tl (dropWhile (\<lambda>c. c \<noteq> CHR '':'') (rev s)));
               port = rev (takeWhile (\<lambda>c. c \<noteq> CHR '':'') (rev s))
           in if hd s = CHR ''['' then
                (if before = takeWhile (\<lambda>c. c \<noteq> CHR '']'') s @ '']'' \<and>
                    CHR ''['' \<notin> set (tl s) \<and> CHR '']'' \<notin> set port
                 then Some (tl (takeWhile (\<lambda>c. c \<noteq> CHR '']'') s)) else None)
              else if CHR '':'' \<in> set before \<or> CHR ''['' \<in> set s \<or> CHR '']'' \<in> set s then None
              else Some before)"

text \<open>\<open>forwarded\<close> is the first \<open>X-Forwarded-For\<close> header, empty when there is none.\<close>

definition client_ip :: "bool \<Rightarrow> string \<Rightarrow> string \<Rightarrow> string" where
  "client_ip trust forwarded remote =
     (if trust \<and> forwarded \<noteq> [] then trim_space (takeWhile (\<lambda>c. c \<noteq> CHR '','') forwarded)
      else case split_host remote of None \<Rightarrow> remote | Some host \<Rightarrow> host)"

section \<open>The login endpoint\<close>

definition max_login_body :: nat where
  "max_login_body = 4096"

definition set_login :: "string \<Rightarrow> json \<Rightarrow> string \<Rightarrow> string option" where
  "set_login k v password = (if k = ''password'' then set_string (\<lambda>x. x) v password else Some password)"

text \<open>\<open>Decode\<close> reads the first JSON value of at most \<open>max_login_body\<close> bytes. A literal that ends where
  a longer body is cut off is not known to be complete; of these only \<open>null\<close> would be accepted.\<close>

definition decode_login :: "string \<Rightarrow> string option" where
  "decode_login body =
     (let given = take max_login_body body
      in if length body > max_login_body \<and> dropWhile is_ws given = ''null'' then None
         else case json_decode_first given of None \<Rightarrow> None | Some v \<Rightarrow> decode_struct set_login [] v)"

record response =
  rp_status :: nat
  rp_headers :: "(string \<times> string) list"
  rp_body :: string

definition http_error :: "string \<Rightarrow> nat \<Rightarrow> response" where
  "http_error msg code =
     \<lparr>rp_status = code, rp_headers = [(''Content-Type'', ''text/plain; charset=utf-8''),
        (''X-Content-Type-Options'', ''nosniff'')], rp_body = msg @ [newline_byte]\<rparr>"

definition login_members :: "string \<Rightarrow> int \<Rightarrow> string \<Rightarrow> string \<Rightarrow> int \<Rightarrow> (string \<times> json) list" where
  "login_members token expires pubkey keyid image_max =
     [(''token'', JStr token), (''exp'', JNum (int_str expires)), (''pubkey'', JStr pubkey),
      (''keyid'', JStr keyid), (''image_max_bytes'', JNum (int_str image_max))]"

definition login_response :: "crypto \<Rightarrow> http_server \<Rightarrow> string \<Rightarrow> int \<Rightarrow> response" where
  "login_response cr sv token expiry =
     \<lparr>rp_status = 200,
      rp_headers = [(''Content-Type'', ''application/json''), (''Cache-Control'', ''no-store'')],
      rp_body = json_print (JObj (login_members token (unix expiry)
          (b64_encode b64_std True (signer_public cr (hs_signer sv)))
          (s_keyid (hs_signer sv)) (hc_image_max (hs_hub sv)))) @ [newline_byte]\<rparr>"

definition handle_login ::
  "mac_lib \<Rightarrow> crypto \<Rightarrow> int \<Rightarrow> http_server \<Rightarrow> string \<Rightarrow> string \<Rightarrow> string \<Rightarrow> response \<times> http_server" where
  "handle_login ml cr now sv forwarded remote body =
     (let (ok, l) = allow now (client_ip (ht_trust_proxy (hs_cfg sv)) forwarded remote) (hs_limiter sv);
          sv' = sv\<lparr>hs_limiter := l\<rparr>
      in if \<not> ok then (http_error ''too many attempts'' 429, sv')
         else case decode_login body of
           None \<Rightarrow> (http_error ''malformed request'' 400, sv')
         | Some password \<Rightarrow>
             if check_password ml (hs_auth sv) password \<noteq> None then (http_error ''unauthorized'' 401, sv')
             else case mint ml (hs_auth sv) now of
               Inl e \<Rightarrow> (http_error ''internal error'' 500, sv')
             | Inr (token, expiry) \<Rightarrow>
                 (login_response cr sv token expiry, sv'))"

section \<open>A token among the offered subprotocols\<close>

lemma offered_token_found:
  assumes "graphic token" "CHR '','' \<notin> set token" "token \<noteq> []" "token \<noteq> subprotocol"
  shows "offered_token [subprotocol @ '', '' @ token] = Some token"
proof -
  have "split_on CHR '','' (subprotocol @ '', '' @ token) = [subprotocol, CHR '' '' # token]"
    using assms(2) split_on_append [of "CHR '',''" subprotocol "CHR '' '' # token"]
    by (simp add: subprotocol_def split_on_none)
  moreover have "graphic subprotocol" by (simp add: graphic_def subprotocol_def)
  ultimately show ?thesis using assms by (simp add: offered_token_def)
qed
text \<open>A minted token is printable, has no comma and is not the subprotocol.\<close>

lemma minted_token_offered:
  assumes "mac_lib_ok ml" "mint ml a now = Inr (token, expiry)"
  shows "offered_token [subprotocol @ '', '' @ token] = Some token"
proof -
  obtain raw where raw: "token = b64_encode b64_url False raw" "length raw = 44"
    using assms by (auto simp: mint_def mac_lib_ok_def Let_def split: option.splits)
  have chars: "set token \<subseteq> insert CHR ''='' (set b64_url)"
    unfolding raw(1) by (rule set_b64_encode) simp
  moreover have "graphic (CHR ''='' # b64_url)" "CHR '','' \<notin> set (CHR ''='' # b64_url)" by code_simp+
  ultimately have "graphic token" "CHR '','' \<notin> set token" by (auto simp: graphic_def)
  moreover have "token \<noteq> []" using raw by auto
  moreover have "b64_decode b64_url False subprotocol = None" by code_simp
  then have "token \<noteq> subprotocol" using raw(1) by (metis b64_alphabets(2) b64_decode_encode option.distinct(1))
  ultimately show ?thesis by (rule offered_token_found)
qed

lemma login_response_status [simp]: "rp_status (login_response cr sv token expiry) = 200"
  by (simp add: login_response_def)

lemma handle_login_granted:
  assumes "handle_login ml cr now sv forwarded remote body = (r, sv')" "rp_status r = 200"
  obtains password token expiry
  where "fst (allow now (client_ip (ht_trust_proxy (hs_cfg sv)) forwarded remote) (hs_limiter sv))"
    "decode_login body = Some password" "check_password ml (hs_auth sv) password = None"
    "mint ml (hs_auth sv) now = Inr (token, expiry)"
    "r = login_response cr sv token expiry"
  using assms
  by (auto simp: handle_login_def http_error_def case_prod_beta Let_def split: if_splits option.splits sum.splits)

section \<open>Properties\<close>

text \<open>C32: logging in leads to a connection. A login is granted only to an attempt the limiter allows
  and whose password has the digest of the configured one; the token in its answer, offered beside the
  subprotocol at the handshake, is found there and opens the websocket until the second it expires in,
  and from then on the handshake is unauthorized.\<close>

theorem login_opens_websocket:
  assumes "mac_lib_ok ml" "handle_login ml cr now sv forwarded remote body = (r, sv')" "rp_status r = 200"
    and "0 \<le> now + au_ttl (hs_auth sv)" "now + au_ttl (hs_auth sv) < 2 ^ 63"
  shows "\<exists>password token.
    fst (allow now (client_ip (ht_trust_proxy (hs_cfg sv)) forwarded remote) (hs_limiter sv)) \<and>
    decode_login body = Some password \<and> ml_sha256 ml password = au_digest (hs_auth sv) \<and>
    r = login_response cr sv token (now + au_ttl (hs_auth sv)) \<and>
    (\<forall>later. handle_websocket ml (hs_auth sv) later (hs_hub sv) [subprotocol @ '', '' @ token] (Some subprotocol) =
       (if later > (now + au_ttl (hs_auth sv)) div 1000000000 * 1000000000 then Unauthorized
        else Upgraded token (read_limit (hs_hub sv))))"
proof -
  obtain password token expiry where g:
    "fst (allow now (client_ip (ht_trust_proxy (hs_cfg sv)) forwarded remote) (hs_limiter sv))"
    "decode_login body = Some password" "check_password ml (hs_auth sv) password = None"
    "mint ml (hs_auth sv) now = Inr (token, expiry)"
    "r = login_response cr sv token expiry"
    using assms(2,3) by (rule handle_login_granted)
  note v = verify_own [OF assms(1) g(4) assms(4,5)]
  have "ml_sha256 ml password = au_digest (hs_auth sv)"
    using g(3) by (simp add: check_password_def split: if_splits)
  moreover have "handle_websocket ml (hs_auth sv) later (hs_hub sv) [subprotocol @ '', '' @ token] (Some subprotocol) =
       (if later > (now + au_ttl (hs_auth sv)) div 1000000000 * 1000000000 then Unauthorized
        else Upgraded token (read_limit (hs_hub sv)))" for later
    using v minted_token_offered [OF assms(1) g(4)] by (simp add: handle_websocket_def)
  ultimately show ?thesis using g(1,2,5) v by blast
qed

definition sample_http :: http_server where
  "sample_http = new_server \<lparr>ht_origins = [], ht_trust_proxy = False, ht_ping = 0, ht_write_timeout = 0,
     ht_burst = 0, ht_window = 0\<rparr> (sample_auth 1) (sv_cfg sample_server) sample_signer 0"

definition login_body :: string where
  "login_body = json_print (JObj [(''password'', JStr ''hunter2'')])"

lemma sample_login: "decode_login login_body = Some ''hunter2''"
proof -
  let ?v = "JObj [(''password'', JStr ''hunter2'')]"
  have flat: "flat_ok (''password'', JStr ''hunter2'')" by (simp add: ascii_valid)
  then have v: "json_ints ?v" "json_sane ?v = ?v" "json_depth ?v = Suc 0"
    using flat_ok_facts [OF flat] by simp_all
  have "parse_json [] PVal (json_print ?v @ []) = Some (?v, [])"
    using v readsD [OF json_reads [OF v(1)], of "[]" "[]"]
    by (simp add: max_depth_def num_stop_def parse_json.simps)
  moreover have "length login_body = 22" by code_simp
  moreover have "fold_name ''password'' = ''password''" by (rule fold_name_lower) code_simp
  ultimately show ?thesis
    by (simp add: decode_login_def max_login_body_def json_decode_first_def login_body_def decode_struct_def
        set_login_def del: json_print.simps)
qed

theorem login_opens_websocket_witness:
  "\<exists>token r sv'. handle_login sample_macs sample_crypto 0 sample_http [] ''10.0.0.7:5555'' login_body = (r, sv') \<and>
    rp_status r = 200 \<and>
    handle_websocket sample_macs (sample_auth 1) 5 (sv_cfg sample_server) [subprotocol @ '', '' @ token]
      (Some subprotocol) = Upgraded token (read_limit (sv_cfg sample_server))"
proof -
  have ok: "fst (allow 0 (client_ip (ht_trust_proxy (hs_cfg sample_http)) [] ''10.0.0.7:5555'') (hs_limiter sample_http))"
    by (simp add: sample_http_def new_server_def new_limiter_def allow_def sweep_buckets_def take_token_def
        refilled_def Let_def)
  have a: "hs_auth sample_http = sample_auth 1" "hs_hub sample_http = sv_cfg sample_server"
    "au_ttl (sample_auth 1) = 43200000000000"
    by (simp_all add: sample_http_def new_server_def Let_def sample_auth_def)
  have pw: "check_password sample_macs (sample_auth 1) ''hunter2'' = None"
    by (simp add: check_password_def sample_auth_def)
  obtain token e where t: "mint sample_macs (sample_auth 1) 0 = Inr (token, e)"
    by (auto simp: mint_def token_key_def sample_macs_def Let_def)
  obtain r sv' where h: "handle_login sample_macs sample_crypto 0 sample_http [] ''10.0.0.7:5555'' login_body = (r, sv')"
    by (cases "handle_login sample_macs sample_crypto 0 sample_http [] ''10.0.0.7:5555'' login_body")
  then have st: "rp_status r = 200"
    using ok a pw t by (auto simp: handle_login_def sample_login case_prod_beta)
  have "0 \<le> 0 + au_ttl (hs_auth sample_http)" "0 + au_ttl (hs_auth sample_http) < 2 ^ 63" using a by simp_all
  from login_opens_websocket [OF sample_macs_ok h st this] obtain token where
    "\<forall>later. handle_websocket sample_macs (sample_auth 1) later (sv_cfg sample_server)
       [subprotocol @ '', '' @ token] (Some subprotocol) =
       (if (0 + 43200000000000) div 1000000000 * 1000000000 < later then Unauthorized
        else Upgraded token (read_limit (sv_cfg sample_server)))"
    unfolding a by blast
  from spec [OF this, of 5] h st show ?thesis by auto
qed

end
