(* ===== verification/Config.thy ===== *)
theory Config
  imports GoText
begin

text \<open>
  \<^verbatim>\<open>internal/config/config.go\<close>: the server's settings, read from the environment. The environment is
  a function from names to values, empty for a variable that is not set. A Go \<open>int\<close> is an \<open>int\<close> in
  the range of \<open>int64\<close>; the products and conversions that can leave it wrap. In \<open>time.ParseDuration\<close>
  the fraction of a unit is computed exactly, where Go goes through \<open>float64\<close>.

  A reader gives its value and the error it reports, if any; \<open>load\<close> reports all of them together.
\<close>

section \<open>Parsing values\<close>

text \<open>\<open>leadingInt\<close> and \<open>leadingFraction\<close> of \<open>time.ParseDuration\<close>.\<close>

fun leading_int :: "nat \<Rightarrow> string \<Rightarrow> (nat \<times> string) option" where
  "leading_int x [] = Some (x, [])"
| "leading_int x (c # s) =
     (if \<not> is_digit c then Some (x, c # s)
      else if x > 2 ^ 63 div 10 then None
      else let y = x * 10 + (byte c - 48) in if y > 2 ^ 63 then None else leading_int y s)"

fun leading_fraction :: "bool \<Rightarrow> nat \<Rightarrow> nat \<Rightarrow> string \<Rightarrow> nat \<times> nat \<times> string" where
  "leading_fraction over x scale [] = (x, scale, [])"
| "leading_fraction over x scale (c # s) =
     (if \<not> is_digit c then (x, scale, c # s)
      else if over \<or> x > (2 ^ 63 - 1) div 10 then leading_fraction True x scale s
      else let y = x * 10 + (byte c - 48)
           in if y > 2 ^ 63 then leading_fraction True x scale s else leading_fraction False y (scale * 10) s)"

definition duration_unit :: "string \<Rightarrow> nat option" where
  "duration_unit = map_of [(''ns'', 1), (''us'', 1000), ([CHR 0xC2, CHR 0xB5, CHR ''s''], 1000),
     ([CHR 0xCE, CHR 0xBC, CHR ''s''], 1000), (''ms'', 1000000), (''s'', 1000000000),
     (''m'', 60 * 1000000000), (''h'', 3600 * 1000000000)]"

definition fraction_part :: "string \<Rightarrow> nat \<times> nat \<times> string \<times> bool" where
  "fraction_part s =
     (if s \<noteq> [] \<and> hd s = CHR ''.'' then
        (let (f, scale, t) = leading_fraction False 0 1 (tl s) in (f, scale, t, length t \<noteq> length (tl s)))
      else (0, 1, s, False))"

lemma leading_int_le: "leading_int x s = Some (v, t) \<Longrightarrow> length t \<le> length s"
  by (induction x s rule: leading_int.induct) (auto simp: Let_def split: if_splits)

lemma leading_fraction_le: "length (snd (snd (leading_fraction over x scale s))) \<le> length s"
  by (induction s arbitrary: over x scale) (simp_all add: Let_def le_SucI)

lemma fraction_part_le: "fraction_part s = (f, sc, t, post) \<Longrightarrow> length t \<le> length s"
  using leading_fraction_le [of False 0 "Suc 0" "tl s"]
  by (cases s) (auto simp: fraction_part_def case_prod_beta split: if_splits)

lemma unit_consumed:
  assumes "takeWhile P t \<noteq> []" "length t \<le> length s1" "length s1 \<le> length s"
  shows "length t - length (takeWhile P t) < length s"
proof -
  have "0 < length (takeWhile P t)" using assms(1) by simp
  moreover have "length (takeWhile P t) \<le> length t" by (rule length_takeWhile_le)
  ultimately show ?thesis using assms(2,3) by linarith
qed

text \<open>The loop of \<open>time.ParseDuration\<close>, a number and a unit at a time; the sum is a \<open>uint64\<close>.\<close>

function duration_sum :: "nat \<Rightarrow> string \<Rightarrow> nat option" where
  "duration_sum d s =
     (if s = [] then Some d
      else if \<not> (hd s = CHR ''.'' \<or> is_digit (hd s)) then None
      else case leading_int 0 s of
        None \<Rightarrow> None
      | Some (v, s1) \<Rightarrow>
          case fraction_part s1 of (f, scale, s2, post) \<Rightarrow>
            let u = takeWhile (\<lambda>c. \<not> (c = CHR ''.'' \<or> is_digit c)) s2
            in if length s1 = length s \<and> \<not> post then None
               else if u = [] then None
               else case duration_unit u of
                 None \<Rightarrow> None
               | Some unit \<Rightarrow>
                   if v > 2 ^ 63 div unit then None
                   else let v = v * unit + f * unit div scale
                        in if v > 2 ^ 63 \<or> (d + v) mod 2 ^ 64 > 2 ^ 63 then None
                           else duration_sum ((d + v) mod 2 ^ 64) (drop (length u) s2))"
  by pat_completeness auto

termination
  by (relation "measure (\<lambda>(d, s). length s)")
    (simp, auto dest!: leading_int_le fraction_part_le [OF sym] intro: unit_consumed)

declare duration_sum.simps [simp del]

text \<open>\<open>time.ParseDuration\<close>, in nanoseconds.\<close>

definition parse_duration :: "string \<Rightarrow> int option" where
  "parse_duration s0 =
     (let neg = (s0 \<noteq> [] \<and> hd s0 = CHR ''-'');
          s = (if s0 \<noteq> [] \<and> (hd s0 = CHR ''-'' \<or> hd s0 = CHR ''+'') then tl s0 else s0)
      in if s = ''0'' then Some 0
         else if s = [] then None
         else case duration_sum 0 s of
           None \<Rightarrow> None
         | Some d \<Rightarrow> if neg then Some (- int d) else if d > 2 ^ 63 - 1 then None else Some (int d))"

text \<open>\<open>strconv.ParseBool\<close>.\<close>

definition parse_bool :: "string \<Rightarrow> bool option" where
  "parse_bool s =
     (if s \<in> {''1'', ''t'', ''T'', ''TRUE'', ''true'', ''True''} then Some True
      else if s \<in> {''0'', ''f'', ''F'', ''FALSE'', ''false'', ''False''} then Some False else None)"

section \<open>Readers of the environment\<close>

datatype cfg_error = NotNumber string string | NotDuration string string | NotBoolean string string
  | NotSize string string | PasswordRequired | TtlOverWeek | BufferBelowOne

type_synonym getenv = "string \<Rightarrow> string"

definition env_str :: "getenv \<Rightarrow> string \<Rightarrow> string \<Rightarrow> string" where
  "env_str get key fallback = (if get key \<noteq> [] then get key else fallback)"

definition env_integer :: "getenv \<Rightarrow> string \<Rightarrow> int \<Rightarrow> int \<times> cfg_error list" where
  "env_integer get key fallback =
     (if get key = [] then (fallback, [])
      else case parse_int (get key) of None \<Rightarrow> (fallback, [NotNumber key (get key)]) | Some n \<Rightarrow> (n, []))"

definition env_duration :: "getenv \<Rightarrow> string \<Rightarrow> int \<Rightarrow> int \<times> cfg_error list" where
  "env_duration get key fallback =
     (if get key = [] then (fallback, [])
      else case parse_duration (get key) of
        None \<Rightarrow> (fallback, [NotDuration key (get key)]) | Some d \<Rightarrow> (d, []))"

definition env_boolean :: "getenv \<Rightarrow> string \<Rightarrow> bool \<Rightarrow> bool \<times> cfg_error list" where
  "env_boolean get key fallback =
     (if get key = [] then (fallback, [])
      else case parse_bool (get key) of None \<Rightarrow> (fallback, [NotBoolean key (get key)]) | Some b \<Rightarrow> (b, []))"

definition size_units :: "(string \<times> int) list" where
  "size_units = [(''KiB'', 2 ^ 10), (''MiB'', 2 ^ 20), (''GiB'', 2 ^ 30),
     (''KB'', 1000), (''MB'', 1000 * 1000), (''GB'', 1000 * 1000 * 1000)]"

text \<open>The first unit that is a suffix, and the value without it.\<close>

fun cut_unit :: "(string \<times> int) list \<Rightarrow> string \<Rightarrow> int \<times> string" where
  "cut_unit [] v = (1, v)"
| "cut_unit ((suffix, scale) # units) v =
     (case cut_suffix suffix v of Some rest \<Rightarrow> (scale, trim_space rest) | None \<Rightarrow> cut_unit units v)"

definition env_bytes :: "getenv \<Rightarrow> string \<Rightarrow> int \<Rightarrow> int \<times> cfg_error list" where
  "env_bytes get key fallback =
     (let v = trim_space (get key)
      in if v = [] then (fallback, [])
         else let (multiplier, v) = cut_unit size_units v
              in case parse_int v of
                   None \<Rightarrow> (fallback, [NotSize key (get key)])
                 | Some n \<Rightarrow> (wrap64 (n * multiplier), []))"
section \<open>Loading\<close>

record config =
  cf_addr :: string
  cf_data_dir :: string
  cf_password :: string
  cf_token_secret :: string
  cf_token_epoch :: "32 word"
  cf_token_ttl :: int
  cf_signing_seed :: string
  cf_key_id :: string
  cf_image_max :: int
  cf_text_max :: int
  cf_ring_text :: int
  cf_ring_image :: int
  cf_max_backfill :: int
  cf_outbound :: int
  cf_idle :: int
  cf_sweep :: int
  cf_ping :: int
  cf_write_timeout :: int
  cf_burst :: int
  cf_window :: int
  cf_origins :: "string list"
  cf_trust_proxy :: bool
  cf_log_level :: string
  cf_new_seed :: bool
  cf_new_secret :: bool

definition allowed_origins :: "string \<Rightarrow> string list" where
  "allowed_origins origins =
     (if origins = [] then [] else filter (\<lambda>s. s \<noteq> []) (map trim_space (split_on CHR '','' origins)))"

definition second :: int where
  "second = 1000000000"

text \<open>The configuration as read, and the errors the readers and the checks have accumulated.\<close>

definition readings :: "getenv \<Rightarrow> config \<times> cfg_error list" where
  "readings get =
     (let epoch = env_integer get ''CHAPI_TOKEN_EPOCH'' 1;
          ttl = env_duration get ''CHAPI_TOKEN_TTL'' (12 * 3600 * second);
          image_max = env_bytes get ''CHAPI_IMAGE_MAX_BYTES'' (2 * 2 ^ 20);
          text_max = env_bytes get ''CHAPI_TEXT_MAX_BYTES'' (16 * 2 ^ 10);
          ring_text = env_integer get ''CHAPI_RING_TEXT'' 5000;
          ring_image = env_bytes get ''CHAPI_RING_IMAGE_BYTES'' (64 * 2 ^ 20);
          max_backfill = env_integer get ''CHAPI_MAX_BACKFILL'' 5000;
          outbound = env_integer get ''CHAPI_OUTBOUND_BUFFER'' 64;
          idle = env_duration get ''CHAPI_ROOM_IDLE_TIMEOUT'' (10 * 60 * second);
          sweep = env_duration get ''CHAPI_SWEEP_INTERVAL'' (60 * second);
          ping = env_duration get ''CHAPI_PING_INTERVAL'' (30 * second);
          write_timeout = env_duration get ''CHAPI_WRITE_TIMEOUT'' (10 * second);
          burst = env_integer get ''CHAPI_LOGIN_BURST'' 10;
          window = env_duration get ''CHAPI_LOGIN_WINDOW'' (60 * second);
          trust = env_boolean get ''CHAPI_TRUST_PROXY_HEADER'' False;
          cfg = \<lparr>cf_addr = env_str get ''CHAPI_ADDR'' '':8080'',
            cf_data_dir = env_str get ''CHAPI_DATA_DIR'' ''./data'',
            cf_password = get ''CHAPI_PASSWORD'', cf_token_secret = [],
            cf_token_epoch = word_of_int (fst epoch), cf_token_ttl = fst ttl, cf_signing_seed = [],
            cf_key_id = env_str get ''CHAPI_KEY_ID'' ''k1'',
            cf_image_max = fst image_max, cf_text_max = fst text_max, cf_ring_text = fst ring_text,
            cf_ring_image = fst ring_image, cf_max_backfill = fst max_backfill, cf_outbound = fst outbound,
            cf_idle = fst idle, cf_sweep = fst sweep, cf_ping = fst ping, cf_write_timeout = fst write_timeout,
            cf_burst = fst burst, cf_window = fst window,
            cf_origins = allowed_origins (get ''CHAPI_ALLOWED_ORIGINS''), cf_trust_proxy = fst trust,
            cf_log_level = env_str get ''CHAPI_LOG_LEVEL'' ''info'', cf_new_seed = False, cf_new_secret = False\<rparr>;
          errs = snd epoch @ snd ttl @ snd image_max @ snd text_max @ snd ring_text @ snd ring_image @
            snd max_backfill @ snd outbound @ snd idle @ snd sweep @ snd ping @ snd write_timeout @
            snd burst @ snd window @ snd trust @
            (if cf_password cfg = [] then [PasswordRequired] else []) @
            (if cf_token_ttl cfg > 7 * 24 * 3600 * second then [TtlOverWeek] else []) @
            (if cf_outbound cfg < 1 then [BufferBelowOne] else [])
      in (cfg, errs))"

definition load :: "getenv \<Rightarrow> cfg_error list + config" where
  "load get = (let (cfg, errs) = readings get in if errs \<noteq> [] then Inl errs else Inr cfg)"

section \<open>What is wrong with an environment\<close>

text \<open>The specification of the errors: which variables are of which kind, and which values are not
  readable.\<close>

definition integer_vars :: "string set" where
  "integer_vars = {''CHAPI_TOKEN_EPOCH'', ''CHAPI_RING_TEXT'', ''CHAPI_MAX_BACKFILL'',
     ''CHAPI_OUTBOUND_BUFFER'', ''CHAPI_LOGIN_BURST''}"

definition duration_vars :: "string set" where
  "duration_vars = {''CHAPI_TOKEN_TTL'', ''CHAPI_ROOM_IDLE_TIMEOUT'', ''CHAPI_SWEEP_INTERVAL'',
     ''CHAPI_PING_INTERVAL'', ''CHAPI_WRITE_TIMEOUT'', ''CHAPI_LOGIN_WINDOW''}"

definition size_vars :: "string set" where
  "size_vars = {''CHAPI_IMAGE_MAX_BYTES'', ''CHAPI_TEXT_MAX_BYTES'', ''CHAPI_RING_IMAGE_BYTES''}"

definition size_readable :: "string \<Rightarrow> bool" where
  "size_readable v \<longleftrightarrow> trim_space v = [] \<or> parse_int (snd (cut_unit size_units (trim_space v))) \<noteq> None"

fun problem :: "getenv \<Rightarrow> cfg_error \<Rightarrow> bool" where
  "problem get (NotNumber k v) \<longleftrightarrow> k \<in> integer_vars \<and> v = get k \<and> v \<noteq> [] \<and> parse_int v = None"
| "problem get (NotDuration k v) \<longleftrightarrow> k \<in> duration_vars \<and> v = get k \<and> v \<noteq> [] \<and> parse_duration v = None"
| "problem get (NotBoolean k v) \<longleftrightarrow>
     k = ''CHAPI_TRUST_PROXY_HEADER'' \<and> v = get k \<and> v \<noteq> [] \<and> parse_bool v = None"
| "problem get (NotSize k v) \<longleftrightarrow> k \<in> size_vars \<and> v = get k \<and> \<not> size_readable v"
| "problem get PasswordRequired \<longleftrightarrow> get ''CHAPI_PASSWORD'' = []"
| "problem get TtlOverWeek \<longleftrightarrow>
     (\<exists>d. parse_duration (get ''CHAPI_TOKEN_TTL'') = Some d \<and> d > 7 * 24 * 3600 * second)"
| "problem get BufferBelowOne \<longleftrightarrow> (\<exists>n. parse_int (get ''CHAPI_OUTBOUND_BUFFER'') = Some n \<and> n < 1)"

lemma parse_empty [simp]: "parse_int [] = None" "parse_duration [] = None"
  by (simp_all add: parse_int_def parse_duration_def)

lemma reader_errors:
  "p \<in> set (snd (env_integer get k i)) \<longleftrightarrow> p = NotNumber k (get k) \<and> get k \<noteq> [] \<and> parse_int (get k) = None"
  "p \<in> set (snd (env_duration get k i)) \<longleftrightarrow>
     p = NotDuration k (get k) \<and> get k \<noteq> [] \<and> parse_duration (get k) = None"
  "p \<in> set (snd (env_boolean get k b)) \<longleftrightarrow> p = NotBoolean k (get k) \<and> get k \<noteq> [] \<and> parse_bool (get k) = None"
  "p \<in> set (snd (env_bytes get k i)) \<longleftrightarrow> p = NotSize k (get k) \<and> \<not> size_readable (get k)"
  by (auto simp: env_integer_def env_duration_def env_boolean_def env_bytes_def size_readable_def Let_def
      case_prod_beta split: option.splits)

lemma check_error: "p \<in> set (if c then [e] else []) \<longleftrightarrow> c \<and> p = e"
  by auto

lemma reader_bounds:
  "0 < fb \<Longrightarrow> fst (env_integer get k fb) < 1 \<longleftrightarrow> (\<exists>n. parse_int (get k) = Some n \<and> n < 1)"
  "fb \<le> m \<Longrightarrow> m < fst (env_duration get k fb) \<longleftrightarrow> (\<exists>d. parse_duration (get k) = Some d \<and> m < d)"
  by (auto simp: env_integer_def env_duration_def split: option.splits)
lemmas vars_defs = integer_vars_def duration_vars_def size_vars_def

lemma readings_errors: "p \<in> set (snd (readings get)) \<longleftrightarrow> problem get p"
proof -
  note mem = readings_def Let_def snd_conv set_append Un_iff reader_errors check_error config.simps
  show ?thesis
  proof (cases p)
    case (NotNumber k v)
    then show ?thesis unfolding mem by (auto simp: vars_defs)
  next
    case (NotDuration k v)
    then show ?thesis unfolding mem by (auto simp: vars_defs)
  next
    case (NotBoolean k v)
    then show ?thesis unfolding mem by auto
  next
    case (NotSize k v)
    then show ?thesis unfolding mem by (auto simp: vars_defs)
  next
    case TtlOverWeek
    have "12 * 3600 * second \<le> 7 * 24 * 3600 * second" by (simp add: second_def)
    with TtlOverWeek show ?thesis unfolding mem by (simp add: reader_bounds)
  qed (simp_all add: mem reader_bounds)
qed

section \<open>Properties\<close>

text \<open>C39: every problem is reported, and nothing else. Loading fails exactly when something is wrong with
  the environment, and then the errors are all the things that are: each variable that cannot be read
  as its kind, a missing password, a token lifetime over a week, a queue without room.\<close>

theorem load_reports_all:
  "case load get of Inl es \<Rightarrow> es \<noteq> [] \<and> set es = {p. problem get p}
     | Inr cfg \<Rightarrow> {p. problem get p} = {} \<and> cfg = fst (readings get)"
proof -
  have "set (snd (readings get)) = {p. problem get p}" using readings_errors by blast
  then show ?thesis by (auto simp: load_def case_prod_beta)
qed
lemma cut_unit_scale:
  assumes "(suffix, scale) \<in> set size_units" "graphic s"
  shows "cut_unit size_units (s @ suffix) = (scale, s)"
  using assms by (auto simp: size_units_def cut_suffix_rev)

text \<open>C40: sizes with a unit. A number and a unit is read as their product as long as that is an
  \<open>int\<close>; when it is not, the product wraps around and the wrong size is accepted without an error.\<close>

theorem size_wraps:
  assumes "(suffix, scale) \<in> set size_units" "int64_range n" "get key = int_str n @ suffix"
  shows "env_bytes get key fallback = (wrap64 (n * scale), []) \<and>
    (wrap64 (n * scale) = n * scale \<longleftrightarrow> int64_range (n * scale))"
proof -
  have suffix: "graphic suffix" "suffix \<noteq> []" using assms(1) by (auto simp: size_units_def graphic_def)
  then have "trim_space (get key) = int_str n @ suffix" using assms(3) by simp
  then have "env_bytes get key fallback = (wrap64 (n * scale), [])"
    using cut_unit_scale [OF assms(1), of "int_str n"] assms(2) suffix(2) by (simp add: env_bytes_def)
  moreover have "int64_range (wrap64 i)" for i
    using sint_range_size [of "word_of_int i :: 64 word"] by (simp add: wrap64_def int64_range_def word_size)
  then have "wrap64 (n * scale) = n * scale \<longleftrightarrow> int64_range (n * scale)" using wrap64_id by metis
  ultimately show ?thesis by blast
qed

definition sample_env :: getenv where
  "sample_env k = (if k = ''CHAPI_PASSWORD'' then ''hunter2'' else [])"

definition overflow_env :: getenv where
  "overflow_env k = (if k = ''CHAPI_IMAGE_MAX_BYTES'' then ''18014398509481985KiB'' else sample_env k)"

lemma trim_space_Nil [simp]: "trim_space [] = []"
  by (simp add: trim_space_def trim_right.simps)

lemma sample_env_vars [simp]:
  "k \<in> integer_vars \<Longrightarrow> sample_env k = []" "k \<in> duration_vars \<Longrightarrow> sample_env k = []"
  "k \<in> size_vars \<Longrightarrow> sample_env k = []"
  "sample_env ''CHAPI_TRUST_PROXY_HEADER'' = []" "sample_env ''CHAPI_TOKEN_TTL'' = []"
  "sample_env ''CHAPI_OUTBOUND_BUFFER'' = []" "sample_env ''CHAPI_PASSWORD'' \<noteq> []"
  by (auto simp: vars_defs sample_env_def)

lemma load_sample_env: "load sample_env = Inr (fst (readings sample_env))"
proof -
  have "\<not> problem sample_env p" for p
    by (cases p) (auto simp: size_readable_def)
  then have "p \<notin> set (snd (readings sample_env))" for p unfolding readings_errors .
  then have "snd (readings sample_env) = []" by (cases "snd (readings sample_env)") auto
  then show ?thesis by (simp add: load_def case_prod_beta)
qed

theorem size_wraps_witness:
  "env_bytes overflow_env ''CHAPI_IMAGE_MAX_BYTES'' 0 = (1024, []) \<and>
    \<not> int64_range (18014398509481985 * 2 ^ 10)"
proof -
  have "(''KiB'', 2 ^ 10) \<in> set size_units" by (simp add: size_units_def)
  moreover have "int_str 18014398509481985 = ''18014398509481985''"
    by (simp add: int_str_def nat_str.simps digit_char_def char_of_def bit_numeral_rec bit_0)
  moreover have "wrap64 (18014398509481985 * 2 ^ 10) = 1024" by (simp add: wrap64_def)
  ultimately show ?thesis
    using size_wraps [of "''KiB''" "2 ^ 10" 18014398509481985 overflow_env "''CHAPI_IMAGE_MAX_BYTES''" 0]
    by (simp add: int64_range_def overflow_env_def)
qed

text \<open>The epoch is cut to 32 bits: a bump by \<open>2 ^ 32\<close> is none.\<close>

lemma epoch_truncated:
  assumes "get ''CHAPI_TOKEN_EPOCH'' = int_str n" "int64_range n" "get' ''CHAPI_TOKEN_EPOCH'' = int_str (n + 2 ^ 32)"
    and "int64_range (n + 2 ^ 32)"
  shows "cf_token_epoch (fst (readings get')) = cf_token_epoch (fst (readings get))"
proof -
  have "int_str i \<noteq> []" for i by (simp add: int_str_def)
  moreover have "(word_of_int (n + 2 ^ 32) :: 32 word) = word_of_int n"
    by (simp flip: wi_hom_add)
  ultimately show ?thesis using assms by (simp add: readings_def Let_def env_integer_def)
qed

end
