(* ===== verification/Secrets.thy ===== *)
theory Secrets
  imports Config Archive
begin

text \<open>
  \<^verbatim>\<open>internal/config/secrets.go\<close>: where the signing seed and the token secret come from. Each is taken
  from the environment, else from its file in the data directory, else generated and written there.
  The paths \<open>filepath.Join\<close> makes, the random bytes and what the operating system refuses are
  arguments; a write that fails leaves what was written so far.
\<close>

section \<open>The operating system\<close>

datatype write_result = WriteDone | CreateRefused | WriteCut nat

record os =
  os_path :: "string \<Rightarrow> string"
  os_mkdir :: bool
  os_read :: "string \<Rightarrow> bool"
  os_write :: "string \<Rightarrow> write_result"
  os_random :: "nat \<Rightarrow> string option"

datatype secret_error = DataDirRefused | SeedNotHex | SeedLength | SecretShort | FileMissing | ReadRefused
  | FileNotHex | FileLength nat | NoRandom | WriteRefused

section \<open>Key files\<close>

definition signing_key_file :: string where "signing_key_file = ''signing.key''"

definition token_key_file :: string where "token_key_file = ''token.key''"

definition seed_size :: nat where "seed_size = 32"

definition read_hex_file :: "os \<Rightarrow> fs \<Rightarrow> string \<Rightarrow> nat \<Rightarrow> secret_error + string" where
  "read_hex_file os d path want =
     (case d path of
        None \<Rightarrow> Inl FileMissing
      | Some raw \<Rightarrow>
          if \<not> os_read os path then Inl ReadRefused
          else case hex_decode (trim_space raw) of
            None \<Rightarrow> Inl FileNotHex
          | Some decoded \<Rightarrow>
              if length decoded \<noteq> want then Inl (FileLength (length decoded)) else Inr decoded)"

definition hex_line :: "string \<Rightarrow> string" where
  "hex_line secret = hex_encode secret @ [newline_byte]"

definition write_hex_file :: "os \<Rightarrow> fs \<Rightarrow> string \<Rightarrow> string \<Rightarrow> secret_error option \<times> fs" where
  "write_hex_file os d path secret =
     (case os_write os path of
        WriteDone \<Rightarrow> (None, d(path \<mapsto> hex_line secret))
      | CreateRefused \<Rightarrow> (Some WriteRefused, d)
      | WriteCut n \<Rightarrow> (Some WriteRefused, d(path \<mapsto> take n (hex_line secret))))"

text \<open>The part the two secrets share: the file, else a new secret. The flag says it was generated.\<close>

definition stored_secret :: "os \<Rightarrow> fs \<Rightarrow> string \<Rightarrow> nat \<Rightarrow> (secret_error + (string \<times> bool)) \<times> fs" where
  "stored_secret os d path n =
     (case read_hex_file os d path n of
        Inr secret \<Rightarrow> (Inr (secret, False), d)
      | Inl e \<Rightarrow>
          if e \<noteq> FileMissing then (Inl e, d)
          else case os_random os n of
            None \<Rightarrow> (Inl NoRandom, d)
          | Some secret \<Rightarrow>
              (case write_hex_file os d path secret of
                 (Some e, d') \<Rightarrow> (Inl e, d') | (None, d') \<Rightarrow> (Inr (secret, True), d')))"

definition resolve_signing_seed :: "os \<Rightarrow> getenv \<Rightarrow> fs \<Rightarrow> (secret_error + (string \<times> bool)) \<times> fs" where
  "resolve_signing_seed os get d =
     (let raw = trim_space (get ''CHAPI_SIGNING_SEED'')
      in if raw \<noteq> [] then
           (case hex_decode raw of
              None \<Rightarrow> (Inl SeedNotHex, d)
            | Some seed \<Rightarrow> if length seed \<noteq> seed_size then (Inl SeedLength, d) else (Inr (seed, False), d))
         else stored_secret os d (os_path os signing_key_file) seed_size)"

definition resolve_token_secret :: "os \<Rightarrow> getenv \<Rightarrow> fs \<Rightarrow> (secret_error + (string \<times> bool)) \<times> fs" where
  "resolve_token_secret os get d =
     (let raw = get ''CHAPI_TOKEN_SECRET''
      in if raw \<noteq> [] then (if length raw < 16 then (Inl SecretShort, d) else (Inr (raw, False), d))
         else stored_secret os d (os_path os token_key_file) 32)"

definition load_secrets :: "os \<Rightarrow> getenv \<Rightarrow> fs \<Rightarrow> config \<Rightarrow> (secret_error + config) \<times> fs" where
  "load_secrets os get d cfg =
     (if \<not> os_mkdir os then (Inl DataDirRefused, d)
      else case resolve_signing_seed os get d of
        (Inl e, d1) \<Rightarrow> (Inl e, d1)
      | (Inr (seed, new_seed), d1) \<Rightarrow>
          (case resolve_token_secret os get d1 of
             (Inl e, d2) \<Rightarrow> (Inl e, d2)
           | (Inr (secret, new_secret), d2) \<Rightarrow>
               (Inr (cfg\<lparr>cf_signing_seed := seed, cf_new_seed := new_seed,
                         cf_token_secret := secret, cf_new_secret := new_secret\<rparr>), d2)))"

section \<open>Key files read back\<close>

lemma graphic_hex [simp]: "graphic (hex_encode s)"
  using hex_encode_ascii [of s] by (fastforce simp: graphic_def)

lemma trim_right_newline: "graphic s \<Longrightarrow> trim_right (s @ [newline_byte]) = s"
  by (simp add: trim_right.simps [of "s @ _"] last_rune_ascii is_space_def trim_right_graphic)

lemma trim_space_line [simp]: "graphic s \<Longrightarrow> s \<noteq> [] \<Longrightarrow> trim_space (s @ [newline_byte]) = s"
  using trim_right_newline [of s]
  by (cases s) (auto simp: trim_space_def graphic_def is_space_def)

text \<open>The interface of a key file: what was written is read.\<close>

lemma read_written:
  assumes "os_read os path" "length secret = n" "0 < n"
  shows "read_hex_file os (d(path \<mapsto> hex_line secret)) path n = Inr secret"
proof -
  have "hex_encode secret \<noteq> []" using assms(2,3) by (cases secret) auto
  then show ?thesis using assms by (simp add: read_hex_file_def hex_line_def)
qed

lemma hex_decode_length: "hex_decode s = Some t \<Longrightarrow> length s = 2 * length t"
  by (induction s arbitrary: t rule: hex_decode.induct) (auto split: option.splits)

text \<open>A key file whose write was cut short is refused, never used as a shorter or other key.\<close>

lemma torn_key_refused:
  assumes "length secret = m" "k < 2 * m"
  shows "\<exists>e. read_hex_file os (d(path \<mapsto> take k (hex_line secret))) path m = Inl e \<and> e \<noteq> FileMissing"
proof -
  have "take k (hex_line secret) = take k (hex_encode secret)" using assms by (simp add: hex_line_def)
  moreover have g: "graphic (take k (hex_encode secret))"
    using graphic_hex [of secret] by (auto simp: graphic_def dest: in_set_takeD)
  moreover have "length t \<noteq> m" if "hex_decode (take k (hex_encode secret)) = Some t" for t
    using hex_decode_length [OF that] assms by auto
  ultimately show ?thesis by (auto simp: read_hex_file_def split: option.splits)
qed
definition random_ok :: "os \<Rightarrow> bool" where
  "random_ok os \<longleftrightarrow> (\<forall>n s. os_random os n = Some s \<longrightarrow> length s = n)"

lemma read_hex_file_length: "read_hex_file os d path n = Inr s \<Longrightarrow> length s = n"
  by (auto simp: read_hex_file_def split: option.splits if_splits)

lemma read_hex_file_again:
  "read_hex_file os d path n = Inr s \<Longrightarrow> d' path = d path \<Longrightarrow> os_read os' path \<Longrightarrow>
     read_hex_file os' d' path n = Inr s"
  by (auto simp: read_hex_file_def split: option.splits if_splits)

lemma stored_secret_done:
  assumes "stored_secret os d path n = (Inr (s, new), d')" "random_ok os" "0 < n"
  shows "length s = n" "q \<noteq> path \<Longrightarrow> d' q = d q"
    "d'' path = d' path \<Longrightarrow> os_read os' path \<Longrightarrow> stored_secret os' d'' path n = (Inr (s, False), d'')"
proof -
  consider (kept) "read_hex_file os d path n = Inr s" "d' = d"
    | (made) "os_random os n = Some s" "d' = d(path \<mapsto> hex_line s)"
    using assms(1)
    by (auto simp: stored_secret_def write_hex_file_def split: sum.splits if_splits option.splits
        write_result.splits)
  then have "length s = n \<and> (q \<noteq> path \<longrightarrow> d' q = d q) \<and>
    (d'' path = d' path \<longrightarrow> os_read os' path \<longrightarrow> read_hex_file os' d'' path n = Inr s)"
  proof cases
    case kept
    then show ?thesis using read_hex_file_length read_hex_file_again by blast
  next
    case made
    then have "length s = n" using assms(2) by (simp add: random_ok_def)
    moreover have "read_hex_file os' d'' path n = Inr s" if "d'' path = d' path" "os_read os' path"
      using read_written [OF that(2) \<open>length s = n\<close> assms(3), of d''] that(1) made(2)
      by (simp add: fun_upd_idem)
    ultimately show ?thesis using made(2) by simp
  qed
  then show "length s = n" "q \<noteq> path \<Longrightarrow> d' q = d q"
    "d'' path = d' path \<Longrightarrow> os_read os' path \<Longrightarrow> stored_secret os' d'' path n = (Inr (s, False), d'')"
    by (auto simp: stored_secret_def)
qed

lemma seed_again:
  assumes "resolve_signing_seed os get d = (Inr (s, new), d')" "random_ok os"
    and "os_path os' = os_path os" "\<forall>p. os_read os' p"
  shows "length s = 32" "q \<noteq> os_path os signing_key_file \<Longrightarrow> d' q = d q"
    "d'' (os_path os signing_key_file) = d' (os_path os signing_key_file) \<Longrightarrow>
       resolve_signing_seed os' get d'' = (Inr (s, False), d'')"
  using assms
  by (auto simp: resolve_signing_seed_def Let_def seed_size_def split: if_splits option.splits
      dest: stored_secret_done)

lemma secret_again:
  assumes "resolve_token_secret os get d = (Inr (s, new), d')" "random_ok os"
    and "os_path os' = os_path os" "\<forall>p. os_read os' p"
  shows "16 \<le> length s" "q \<noteq> os_path os token_key_file \<Longrightarrow> d' q = d q"
    "resolve_token_secret os' get d' = (Inr (s, False), d')"
  using assms
  by (auto simp: resolve_token_secret_def Let_def split: if_splits dest: stored_secret_done)

section \<open>Restarts\<close>

text \<open>The keys survive a restart. After the secrets have been resolved, by whatever of the three
  ways, a later start with the same environment resolves the same seed of 32 bytes and the same token
  secret of at least 16, generates nothing and leaves the data directory alone.\<close>

lemma secrets_survive_restart:
  assumes "load_secrets os get d cfg = (Inr cfg1, d1)" "random_ok os"
    and "os_path os signing_key_file \<noteq> os_path os token_key_file"
    and "os_path os' = os_path os" "os_mkdir os'" "\<forall>p. os_read os' p"
  shows "load_secrets os' get d1 cfg' =
      (Inr (cfg'\<lparr>cf_signing_seed := cf_signing_seed cfg1, cf_new_seed := False,
                 cf_token_secret := cf_token_secret cfg1, cf_new_secret := False\<rparr>), d1) \<and>
    length (cf_signing_seed cfg1) = 32 \<and> 16 \<le> length (cf_token_secret cfg1)"
proof -
  obtain seed a d0 secret b where r: "resolve_signing_seed os get d = (Inr (seed, a), d0)"
    "resolve_token_secret os get d0 = (Inr (secret, b), d1)"
    "cf_signing_seed cfg1 = seed" "cf_token_secret cfg1 = secret"
    using assms(1) by (auto simp: load_secrets_def split: if_splits prod.splits sum.splits)
  note seed = seed_again [OF r(1) assms(2,4,6)]
  note secret = secret_again [OF r(2) assms(2,4,6)]
  have "resolve_signing_seed os' get d1 = (Inr (seed, False), d1)"
    using assms(3) by (intro seed(3) secret(2))
  with secret(3) assms(5) r(3,4) seed(1) secret(1) show ?thesis by (simp add: load_secrets_def)
qed

definition sample_os :: os where
  "sample_os = \<lparr>os_path = (@) ''data/'', os_mkdir = True, os_read = (\<lambda>_. True), os_write = (\<lambda>_. WriteDone),
     os_random = (\<lambda>n. Some (replicate n CHR ''r''))\<rparr>"

lemma sample_os_facts:
  "random_ok sample_os" "os_path sample_os signing_key_file \<noteq> os_path sample_os token_key_file"
  "os_mkdir sample_os" "\<forall>p. os_read sample_os p"
  by (simp_all add: random_ok_def sample_os_def signing_key_file_def token_key_file_def)

lemma sample_secrets:
  "\<exists>d. load_secrets sample_os sample_env Map.empty cfg =
     (Inr (cfg\<lparr>cf_signing_seed := replicate 32 CHR ''r'', cf_new_seed := True,
               cf_token_secret := replicate 32 CHR ''r'', cf_new_secret := True\<rparr>), d)"
  by (simp add: load_secrets_def resolve_signing_seed_def resolve_token_secret_def stored_secret_def
      read_hex_file_def write_hex_file_def sample_os_def sample_env_def trim_space_def trim_right.simps
      signing_key_file_def token_key_file_def seed_size_def)

end
