(* ===== verification/Chapi.thy ===== *)
theory Chapi
  imports HttpApi Secrets
begin

text \<open>
  \<^verbatim>\<open>cmd/chapi/main.go\<close>: how the program is put together from its settings. \<open>boot\<close> is \<open>run\<close> up to the
  point where the server listens; the derivation of an Ed25519 key from its seed is an argument. From
  there on see theory \<open>Process\<close>. Of logging there is only which levels are logged.
\<close>

datatype level = Debug | Info | Warn | Error

definition log_level :: "string \<Rightarrow> level" where
  "log_level name =
     (if name = ''debug'' then Debug else if name = ''warn'' then Warn
      else if name = ''error'' then Error else Info)"

text \<open>The levels are ordered as \<open>slog\<close> numbers them; a handler drops what is below its own.\<close>

fun level_number :: "level \<Rightarrow> int" where
  "level_number Debug = - 4"
| "level_number Info = 0"
| "level_number Warn = 4"
| "level_number Error = 8"

lemma level_number_inj: "level_number a = level_number b \<longleftrightarrow> a = b"
  by (cases a; cases b) simp_all

instantiation level :: linorder
begin

definition less_eq_level :: "level \<Rightarrow> level \<Rightarrow> bool" where
  "less_eq_level a b \<longleftrightarrow> level_number a \<le> level_number b"

definition less_level :: "level \<Rightarrow> level \<Rightarrow> bool" where
  "less_level a b \<longleftrightarrow> level_number a < level_number b"

instance
  by standard (auto simp: less_eq_level_def less_level_def level_number_inj)

end

datatype boot_error = BadConfig "cfg_error list" | BadSecrets secret_error | BadAuth auth_error

record program =
  pg_level :: level
  pg_auth :: authenticator
  pg_signer :: signer
  pg_keys :: key_lookup
  pg_hub :: hub_config
  pg_http :: http_server

definition logged :: "program \<Rightarrow> level \<Rightarrow> bool" where
  "logged p l \<longleftrightarrow> pg_level p \<le> l"

definition hub_settings :: "config \<Rightarrow> hub_config" where
  "hub_settings cfg =
     \<lparr>hc_store = \<lparr>c_max_text = cf_ring_text cfg, c_max_image_bytes = cf_ring_image cfg,
        c_max_backfill = cf_max_backfill cfg\<rparr>,
      hc_image_max = cf_image_max cfg, hc_max_text = cf_text_max cfg, hc_outbound = cf_outbound cfg,
      hc_idle = cf_idle cfg, hc_sweep = cf_sweep cfg\<rparr>"

definition http_settings :: "config \<Rightarrow> http_config" where
  "http_settings cfg =
     \<lparr>ht_origins = cf_origins cfg, ht_trust_proxy = cf_trust_proxy cfg, ht_ping = cf_ping cfg,
      ht_write_timeout = cf_write_timeout cfg, ht_burst = cf_burst cfg, ht_window = cf_window cfg\<rparr>"

definition assemble :: "crypto \<Rightarrow> (string \<Rightarrow> string) \<Rightarrow> int \<Rightarrow> config \<Rightarrow> authenticator \<Rightarrow> program" where
  "assemble cr key_from_seed now cfg a =
     (let sg = \<lparr>s_keyid = cf_key_id cfg, s_priv = key_from_seed (cf_signing_seed cfg)\<rparr>;
          hub = registry_config (hub_settings cfg)
      in \<lparr>pg_level = log_level (cf_log_level cfg), pg_auth = a, pg_signer = sg,
          pg_keys = single_key (cf_key_id cfg) (signer_public cr sg), pg_hub = hub,
          pg_http = new_server (http_settings cfg) a hub sg now\<rparr>)"

definition boot :: "mac_lib \<Rightarrow> crypto \<Rightarrow> (string \<Rightarrow> string) \<Rightarrow> os \<Rightarrow> getenv \<Rightarrow> int \<Rightarrow> fs \<Rightarrow>
    (boot_error + program) \<times> fs" where
  "boot ml cr key_from_seed os get now d =
     (case load get of
        Inl es \<Rightarrow> (Inl (BadConfig es), d)
      | Inr cfg0 \<Rightarrow>
          (case load_secrets os get d cfg0 of
             (Inl e, d') \<Rightarrow> (Inl (BadSecrets e), d')
           | (Inr cfg, d') \<Rightarrow>
               (case new_auth ml (cf_password cfg) (cf_token_secret cfg) (cf_token_epoch cfg) (cf_token_ttl cfg) of
                  Inl e \<Rightarrow> (Inl (BadAuth e), d')
                | Inr a \<Rightarrow> (Inr (assemble cr key_from_seed now cfg a), d'))))"
lemma boot_done:
  assumes "boot ml cr key_from_seed os get now d = (Inr p, d')"
  obtains cfg0 cfg a where "load get = Inr cfg0" "load_secrets os get d cfg0 = (Inr cfg, d')"
    "new_auth ml (cf_password cfg) (cf_token_secret cfg) (cf_token_epoch cfg) (cf_token_ttl cfg) = Inr a"
    "p = assemble cr key_from_seed now cfg a"
  using assms by (auto simp: boot_def split: sum.splits prod.splits)

text \<open>What the settings carry over besides the secrets and whether they are new.\<close>

lemma load_secrets_config:
  assumes "load_secrets os get d cfg0 = (Inr cfg, d')"
  obtains seed ns secret nc where
    "cfg = cfg0\<lparr>cf_signing_seed := seed, cf_new_seed := ns, cf_token_secret := secret, cf_new_secret := nc\<rparr>"
  using assms by (auto simp: load_secrets_def split: if_splits prod.splits sum.splits)

text \<open>Errors are logged whatever the setting; what the HTTP server reports, at the lowest level, only when
  debugging is asked for.\<close>

lemma log_levels:
  "logged (assemble cr key_from_seed now cfg a) Error"
  "logged (assemble cr key_from_seed now cfg a) Debug \<longleftrightarrow> cf_log_level cfg = ''debug''"
  by (simp_all add: logged_def assemble_def Let_def log_level_def less_eq_level_def)

section \<open>Properties\<close>

text \<open>C38: a restart keeps the server's identity. When the program has once booted, booting again in the
  same environment succeeds without changing the data directory, and gives the same authenticator (so
  tokens stay valid), the same signer and the same verifying keys, which know that signer's public key
  (so the archive still verifies), and the same hub configuration.\<close>

theorem restart_keeps_identity:
  assumes "boot ml cr key_from_seed os get now d = (Inr p, d1)" "random_ok os"
    and "os_path os signing_key_file \<noteq> os_path os token_key_file"
    and "os_path os' = os_path os" "os_mkdir os'" "\<forall>p. os_read os' p"
  shows "\<exists>q. boot ml cr key_from_seed os' get later d1 = (Inr q, d1) \<and> pg_auth q = pg_auth p \<and>
    pg_signer q = pg_signer p \<and> pg_keys q = pg_keys p \<and> pg_hub q = pg_hub p \<and>
    pg_keys q (s_keyid (pg_signer p)) = Some (signer_public cr (pg_signer p))"
proof -
  obtain cfg0 cfg a where b: "load get = Inr cfg0" "load_secrets os get d cfg0 = (Inr cfg, d1)"
    "new_auth ml (cf_password cfg) (cf_token_secret cfg) (cf_token_epoch cfg) (cf_token_ttl cfg) = Inr a"
    "p = assemble cr key_from_seed now cfg a"
    using assms(1) by (rule boot_done)
  obtain seed ns secret nc where cfg:
    "cfg = cfg0\<lparr>cf_signing_seed := seed, cf_new_seed := ns, cf_token_secret := secret, cf_new_secret := nc\<rparr>"
    using b(2) by (rule load_secrets_config)
  have "load_secrets os' get d1 cfg0 = (Inr (cfg0\<lparr>cf_signing_seed := seed, cf_new_seed := False,
      cf_token_secret := secret, cf_new_secret := False\<rparr>), d1)"
    using secrets_survive_restart [OF b(2) assms(2-6), of cfg0] cfg by simp
  then show ?thesis
    using b(1,3,4) cfg
    by (simp add: boot_def assemble_def hub_settings_def http_settings_def Let_def single_key_def)
qed

theorem restart_keeps_identity_witness:
  "\<exists>p q d1. boot sample_macs sample_crypto id sample_os sample_env 0 Map.empty = (Inr p, d1) \<and>
    boot sample_macs sample_crypto id sample_os sample_env 9 d1 = (Inr q, d1) \<and> pg_auth q = pg_auth p"
proof -
  have "cf_password (fst (readings sample_env)) = ''hunter2''" "0 < cf_token_ttl (fst (readings sample_env))"
    by (simp_all add: readings_def Let_def sample_env_def env_duration_def second_def)
  then obtain p d1 where "boot sample_macs sample_crypto id sample_os sample_env 0 Map.empty = (Inr p, d1)"
    using sample_secrets [of "fst (readings sample_env)"]
    by (auto simp: boot_def load_sample_env new_auth_def)
  with restart_keeps_identity [OF this sample_os_facts(1,2) refl sample_os_facts(3,4), of 9] show ?thesis by blast
qed

end
