(* ===== verification/HubFair.thy ===== *)
theory HubFair
  imports HubLiveness
begin

text \<open>
  Runs of the hub that go on for ever, under a scheduler that is fair. Theory \<open>HubLiveness\<close> shows that
  the good end can be reached from everywhere; here it is reached, in every run.

  Fair means, for each goroutine: what it can do again and again it does at some time. It is what the Go
  runtime gives: a goroutine that can run is run, the senders that wait on a channel are served in turn,
  and a \<^verbatim>\<open>select\<close> chooses among the cases that are ready at random.
\<close>

section \<open>Fair runs\<close>

definition can :: "('s \<Rightarrow> 's \<Rightarrow> bool) \<Rightarrow> ('s \<Rightarrow> 's \<Rightarrow> bool) \<Rightarrow> 's \<Rightarrow> bool" where
  "can step act s \<longleftrightarrow> (\<exists>t. step s t \<and> act s t)"

definition fair :: "('s \<Rightarrow> 's \<Rightarrow> bool) \<Rightarrow> ('s \<Rightarrow> 's \<Rightarrow> bool) \<Rightarrow> (nat \<Rightarrow> 's) \<Rightarrow> bool" where
  "fair step act run \<longleftrightarrow>
     (\<forall>n. \<exists>m\<ge>n. can step act (run m)) \<longrightarrow> (\<forall>n. \<exists>m\<ge>n. act (run m) (run (Suc m)))"

lemma canI: "step s t \<Longrightarrow> act s t \<Longrightarrow> can step act s"
  unfolding can_def by blast

lemma fairD:
  assumes "fair step act run" "\<And>m. n \<le> m \<Longrightarrow> \<exists>k\<ge>m. can step act (run k)"
  shows "\<exists>m\<ge>n. act (run m) (run (Suc m))"
proof -
  have "\<exists>k\<ge>m. can step act (run k)" for m
  proof -
    have "n \<le> max n m" "m \<le> max n m" by simp_all
    then show ?thesis using assms(2) le_trans by blast
  qed
  then have "\<forall>n. \<exists>m\<ge>n. act (run m) (run (Suc m))"
    using mp [OF assms(1) [unfolded fair_def]] by simp
  then show ?thesis by simp
qed

lemma exI2: "P x \<Longrightarrow> Q x \<Longrightarrow> \<exists>x. P x \<and> Q x"
  by blast

text \<open>A work that no step of a region adds to is, along a run, the same from some point on.\<close>

locale winding =
  fixes step :: "'s \<Rightarrow> 's \<Rightarrow> bool" and region :: "'s \<Rightarrow> bool" and work :: "'s \<Rightarrow> nat"
  assumes stays: "region s \<Longrightarrow> step s t \<Longrightarrow> region t"
    and less_work: "region s \<Longrightarrow> step s t \<Longrightarrow> work t \<le> work s"
begin

lemma stays_along: "(\<And>n. step (run n) (run (Suc n))) \<Longrightarrow> region (run n) \<Longrightarrow> n \<le> m \<Longrightarrow> region (run m)"
proof (induction m)
  case (Suc m)
  then show ?case by (cases "n = Suc m") (auto intro: stays)
qed simp

lemma work_along:
  "(\<And>n. step (run n) (run (Suc n))) \<Longrightarrow> region (run n) \<Longrightarrow> n \<le> m \<Longrightarrow> work (run m) \<le> work (run n)"
proof (induction m)
  case (Suc m)
  show ?case
  proof (cases "n = Suc m")
    case False
    then have "n \<le> m" using Suc.prems(3) by simp
    with Suc have "work (run m) \<le> work (run n)" "region (run m)" by (auto intro: stays_along)
    with less_work [OF _ Suc.prems(1), of m] show ?thesis by simp
  qed simp
qed simp

lemma settles:
  assumes "\<And>n. step (run n) (run (Suc n))" "region (run n)"
  shows "\<exists>m\<ge>n. \<forall>k\<ge>m. work (run k) = work (run m)"
proof -
  obtain m where m: "n \<le> m" "\<And>k. n \<le> k \<Longrightarrow> work (run m) \<le> work (run k)"
    using ex_has_least_nat [of "\<lambda>m. n \<le> m" n "\<lambda>m. work (run m)"] by auto
  moreover have "work (run k) \<le> work (run m)" if "m \<le> k" for k
    using work_along [OF assms(1) stays_along [OF assms m(1)] that] .
  ultimately show ?thesis by (meson le_antisym le_trans)
qed

end

section \<open>What the goroutines do\<close>

text \<open>A room's goroutine goes on from where it does not wait for anyone's call; it takes the stop signal;
  a session's goroutine gets on in a call; the registry takes a note; it reports that it is done. A run
  may also stay where it is, while something else of the process moves.\<close>

definition moves :: "nat \<Rightarrow> hub \<Rightarrow> hub \<Rightarrow> bool" where
  "moves i s t \<longleftrightarrow> phase_of s i \<notin> {Serving, Gone} \<and> phase_of t i \<noteq> phase_of s i"

definition stops :: "nat \<Rightarrow> hub \<Rightarrow> hub \<Rightarrow> bool" where
  "stops i s t \<longleftrightarrow> phase_of s i = Serving \<and> in_stop (hb_inst s i) \<and> phase_of t i = Gone"

fun in_call :: "at \<Rightarrow> bool" where
  "in_call NotConnected = False"
| "in_call (Ready r) = False"
| "in_call Closed = False"
| "in_call a = True"

definition gets_on :: "nat \<Rightarrow> hub \<Rightarrow> hub \<Rightarrow> bool" where
  "gets_on c s t \<longleftrightarrow> in_call (hb_conn s c) \<and> hb_conn t c \<noteq> hb_conn s c"

definition note_goes :: "hub \<Rightarrow> hub \<Rightarrow> bool" where
  "note_goes s t \<longleftrightarrow> \<not> hb_down s \<and> hb_notes s \<noteq> [] \<and> hb_notes t = tl (hb_notes s)"

definition finishes :: "hub \<Rightarrow> hub \<Rightarrow> bool" where
  "finishes s t \<longleftrightarrow> \<not> hb_done s \<and> hb_done t"

definition fair_run :: "hub_config \<Rightarrow> (nat \<Rightarrow> hub) \<Rightarrow> bool" where
  "fair_run cfg run \<longleftrightarrow> (\<forall>n. run (Suc n) = run n \<or> hub_step cfg (run n) (run (Suc n))) \<and>
     (\<forall>i. fair (hub_step cfg) (moves i) run \<and> fair (hub_step cfg) (stops i) run) \<and>
     (\<forall>c. fair (hub_step cfg) (gets_on c) run) \<and>
     fair (hub_step cfg) note_goes run \<and> fair (hub_step cfg) finishes run"

lemma fair_runD:
  assumes "fair_run cfg run"
  shows "run (Suc n) \<noteq> run n \<Longrightarrow> hub_step cfg (run n) (run (Suc n))" "fair (hub_step cfg) (moves i) run"
    "fair (hub_step cfg) (stops i) run" "fair (hub_step cfg) (gets_on c) run"
    "fair (hub_step cfg) note_goes run" "fair (hub_step cfg) finishes run"
  using assms unfolding fair_run_def by blast+

text \<open>The queue of notes does not overflow.\<close>

definition queue_ok :: "hub \<Rightarrow> bool" where
  "queue_ok s \<longleftrightarrow> length (hb_notes s) \<le> activity_queue"

lemma queue_step: "queue_ok s \<Longrightarrow> hub_step cfg s t \<Longrightarrow> queue_ok t"
  by (erule hub_stepE) (auto simp: queue_ok_def evict_room_def take_note_def ask_registry_def notify_activity_def
      close_done_def Let_def split: list.splits option.splits)

text \<open>The next phase of a room.\<close>

fun next_phase :: "phase \<Rightarrow> phase \<Rightarrow> bool" where
  "next_phase Opening ph = (ph \<in> {Serving, FailedOpen})"
| "next_phase Serving ph = (ph \<notin> {Opening, FailedOpen, Draining})"
| "next_phase (Announcing q) ph = (ph = Serving)"
| "next_phase FailedOpen ph = (ph = Draining)"
| "next_phase FailedFatal ph = (ph = Gone)"
| "next_phase Draining ph = (ph = Gone)"
| "next_phase Gone ph = (ph = Opening)"

lemma takes_phase:
  assumes "stop_ok s" "phase_of (registry_takes cfg now ev s) i \<noteq> phase_of s i"
  shows "phase_of s i = Gone \<and> phase_of (registry_takes cfg now ev s) i = Opening"
proof (cases ev)
  case (Cmd cmd)
  with assms(2) stop_okD(1) [OF assms(1), of i] show ?thesis
    by (cases cmd) (auto simp: reg_simps reg_command_def Let_def split: option.splits if_splits)
qed (use assms in \<open>auto simp: reg_simps reg_sweep_def reg_shutdown_def reg_note_def act_on_rooms_append split: if_splits\<close>)

lemma phase_step:
  assumes "sound s" "hub_step cfg s t" "phase_of t i \<noteq> phase_of s i"
  shows "next_phase (phase_of s i) (phase_of t i)"
proof -
  have T: "next_phase (phase_of s i) (phase_of (registry_takes cfg now ev s) i)"
    if "phase_of (registry_takes cfg now ev s) i \<noteq> phase_of s i" for now ev
    using takes_phase [OF soundD(2) [OF assms(1)] that] by simp
  have E: "hb_inst (evict_room cfg now j s) = hb_inst s" for now j
    by (simp add: evict_room_def reg_simps reg_command_def)
  from assms(2,3) show ?thesis
  proof cases
    case (ask c name k now)
    then have "phase_of (registry_takes cfg now (Cmd (JoinRoom c name)) s) i \<noteq> phase_of s i"
      "phase_of t i = phase_of (registry_takes cfg now (Cmd (JoinRoom c name)) s) i"
      using assms(3) by (auto simp: ask_registry_def Let_def split: option.splits if_splits)
    with T [OF this(1)] show ?thesis by simp
  next
    case (note_taken now)
    then obtain n q ns where "hb_notes s = (n, q) # ns" "phase_of t i = phase_of (registry_takes cfg now (Note n q) s) i"
      using assms(3) by (auto simp: take_note_def split: list.splits)
    with assms(3) T [of now "Note n q"] show ?thesis by simp
  qed (auto simp: E notify_activity_def close_done_def split: if_splits intro: T)
qed


section \<open>A run from a reachable state\<close>

definition reached :: "hub_config \<Rightarrow> hub \<Rightarrow> bool" where
  "reached cfg s \<longleftrightarrow> (hub_step cfg)\<^sup>*\<^sup>* hub_start s"

lemma reached_sound: "reached cfg s \<Longrightarrow> sound s"
  unfolding reached_def by (rule sound_machine.reach_inv [OF refl])

lemma queue_start: "queue_ok hub_start"
  by (simp add: queue_ok_def hub_start_def)

lemma reached_queue: "reached cfg s \<Longrightarrow> queue_ok s"
  unfolding reached_def
  by (induction rule: rtranclp_induct) (auto intro: queue_step queue_start)

lemma reached_step: "reached cfg s \<Longrightarrow> hub_step cfg s t \<Longrightarrow> reached cfg t"
  unfolding reached_def by (rule rtranclp.rtrancl_into_rtrancl)

lemma run_reached:
  assumes "fair_run cfg run" "reached cfg (run 0)"
  shows "reached cfg (run n)"
proof (induction n)
  case (Suc n)
  then show ?case
    using reached_step [OF _ fair_runD(1) [OF assms(1)], of n] by (cases "run (Suc n) = run n") simp_all
qed (rule assms(2))

text \<open>The change of a room's phase, if there is one, seen as a step of the run.\<close>

lemma first_change:
  assumes "f n \<noteq> f m" "n \<le> (m :: nat)"
  shows "\<exists>k\<ge>n. k < m \<and> f k = f n \<and> f (Suc k) \<noteq> f n"
  using assms(2,1)
proof (induction m rule: dec_induct)
  case (step k)
  show ?case
  proof (cases "f k = f n")
    case True
    with step show ?thesis by (intro exI [of _ k]) auto
  next
    case False
    with step.IH show ?thesis by (auto intro: less_SucI)
  qed
qed simp

text \<open>A room that waits for nobody's call goes on.\<close>

lemma can_hub: "hub_step cfg s t \<Longrightarrow> act s t \<Longrightarrow> can (hub_step cfg) act s"
  by (rule canI)

lemma can_move:
  assumes "phase_of s i \<in> {Opening, FailedOpen, FailedFatal, Draining}"
  shows "can (hub_step cfg) (moves i) s"
proof -
  have "\<exists>t. hub_step cfg s t \<and> phase_of t i \<noteq> phase_of s i"
  proof (cases "phase_of s i")
    case Opening
    from hub_step.opened [OF this] show ?thesis by (rule exI2) (simp add: Opening)
  next
    case FailedOpen
    from hub_step.evict_open [OF this] show ?thesis by (rule exI2) (simp add: FailedOpen)
  next
    case FailedFatal
    from hub_step.evict_fatal [OF this] show ?thesis by (rule exI2) (simp add: FailedFatal)
  next
    case Draining
    from hub_step.drained [OF this] show ?thesis by (rule exI2) (simp add: Draining)
  qed (use assms in auto)
  with assms show ?thesis unfolding can_def moves_def by auto
qed

lemma can_announce:
  assumes "phase_of s i = Announcing q" "length (hb_notes s) < activity_queue \<or> hb_down s"
  shows "can (hub_step cfg) (moves i) s"
proof -
  have "\<exists>t. hub_step cfg s t \<and> phase_of t i \<noteq> phase_of s i"
  proof (cases "hb_down s")
    case True
    from hub_step.not_noted [OF assms(1) this] show ?thesis by (rule exI2) (simp add: assms(1))
  next
    case False
    with assms(2) have "length (hb_notes s) < activity_queue" by simp
    from hub_step.noted [OF assms(1) this] show ?thesis
      by (rule exI2) (simp add: assms(1) notify_activity_def)
  qed
  with assms(1) show ?thesis unfolding can_def moves_def by auto
qed

lemma can_take: "\<not> hb_down s \<Longrightarrow> hb_notes s \<noteq> [] \<Longrightarrow> can (hub_step cfg) note_goes s"
  by (rule can_hub, rule hub_step.note_taken) (auto simp: note_goes_def take_note_def split: list.split)

text \<open>The queue is not full for ever.\<close>

lemma queue_opens:
  assumes "fair_run cfg run" "reached cfg (run 0)"
  shows "\<exists>m\<ge>n. length (hb_notes (run m)) < activity_queue \<or> hb_down (run m)"
proof (rule ccontr)
  assume no: "\<not> ?thesis"
  have q: "length (hb_notes (run m)) = activity_queue" "\<not> hb_down (run m)" if "n \<le> m" for m
  proof -
    have "queue_ok (run m)" by (rule reached_queue [OF run_reached [OF assms]])
    with no that show "length (hb_notes (run m)) = activity_queue" "\<not> hb_down (run m)"
      by (auto simp: queue_ok_def le_less)
  qed
  have "can (hub_step cfg) note_goes (run m)" if "n \<le> m" for m
    using q [OF that] by (intro can_take) (auto simp: activity_queue_def)
  then obtain m where m: "n \<le> m" "note_goes (run m) (run (Suc m))"
    using fairD [OF fair_runD(5) [OF assms(1)], of n] by blast
  then have "length (hb_notes (run (Suc m))) = length (hb_notes (run m)) - 1" by (simp add: note_goes_def)
  with q(1) [of m] q(1) [of "Suc m"] m(1) show False by (simp add: activity_queue_def)
qed

lemma room_goes_on:
  assumes "fair_run cfg run" "reached cfg (run 0)" "phase_of (run n) i \<notin> {Serving, Gone}"
  shows "\<exists>m\<ge>n. next_phase (phase_of (run n) i) (phase_of (run m) i) \<and> phase_of (run m) i \<noteq> phase_of (run n) i"
proof -
  let ?ph = "\<lambda>m. phase_of (run m) i"
  have "\<exists>m\<ge>n. ?ph m \<noteq> ?ph n"
  proof (rule ccontr)
    assume "\<not> ?thesis"
    then have same: "?ph m = ?ph n" if "n \<le> m" for m using that by blast
    have "\<exists>k\<ge>m. can (hub_step cfg) (moves i) (run k)" if m: "n \<le> m" for m
    proof (cases "\<exists>q. ?ph n = Announcing q")
      case True
      then obtain q where q: "?ph n = Announcing q" ..
      obtain k where k: "m \<le> k" "length (hb_notes (run k)) < activity_queue \<or> hb_down (run k)"
        using queue_opens [OF assms(1,2)] by blast
      have "?ph k = Announcing q" using same [of k] m k(1) q by simp
      from can_announce [OF this k(2)] k(1) show ?thesis by blast
    next
      case False
      then have "?ph m \<in> {Opening, FailedOpen, FailedFatal, Draining}"
        using same [OF m] assms(3) by (cases "?ph n") auto
      from can_move [OF this] show ?thesis by blast
    qed
    then obtain m where "n \<le> m" "moves i (run m) (run (Suc m))"
      using fairD [OF fair_runD(2) [OF assms(1)], of n] by blast
    with same [of m] same [of "Suc m"] show False by (simp add: moves_def)
  qed
  then obtain m where m: "n \<le> m" "?ph n \<noteq> ?ph m" by metis
  from first_change [of ?ph, OF m(2,1)] obtain k where k: "n \<le> k" "?ph k = ?ph n" "?ph (Suc k) \<noteq> ?ph n" by blast
  have "run (Suc k) \<noteq> run k" using k(2,3) by auto
  then have "next_phase (?ph k) (?ph (Suc k))"
    using phase_step [OF reached_sound [OF run_reached [OF assms(1,2)]] fair_runD(1) [OF assms(1)]] k(2,3) by metis
  with k show ?thesis by (intro exI [of _ "Suc k"]) simp
qed

section \<open>Shutdown\<close>

interpretation hub_closing: winding "(hub_step cfg)\<^sup>=\<^sup>=" "\<lambda>s. sound s \<and> hb_down s" hub_work
  for cfg
  by unfold_locales (auto intro: sound_step down_keeps(1) down_work(1))

lemma fair_steps: "fair_run cfg run \<Longrightarrow> (hub_step cfg)\<^sup>=\<^sup>= (run n) (run (Suc n))"
  using fair_runD(1) by fastforce

lemma room_ends:
  assumes run: "fair_run cfg run" "reached cfg (run 0)" and down: "hb_down (run n)"
    and still: "\<And>m. n \<le> m \<Longrightarrow> work_left (phase_of (run m) i) = work_left (phase_of (run n) i)"
  shows "phase_of (run n) i = Gone"
proof (rule ccontr)
  let ?ph = "\<lambda>m. phase_of (run m) i"
  assume go: "?ph n \<noteq> Gone"
  note step = fair_steps [OF run(1)] and snd = reached_sound [OF run_reached [OF run]]
  have dn: "hb_down (run m)" if "n \<le> m" for m
    using hub_closing.stays_along [where run = run and n = n, OF step _ that] snd down by simp
  have w: "work_left (?ph n) = 3"
  proof (rule ccontr)
    assume no: "work_left (?ph n) \<noteq> 3"
    then have ph: "?ph n \<in> {Opening, FailedOpen, FailedFatal, Draining}" using go by (cases "?ph n") auto
    then obtain m where m: "n \<le> m" "next_phase (?ph n) (?ph m)"
      using room_goes_on [OF run, of n i] by fastforce
    with ph still [OF m(1)] have "?ph n = Opening \<and> ?ph m = Opening \<or> False" by auto
    with m(2) show False by simp
  qed
  have serves: "\<exists>k\<ge>m. ?ph k = Serving" if "n \<le> m" for m
  proof (cases "?ph m")
    case (Announcing q)
    with room_goes_on [OF run, of m i] show ?thesis by auto
  qed (use still [OF that] w in auto)
  have "can (hub_step cfg) (stops i) (run k)" if k: "n \<le> k" "?ph k = Serving" for k
  proof -
    have st: "in_stop (hb_inst (run k) i)"
      using stop_okD(2) [OF soundD(2) [OF snd], of k i] dn [OF k(1)] k(2) by auto
    from hub_step.stopped [OF k(2) st] show ?thesis by (rule can_hub) (simp add: stops_def k(2) st)
  qed
  then have "\<exists>k\<ge>m. can (hub_step cfg) (stops i) (run k)" if "n \<le> m" for m
    using serves [OF that] that le_trans by blast
  then obtain m where "n \<le> m" "stops i (run m) (run (Suc m))"
    using fairD [OF fair_runD(3) [OF run(1)], of n] by blast
  with still [of "Suc m"] w show False by (simp add: stops_def)
qed

lemma closing_comes_to_end:
  assumes run: "fair_run cfg run" "reached cfg (run 0)" and down: "hb_down (run n)"
  shows "\<exists>m\<ge>n. hb_done (run m)"
proof -
  note step = fair_steps [OF run(1)] and snd = reached_sound [OF run_reached [OF run]]
  have reg: "sound (run n) \<and> hb_down (run n)" using snd down by simp
  obtain N where N: "n \<le> N" "\<forall>k\<ge>N. hub_work (run k) = hub_work (run N)"
    using hub_closing.settles [where run = run, OF step reg] by blast
  have dn: "hb_down (run m)" if "N \<le> m" for m
    using hub_closing.stays_along [where run = run, OF step reg] that N(1) by simp
  have still: "work_left (phase_of (run m) i) = work_left (phase_of (run N) i)" if "N \<le> m" for m i
    using that
  proof (induction m rule: dec_induct)
    case (step m)
    have "hub_work (run (Suc m)) = hub_work (run m)" using N(2) step(1) by (metis le_SucI)
    with down_work(2) [OF snd fair_runD(1) [OF run(1)] dn [OF step(1)], of i] step(3) show ?case
      by (cases "run (Suc m) = run m") fastforce+
  qed simp
  have gone: "phase_of (run m) i = Gone" if "N \<le> m" for m i
  proof -
    have "phase_of (run N) i = Gone" by (rule room_ends [OF run dn still]) simp_all
    with still [OF that, of i] work_zero [of "phase_of (run m) i"] show ?thesis by simp
  qed
  show ?thesis
  proof (rule ccontr)
    assume "\<not> ?thesis"
    then have nd: "\<not> hb_done (run m)" if "N \<le> m" for m using that N(1) by auto
    have "can (hub_step cfg) finishes (run m)" if "N \<le> m" for m
    proof -
      have "rooms_gone (run m)" using gone [OF that] by (simp add: rooms_gone_def list_all_iff)
      from hub_step.finished [OF dn [OF that] this] show ?thesis
        by (rule can_hub) (simp add: finishes_def nd [OF that] close_done_def)
    qed
    then obtain m where "N \<le> m" "finishes (run m) (run (Suc m))"
      using fairD [OF fair_runD(6) [OF run(1)], of N] by blast
    with nd [of "Suc m"] show False by (simp add: finishes_def)
  qed
qed

section \<open>The calls of a session\<close>

text \<open>What a session has before it, at most, until it reads the next frame.\<close>

fun calls_left :: "at \<Rightarrow> nat" where
  "calls_left (Leaving name i aim) = 9"
| "calls_left (TellingLeft name) = 8"
| "calls_left (Joining name i k) = 2 * k + 2"
| "calls_left (Asking name k) = 2 * k + 1"
| "calls_left (Submitting name i) = 1"
| "calls_left Removing = 1"
| "calls_left a = 0"

lemma calls_step:
  assumes "hub_step cfg s t" "in_call (hb_conn s c)" "hb_conn t c \<noteq> hb_conn s c"
  shows "calls_left (hb_conn t c) < calls_left (hb_conn s c) \<and> hb_conn t c \<noteq> NotConnected"
  using assms
proof cases
  case (leave c' name i aim)
  with assms(2,3) show ?thesis by (cases aim) (auto split: if_splits)
next
  case (ask c' name k now)
  with assms(2,3) show ?thesis by (auto simp: ask_registry_def Let_def split: option.splits if_splits)
next
  case (tell_left c' name now)
  with assms(2,3) show ?thesis by (auto simp: join_attempts_def split: if_splits)
qed (auto simp: evict_room_def take_note_def notify_activity_def close_done_def split: if_splits list.splits)

lemma room_meets:
  assumes "fair_run cfg run" "reached cfg (run 0)"
  shows "\<exists>m\<ge>n. phase_of (run m) i \<in> {Serving, Draining, Gone}"
proof -
  note on = room_goes_on [OF assms]
  have near: "\<exists>m\<ge>n. phase_of (run m) i \<in> {Serving, Draining, Gone}"
    if "phase_of (run n) i \<notin> {Opening}" for n
    using that on [of n i] by (cases "phase_of (run n) i") auto
  show ?thesis
  proof (cases "phase_of (run n) i = Opening")
    case True
    then obtain m where m: "n \<le> m" "phase_of (run m) i \<noteq> Opening" using on [of n i] by auto
    with near [of m] show ?thesis using le_trans by blast
  qed (use near [of n] in simp)
qed

lemma can_get_on:
  assumes "hub_step cfg s (set_conn c a (registry_takes cfg' now ev s)) \<or> hub_step cfg s (set_conn c a s)"
    and "in_call (hb_conn s c)" "a \<noteq> hb_conn s c"
  shows "can (hub_step cfg) (gets_on c) s"
  using assms(1)
proof
  assume "hub_step cfg s (set_conn c a s)"
  then show ?thesis by (rule can_hub) (use assms(2,3) in \<open>simp add: gets_on_def\<close>)
next
  assume "hub_step cfg s (set_conn c a (registry_takes cfg' now ev s))"
  then show ?thesis by (rule can_hub) (use assms(2,3) in \<open>simp add: gets_on_def\<close>)
qed

lemma met_gets_on:
  assumes "hb_conn s c \<in> {Submitting name i, Leaving name i aim, Joining name i k}"
    and "phase_of s i \<in> {Serving, Draining, Gone}"
  shows "can (hub_step cfg) (gets_on c) s"
proof -
  consider "hb_conn s c = Submitting name i" | "hb_conn s c = Leaving name i aim" | "hb_conn s c = Joining name i k"
    using assms(1) by blast
  then show ?thesis
  proof cases
    case 1
    from can_get_on [OF disjI2, OF hub_step.submit [OF this assms(2)]] 1 show ?thesis by simp
  next
    case 2
    from can_get_on [OF disjI2, OF hub_step.leave [OF this assms(2)]] 2 show ?thesis by (cases aim) simp_all
  next
    case 3
    consider "phase_of s i = Serving" | "phase_of s i = Draining" | "phase_of s i = Gone" using assms(2) by blast
    then show ?thesis
    proof cases
      case a: 1
      from can_get_on [OF disjI2, OF hub_step.joined [OF 3 a]] 3 show ?thesis by simp
    next
      case 2
      from can_get_on [OF disjI2, OF hub_step.join_refused [OF 3 2]] 3 show ?thesis by simp
    next
      case a: 3
      from can_get_on [OF disjI2, OF hub_step.join_closed [OF 3 a]] 3 show ?thesis by simp
    qed
  qed
qed

lemma asked_gets_on:
  assumes "hb_conn s c = Asking name k" "\<not> hb_down s \<or> hb_done s"
  shows "can (hub_step cfg) (gets_on c) s"
proof (cases k)
  case 0
  with assms(1) have "hb_conn s c = Asking name 0" by simp
  from can_get_on [OF disjI2, OF hub_step.give_up [OF this]] this show ?thesis by simp
next
  case (Suc k')
  with assms have "hb_conn s c = Asking name (Suc k')" "\<not> hb_down s \<or> hb_done s \<or> validate_room_name name \<noteq> None"
    by auto
  from hub_step.ask [OF this] show ?thesis
    by (rule can_hub) (use \<open>hb_conn s c = Asking name (Suc k')\<close> in
      \<open>auto simp: gets_on_def ask_registry_def Let_def split: option.split\<close>)
qed

lemma session_gets_on:
  assumes run: "fair_run cfg run" "reached cfg (run 0)" and call: "in_call (hb_conn (run n) c)"
  shows "\<exists>m\<ge>n. hb_conn (run m) c \<noteq> hb_conn (run n) c"
proof (rule ccontr)
  assume "\<not> ?thesis"
  then have same: "hb_conn (run m) c = hb_conn (run n) c" if "n \<le> m" for m using that by blast
  have "\<exists>k\<ge>m. can (hub_step cfg) (gets_on c) (run k)" if m: "n \<le> m" for m
  proof (cases "hb_conn (run n) c")
    case (Asking name k)
    obtain k' where k': "m \<le> k'" "\<not> hb_down (run k') \<or> hb_done (run k')"
      using closing_comes_to_end [OF run, of m] le_refl by blast
    have "hb_conn (run k') c = Asking name k" using same [of k'] m k'(1) Asking by simp
    from asked_gets_on [OF this k'(2)] k'(1) show ?thesis by blast
  next
    case (TellingLeft name)
    then have t: "hb_conn (run m) c = TellingLeft name" using same [OF m] by simp
    from can_get_on [OF disjI1, OF hub_step.tell_left [OF t]] t show ?thesis by auto
  next
    case Removing
    then have t: "hb_conn (run m) c = Removing" using same [OF m] by simp
    from can_get_on [OF disjI1, OF hub_step.remove [OF t]] t show ?thesis by auto
  next
    case (Submitting name i)
    obtain k where k: "m \<le> k" "phase_of (run k) i \<in> {Serving, Draining, Gone}" using room_meets [OF run] by blast
    have "hb_conn (run k) c = Submitting name i" using same [of k] m k(1) Submitting by simp
    with met_gets_on [OF _ k(2)] k(1) show ?thesis by blast
  next
    case (Leaving name i aim)
    obtain k where k: "m \<le> k" "phase_of (run k) i \<in> {Serving, Draining, Gone}" using room_meets [OF run] by blast
    have "hb_conn (run k) c = Leaving name i aim" using same [of k] m k(1) Leaving by simp
    with met_gets_on [OF _ k(2)] k(1) show ?thesis by blast
  next
    case (Joining name i j)
    obtain k where k: "m \<le> k" "phase_of (run k) i \<in> {Serving, Draining, Gone}" using room_meets [OF run] by blast
    have "hb_conn (run k) c = Joining name i j" using same [of k] m k(1) Joining by simp
    with met_gets_on [OF _ k(2)] k(1) show ?thesis by blast
  qed (use call in simp_all)
  then obtain m where "n \<le> m" "gets_on c (run m) (run (Suc m))"
    using fairD [OF fair_runD(4) [OF run(1)], of n] by blast
  with same [of m] same [of "Suc m"] show False by (simp add: gets_on_def)
qed

lemma session_returns:
  assumes run: "fair_run cfg run" "reached cfg (run 0)"
  shows "hb_conn (run n) c \<noteq> NotConnected \<Longrightarrow>
    \<exists>m\<ge>n. hb_conn (run m) c = Closed \<or> (\<exists>r. hb_conn (run m) c = Ready r)"
proof (induction "calls_left (hb_conn (run n) c)" arbitrary: n rule: less_induct)
  case less
  show ?case
  proof (cases "in_call (hb_conn (run n) c)")
    case False
    with less.prems show ?thesis by (cases "hb_conn (run n) c") auto
  next
    case True
    obtain m where m: "n \<le> m" "hb_conn (run n) c \<noteq> hb_conn (run m) c"
      using session_gets_on [OF run True] by metis
    obtain k where k: "n \<le> k" "hb_conn (run k) c = hb_conn (run n) c" "hb_conn (run (Suc k)) c \<noteq> hb_conn (run n) c"
      using first_change [of "\<lambda>m. hb_conn (run m) c", OF m(2,1)] by blast
    have "calls_left (hb_conn (run (Suc k)) c) < calls_left (hb_conn (run n) c) \<and> hb_conn (run (Suc k)) c \<noteq> NotConnected"
      using calls_step [OF fair_runD(1) [OF run(1)], of k c] True k(2,3) by (cases "run (Suc k) = run k") simp_all
    with less.hyps [of "Suc k"] obtain m' where "Suc k \<le> m'"
      "hb_conn (run m') c = Closed \<or> (\<exists>r. hb_conn (run m') c = Ready r)" by blast
    with k(1) show ?thesis by (meson le_SucI le_trans Suc_leD)
  qed
qed

section \<open>Properties\<close>

text \<open>C10: shutdown completes. Once the context is cancelled, with whatever rooms open, opening, failing
  or blocked on the registry and whatever the sessions are doing and go on doing: in every run under a
  fair scheduler the registry comes to report that it is done, and from then on every room is gone; and
  it never reports that before every room, with its archive, has closed.\<close>

theorem fair_shutdown:
  assumes "fair_run cfg run" "(hub_step cfg)\<^sup>*\<^sup>* hub_start (run 0)" "hb_down (run n)"
  shows "(\<exists>m\<ge>n. \<forall>k\<ge>m. hb_done (run k) \<and> (\<forall>i. phase_of (run k) i = Gone)) \<and>
    (\<forall>k i. hb_done (run k) \<longrightarrow> phase_of (run k) i = Gone)"
proof -
  have r: "reached cfg (run 0)" using assms(2) by (simp add: reached_def)
  have gone: "phase_of (run k) i = Gone" if "hb_done (run k)" for k i
    using soundD(4) [OF reached_sound [OF run_reached [OF assms(1) r]] that] .
  obtain m where m: "n \<le> m" "hb_done (run m)" using closing_comes_to_end [OF assms(1) r assms(3)] by blast
  have "hb_done (run k)" if "m \<le> k" for k
    using that
  proof (induction k rule: dec_induct)
    case (step k)
    with done_keeps [OF fair_runD(1) [OF assms(1)], of k] show ?case by (cases "run (Suc k) = run k") simp_all
  qed (rule m(2))
  with m(1) gone show ?thesis by blast
qed

text \<open>C11: every call of a session returns. In every run under a fair scheduler, with rooms opening,
  failing, draining or stopped, other clients joining and publishing without end, and the registry
  running, shutting down or done: a connected session whose frame or hang-up is being handled comes to
  read its next frame, or is closed.\<close>

theorem fair_calls_return:
  assumes "fair_run cfg run" "(hub_step cfg)\<^sup>*\<^sup>* hub_start (run 0)" "hb_conn (run n) c \<noteq> NotConnected"
  shows "\<exists>m\<ge>n. hb_conn (run m) c = Closed \<or> (\<exists>r. hb_conn (run m) c = Ready r)"
  using session_returns [OF assms(1) _ assms(3)] assms(2) by (simp add: reached_def)

text \<open>A fair run: one that comes to rest where nothing is left to do.\<close>

definition at_rest :: "hub \<Rightarrow> bool" where
  "at_rest s \<longleftrightarrow> hb_down s \<and> hb_done s \<and> (\<forall>i. phase_of s i = Gone) \<and> (\<forall>c. \<not> in_call (hb_conn s c))"

lemma fair_vacuous: "(\<And>m. N \<le> m \<Longrightarrow> \<not> can step act (run m)) \<Longrightarrow> fair step act run"
  unfolding fair_def by blast

lemma comes_to_rest:
  assumes "(hub_step cfg)\<^sup>*\<^sup>* s u" "at_rest u"
  shows "\<exists>run. fair_run cfg run \<and> run 0 = s"
proof -
  obtain N where "(hub_step cfg ^^ N) s u" using rtranclp_imp_relpowp [OF assms(1)] by blast
  then obtain f where f: "f 0 = s" "f N = u" "\<And>i. i < N \<Longrightarrow> hub_step cfg (f i) (f (Suc i))"
    by (auto simp: relpowp_fun_conv)
  define run where "run = (\<lambda>m. f (min m N))"
  have rest: "run m = u" if "N \<le> m" for m using that f(2) by (simp add: run_def min_def)
  have "hub_step cfg u u"
    using hub_step.tick [of cfg u 0] assms(2) by (simp add: takes_down at_rest_def)
  then have "hub_step cfg (run m) (run (Suc m))" for m
    using f(2) f(3) [of m] by (cases "m < N") (simp_all add: run_def min_def not_less)
  moreover have "fair (hub_step cfg) act run"
    if "\<And>t. \<not> act u t" for act
    by (rule fair_vacuous [where N = N]) (simp add: rest can_def that)
  ultimately have "fair_run cfg run"
    using assms(2) by (simp add: fair_run_def moves_def stops_def gets_on_def note_goes_def finishes_def at_rest_def)
  moreover have "run 0 = s" using f(1) by (simp add: run_def)
  ultimately show ?thesis by blast
qed

lemma sample_fair_run: "\<exists>run. fair_run cfg run \<and> run 0 = asking_while_down cfg"
proof -
  let ?s = "asking_while_down cfg"
  note a = asking_while_down_facts [of cfg]
  have others: "hb_conn ?s c = NotConnected" if "c \<noteq> 1" for c
    using that by (simp add: asking_while_down_def one_in_room_def ask_registry_def Let_def)
      (simp add: hub_start_def split: option.split)
  have "sound ?s" using refl a(1) by (rule sound_machine.reach_inv)
  from winds_down [OF this a(2)] obtain t where t: "(hub_step cfg)\<^sup>*\<^sup>* ?s t" "hb_done t" "\<forall>i. phase_of t i = Gone"
    "hb_conn t = hb_conn ?s" by blast
  have dt: "hb_down t" using soundD(3) [OF sound_machine.inv_steps [OF t(1) \<open>sound ?s\<close>] t(2)] .
  have "hub_step cfg t (ask_registry cfg 0 1 ''r'' 2 t)"
    using hub_step.ask [of t 1 "''r''" 2 cfg 0] t(2,4) a(3) by (simp add: eval_nat_numeral)
  moreover have "ask_registry cfg 0 1 ''r'' 2 t = set_conn 1 (Ready None) t" using dt by (simp add: ask_registry_def)
  ultimately have "(hub_step cfg)\<^sup>*\<^sup>* ?s (set_conn 1 (Ready None) t)"
    using t(1) by (simp add: rtranclp.rtrancl_into_rtrancl)
  moreover have "at_rest (set_conn 1 (Ready None) t)"
    using t(2-4) dt others by (auto simp: at_rest_def set_conn_def)
  ultimately show ?thesis by (rule comes_to_rest)
qed

theorem fair_shutdown_witness:
  "\<exists>run m. fair_run (sv_cfg sample_server) run \<and> run 0 = asking_while_down (sv_cfg sample_server) \<and>
    hb_done (run m) \<and> phase_of (run m) 0 = Gone"
proof -
  obtain run where r: "fair_run (sv_cfg sample_server) run" "run 0 = asking_while_down (sv_cfg sample_server)"
    using sample_fair_run by blast
  from fair_shutdown [OF r(1), of 0] asking_while_down_facts(1,2) r(2) r(1) show ?thesis by (metis order_refl)
qed

theorem fair_calls_return_witness:
  "\<exists>run m. fair_run (sv_cfg sample_server) run \<and> hb_conn (run 0) 1 = Asking ''r'' 3 \<and> hb_down (run 0) \<and>
    (hb_conn (run m) 1 = Closed \<or> (\<exists>r. hb_conn (run m) 1 = Ready r))"
proof -
  note a = asking_while_down_facts [of "sv_cfg sample_server"]
  obtain run where r: "fair_run (sv_cfg sample_server) run" "run 0 = asking_while_down (sv_cfg sample_server)"
    using sample_fair_run by blast
  have "(hub_step (sv_cfg sample_server))\<^sup>*\<^sup>* hub_start (run 0)" "hb_conn (run 0) 1 \<noteq> NotConnected"
    using a(1,3) r(2) by simp_all
  from fair_calls_return [OF r(1) this]
  obtain m where "hb_conn (run m) 1 = Closed \<or> (\<exists>r. hb_conn (run m) 1 = Ready r)" by blast
  moreover have "hb_conn (run 0) 1 = Asking ''r'' 3" "hb_down (run 0)" using a(2,3) r(2) by simp_all
  ultimately show ?thesis using r(1) by blast
qed

end
