(* ===== verification/Process.thy ===== *)
theory Process
  imports Chapi HubFair
begin

text \<open>
  \<^verbatim>\<open>cmd/chapi/main.go\<close> from listening to exit: the goroutine that serves, the one that waits for a
  signal, and the order in which the program is taken down, over the hub of theory \<open>Hub\<close>.

  The HTTP server is the library's: it may fail at any moment, once it is being closed it may end
  normally, and closing it may succeed or fail. The process is over when \<open>run\<close> returns.
\<close>

section \<open>The process\<close>

record listener =
  ls_addr :: string
  ls_header_timeout :: int
  ls_idle_timeout :: int

definition listen_settings :: "config \<Rightarrow> listener" where
  "listen_settings cfg =
     \<lparr>ls_addr = cf_addr cfg, ls_header_timeout = 10 * second, ls_idle_timeout = 120 * second\<rparr>"

text \<open>Where \<open>run\<close> is; what it returns is its error.\<close>

datatype main_at = Selecting | WaitingForHub | ClosingServer | AwaitingServe | Returned "string option"

text \<open>\<open>pr_serve\<close> is the channel \<open>serveErr\<close>, which holds one value; \<open>pr_signalled\<close> remembers that the
  wait ended with a signal.\<close>

record proc =
  pr_hub :: hub
  pr_main :: main_at
  pr_signalled :: bool
  pr_cancelled :: bool
  pr_listening :: bool
  pr_serve :: "string option option"

definition proc_start :: proc where
  "proc_start = \<lparr>pr_hub = hub_start, pr_main = Selecting, pr_signalled = False, pr_cancelled = False,
     pr_listening = True, pr_serve = None\<rparr>"

fun exited :: "main_at \<Rightarrow> bool" where
  "exited (Returned r) = True"
| "exited m = False"

definition exit_code :: "string option \<Rightarrow> int" where
  "exit_code r = (if r = None then 0 else 1)"

text \<open>The serving goroutine ends with \<open>r\<close>: no error for a server that was closed.\<close>

definition serve_ends :: "string option \<Rightarrow> proc \<Rightarrow> proc" where
  "serve_ends r p = p\<lparr>pr_listening := False, pr_serve := Some r\<rparr>"

definition on_serve_end :: "string option \<Rightarrow> proc \<Rightarrow> proc" where
  "on_serve_end r p = p\<lparr>pr_main := Returned r, pr_serve := None, pr_cancelled := True\<rparr>"

definition on_signal :: "proc \<Rightarrow> proc" where
  "on_signal p = p\<lparr>pr_main := WaitingForHub, pr_signalled := True, pr_cancelled := True\<rparr>"

definition on_server_closed :: "string option \<Rightarrow> proc \<Rightarrow> proc" where
  "on_server_closed r p =
     p\<lparr>pr_main := (case r of None \<Rightarrow> AwaitingServe | Some e \<Rightarrow> Returned (Some (''shutdown: '' @ e)))\<rparr>"

inductive proc_step :: "hub_config \<Rightarrow> proc \<Rightarrow> proc \<Rightarrow> bool" for cfg where
  hub: "\<not> exited (pr_main p) \<Longrightarrow> hub_step cfg (pr_hub p) h \<Longrightarrow>
    (hb_down h \<longrightarrow> hb_down (pr_hub p) \<or> pr_cancelled p) \<Longrightarrow> proc_step cfg p (p\<lparr>pr_hub := h\<rparr>)"
| serve_fails: "\<not> exited (pr_main p) \<Longrightarrow> pr_listening p \<Longrightarrow> proc_step cfg p (serve_ends (Some e) p)"
| serve_closed: "pr_main p \<in> {ClosingServer, AwaitingServe} \<Longrightarrow> pr_listening p \<Longrightarrow>
    proc_step cfg p (serve_ends None p)"
| select_serve: "pr_main p = Selecting \<Longrightarrow> pr_serve p = Some r \<Longrightarrow> proc_step cfg p (on_serve_end r p)"
| select_signal: "pr_main p = Selecting \<Longrightarrow> proc_step cfg p (on_signal p)"
| hub_done: "pr_main p = WaitingForHub \<Longrightarrow> hb_done (pr_hub p) \<Longrightarrow> proc_step cfg p (p\<lparr>pr_main := ClosingServer\<rparr>)"
| server_closed: "pr_main p = ClosingServer \<Longrightarrow> proc_step cfg p (on_server_closed r p)"
| serve_result: "pr_main p = AwaitingServe \<Longrightarrow> pr_serve p = Some r \<Longrightarrow> proc_step cfg p (on_serve_end r p)"

inductive_cases proc_stepE: "proc_step cfg p q"

lemmas proc_moves = serve_ends_def on_serve_end_def on_signal_def on_server_closed_def

section \<open>The invariant\<close>

definition rooms_closed :: "hub \<Rightarrow> bool" where
  "rooms_closed s \<longleftrightarrow> hb_done s \<and> (\<forall>i. phase_of s i = Gone)"

text \<open>Past the wait for the hub, the hub is done; a value is on its way to \<open>serveErr\<close> or in it.\<close>

definition past_hub :: "main_at \<Rightarrow> bool" where
  "past_hub m \<longleftrightarrow> m \<notin> {Selecting, WaitingForHub}"

definition proc_inv :: "proc \<Rightarrow> bool" where
  "proc_inv p \<longleftrightarrow> sound (pr_hub p) \<and>
     (pr_signalled p \<longrightarrow> pr_cancelled p \<and> pr_main p \<noteq> Selecting \<and> (past_hub (pr_main p) \<longrightarrow> hb_done (pr_hub p))) \<and>
     (pr_main p \<in> {Selecting, WaitingForHub, ClosingServer, AwaitingServe} \<longrightarrow> pr_listening p \<or> pr_serve p \<noteq> None) \<and>
     (\<not> pr_signalled p \<longrightarrow> pr_main p \<in> {Selecting} \<union> range Returned)"

lemma proc_inv_start: "proc_inv proc_start"
  using sound_start by (simp add: proc_inv_def proc_start_def)

lemma proc_inv_step:
  assumes "proc_inv p" "proc_step cfg p q"
  shows "proc_inv q"
  using assms(2,1)
proof cases
  case (hub h)
  then show ?thesis using assms(1) sound_step [of "pr_hub p" cfg h] done_keeps [of cfg "pr_hub p" h]
    by (auto simp: proc_inv_def)
qed (auto simp: proc_inv_def proc_moves past_hub_def split: option.splits)

interpretation proc_machine: invariant_machine "\<lambda>p. p = proc_start" "proc_step cfg" proc_inv
  for cfg
  by unfold_locales (auto intro: proc_inv_start proc_inv_step)

section \<open>The way out\<close>

lemma hub_runs:
  assumes "(hub_step cfg)\<^sup>*\<^sup>* (pr_hub p) h" "\<not> exited (pr_main p)" "pr_cancelled p"
  shows "(proc_step cfg)\<^sup>*\<^sup>* p (p\<lparr>pr_hub := h\<rparr>)"
  using assms(1)
proof (induction rule: rtranclp_induct)
  case (step g h)
  have "proc_step cfg (p\<lparr>pr_hub := g\<rparr>) (p\<lparr>pr_hub := g\<rparr>\<lparr>pr_hub := h\<rparr>)"
    using step(2) assms(2,3) by (intro proc_step.hub) simp_all
  with step.IH show ?case by simp
qed simp

text \<open>\<open>ends_well\<close>: a run to the end, without an error if the server was still listening.\<close>

definition ends_well :: "hub_config \<Rightarrow> proc \<Rightarrow> bool" where
  "ends_well cfg p \<longleftrightarrow> (\<exists>q r. (proc_step cfg)\<^sup>*\<^sup>* p q \<and> pr_main q = Returned r \<and> (pr_listening p \<longrightarrow> r = None))"

lemma ends_wellI:
  "(proc_step cfg)\<^sup>*\<^sup>* p q \<Longrightarrow> pr_main q = Returned r \<Longrightarrow> (pr_listening p \<Longrightarrow> r = None) \<Longrightarrow> ends_well cfg p"
  unfolding ends_well_def by blast

lemma ends_well_steps:
  assumes "(proc_step cfg)\<^sup>*\<^sup>* p q" "pr_listening p \<Longrightarrow> pr_listening q" "ends_well cfg q"
  shows "ends_well cfg p"
proof -
  obtain t r where t: "(proc_step cfg)\<^sup>*\<^sup>* q t" "pr_main t = Returned r" "pr_listening q \<longrightarrow> r = None"
    using assms(3) unfolding ends_well_def by blast
  from rtranclp_trans [OF assms(1) t(1)] t(2) show ?thesis by (rule ends_wellI) (use t(3) assms(2) in blast)
qed

lemma awaiting_ends:
  assumes "proc_inv p" "pr_main p = AwaitingServe"
  shows "ends_well cfg p"
proof (cases "pr_listening p")
  case True
  let ?q = "serve_ends None p"
  have "proc_step cfg p ?q" using assms(2) True by (intro proc_step.serve_closed) simp_all
  moreover have "proc_step cfg ?q (on_serve_end None ?q)"
    using assms(2) by (intro proc_step.serve_result) (simp_all add: serve_ends_def)
  ultimately have "(proc_step cfg)\<^sup>*\<^sup>* p (on_serve_end None ?q)" by simp
  then show ?thesis by (rule ends_wellI) (simp_all add: on_serve_end_def)
next
  case False
  then obtain r where "pr_serve p = Some r" using assms by (auto simp: proc_inv_def)
  then have "(proc_step cfg)\<^sup>*\<^sup>* p (on_serve_end r p)"
    using proc_step.serve_result [OF assms(2), of r cfg] by simp
  then show ?thesis
    by (rule ends_wellI) (use False in \<open>simp_all add: on_serve_end_def\<close>)
qed

lemma closing_ends:
  assumes "proc_inv p" "pr_main p = ClosingServer"
  shows "ends_well cfg p"
proof (rule ends_well_steps)
  have step: "proc_step cfg p (on_server_closed None p)" using assms(2) by (rule proc_step.server_closed)
  then show "(proc_step cfg)\<^sup>*\<^sup>* p (on_server_closed None p)" by simp
  show "ends_well cfg (on_server_closed None p)"
    using proc_inv_step [OF assms(1) step] by (rule awaiting_ends) (simp add: on_server_closed_def)
qed (simp add: on_server_closed_def)

lemma waiting_ends:
  assumes "proc_inv p" "pr_main p = WaitingForHub"
  shows "ends_well cfg p"
proof -
  have p: "sound (pr_hub p)" "pr_cancelled p" using assms by (auto simp: proc_inv_def)
  let ?h0 = "registry_takes cfg 0 Cancelled (pr_hub p)"
  have step: "hub_step cfg (pr_hub p) ?h0" by (rule hub_step.cancel)
  have "hb_down ?h0" by (simp add: reg_simps)
  then obtain h where h: "(hub_step cfg)\<^sup>*\<^sup>* ?h0 h" "hb_done h"
    using winds_down [OF sound_step [OF p(1) step]] by blast
  have run: "(hub_step cfg)\<^sup>*\<^sup>* (pr_hub p) h" using step h(1) by (rule converse_rtranclp_into_rtranclp)
  let ?q = "p\<lparr>pr_hub := h\<rparr>"
  have pq: "(proc_step cfg)\<^sup>*\<^sup>* p ?q" using hub_runs [OF run _ p(2)] assms(2) by simp
  have qc: "proc_step cfg ?q (?q\<lparr>pr_main := ClosingServer\<rparr>)" using assms(2) h(2) by (intro proc_step.hub_done) simp_all
  have "proc_inv (?q\<lparr>pr_main := ClosingServer\<rparr>)"
    using proc_inv_step [OF proc_machine.inv_steps [OF pq assms(1)] qc] .
  then have "ends_well cfg (?q\<lparr>pr_main := ClosingServer\<rparr>)" by (rule closing_ends) simp
  from ends_well_steps [OF rtranclp.rtrancl_into_rtrancl [OF pq qc] _ this] show ?thesis by simp
qed

section \<open>Fair runs\<close>

text \<open>Until the process has exited, the hub runs under a fair scheduler; a registry whose context is
  cancelled sees it; the main goroutine goes on when it can; and a server being closed stops serving.\<close>

definition cancels :: "proc \<Rightarrow> proc \<Rightarrow> bool" where
  "cancels p q \<longleftrightarrow> \<not> hb_down (pr_hub p) \<and> hb_down (pr_hub q)"

definition main_moves :: "proc \<Rightarrow> proc \<Rightarrow> bool" where
  "main_moves p q \<longleftrightarrow> pr_main q \<noteq> pr_main p"

definition serve_returns :: "proc \<Rightarrow> proc \<Rightarrow> bool" where
  "serve_returns p q \<longleftrightarrow> pr_listening p \<and> \<not> pr_listening q"

definition fair_proc :: "hub_config \<Rightarrow> (nat \<Rightarrow> proc) \<Rightarrow> bool" where
  "fair_proc cfg run \<longleftrightarrow>
     (\<forall>n. if exited (pr_main (run n)) then run (Suc n) = run n else proc_step cfg (run n) (run (Suc n))) \<and>
     ((\<forall>n. \<not> exited (pr_main (run n))) \<longrightarrow>
        fair_run cfg (\<lambda>n. pr_hub (run n)) \<and> fair (proc_step cfg) cancels run \<and>
        fair (proc_step cfg) main_moves run \<and> fair (proc_step cfg) serve_returns run)"

lemma exited_closed: "proc_inv p \<Longrightarrow> pr_signalled p \<Longrightarrow> exited (pr_main p) \<Longrightarrow> rooms_closed (pr_hub p)"
  using soundD(4) [of "pr_hub p"] by (cases "pr_main p") (auto simp: proc_inv_def past_hub_def rooms_closed_def)

lemma signalled_step: "proc_step cfg p q \<Longrightarrow> pr_signalled p \<Longrightarrow> pr_signalled q"
  by (erule proc_stepE) (auto simp: proc_moves)

lemma proc_hub:
  assumes "(proc_step cfg)\<^sup>*\<^sup>* p q"
  shows "(hub_step cfg)\<^sup>*\<^sup>* (pr_hub p) (pr_hub q)"
  using assms
proof (induction rule: rtranclp_induct)
  case (step q r)
  from step(2) have "pr_hub r = pr_hub q \<or> hub_step cfg (pr_hub q) (pr_hub r)"
    by cases (auto simp: proc_moves)
  with step.IH show ?case by (auto intro: rtranclp.rtrancl_into_rtrancl)
qed simp

text \<open>How far the main goroutine has to go.\<close>

fun main_left :: "main_at \<Rightarrow> nat" where
  "main_left Selecting = 4"
| "main_left WaitingForHub = 3"
| "main_left ClosingServer = 2"
| "main_left AwaitingServe = 1"
| "main_left (Returned r) = 0"

lemma main_step: "proc_step cfg p q \<Longrightarrow> pr_main q \<noteq> pr_main p \<Longrightarrow> main_left (pr_main q) < main_left (pr_main p)"
  by (erule proc_stepE) (auto simp: proc_moves split: option.splits)

text \<open>The runs considered: after a signal, and never out.\<close>

definition endless :: "hub_config \<Rightarrow> (nat \<Rightarrow> proc) \<Rightarrow> nat \<Rightarrow> bool" where
  "endless cfg run n \<longleftrightarrow> fair_proc cfg run \<and> (proc_step cfg)\<^sup>*\<^sup>* proc_start (run 0) \<and>
     pr_signalled (run n) \<and> (\<forall>k. \<not> exited (pr_main (run k)))"

lemma run_facts:
  assumes "fair_proc cfg run" "(proc_step cfg)\<^sup>*\<^sup>* proc_start (run 0)" "pr_signalled (run n)" "n \<le> k"
  shows "proc_inv (run k) \<and> pr_signalled (run k)"
proof -
  have step: "run (Suc k) = run k \<or> proc_step cfg (run k) (run (Suc k))" for k
    using assms(1) unfolding fair_proc_def by meson
  have inv: "proc_inv (run k)" for k
  proof (induction k)
    case 0
    show ?case using assms(2) by (intro proc_machine.reach_inv [where cfg = cfg, OF refl])
  next
    case (Suc k)
    with step [of k] show ?case by (auto intro: proc_inv_step)
  qed
  have "pr_signalled (run k)"
    using assms(4)
  proof (induction k rule: dec_induct)
    case (step k)
    with \<open>\<And>k. run (Suc k) = run k \<or> proc_step cfg (run k) (run (Suc k))\<close> [of k] show ?case
      by (auto intro: signalled_step)
  qed (rule assms(3))
  with inv show ?thesis by blast
qed

lemma endlessD:
  assumes "endless cfg run n"
  shows "proc_step cfg (run k) (run (Suc k))" "fair_run cfg (\<lambda>n. pr_hub (run n))"
    "fair (proc_step cfg) cancels run" "fair (proc_step cfg) main_moves run" "fair (proc_step cfg) serve_returns run"
    "\<not> exited (pr_main (run k))" "reached cfg (pr_hub (run 0))" "n \<le> k \<Longrightarrow> proc_inv (run k)"
    "n \<le> k \<Longrightarrow> pr_signalled (run k)"
proof -
  show step: "proc_step cfg (run k) (run (Suc k))" for k using assms unfolding endless_def fair_proc_def by meson
  show "fair_run cfg (\<lambda>n. pr_hub (run n))" "fair (proc_step cfg) cancels run"
    "fair (proc_step cfg) main_moves run" "fair (proc_step cfg) serve_returns run" "\<not> exited (pr_main (run k))"
    using assms unfolding endless_def fair_proc_def by blast+
  show "reached cfg (pr_hub (run 0))"
    using assms proc_hub [of cfg proc_start "run 0"] by (simp add: endless_def reached_def proc_start_def)
  show "n \<le> k \<Longrightarrow> proc_inv (run k)" "n \<le> k \<Longrightarrow> pr_signalled (run k)"
    using run_facts [of cfg run n k] assms unfolding endless_def by blast+
qed

lemma can_proc: "proc_step cfg p q \<Longrightarrow> act p q \<Longrightarrow> can (proc_step cfg) act p"
  by (rule canI)

text \<open>A hub whose context is cancelled comes to be done, again and again.\<close>

lemma endless_hub_done:
  assumes E: "endless cfg run n" and m: "n \<le> m" "\<And>k. m \<le> k \<Longrightarrow> pr_cancelled (run k)"
  shows "\<exists>k\<ge>m. hb_done (pr_hub (run k))"
proof -
  note D = endlessD [OF E]
  have "\<exists>k\<ge>m. hb_down (pr_hub (run k))"
  proof (rule ccontr)
    assume "\<not> ?thesis"
    then have up: "\<not> hb_down (pr_hub (run k))" if "m \<le> k" for k using that by blast
    have "can (proc_step cfg) cancels (run k)" if "m \<le> k" for k
    proof -
      let ?h = "registry_takes cfg 0 Cancelled (pr_hub (run k))"
      have "proc_step cfg (run k) (run k\<lparr>pr_hub := ?h\<rparr>)"
        using D(6) hub_step.cancel m(2) [OF that] by (intro proc_step.hub) auto
      then show ?thesis
        by (rule can_proc) (use up [OF that] in \<open>simp add: cancels_def reg_simps\<close>)
    qed
    then obtain k where "m \<le> k" "cancels (run k) (run (Suc k))" using fairD [OF D(3), of m] by blast
    with up [of "Suc k"] show False by (simp add: cancels_def)
  qed
  then obtain k where k: "m \<le> k" "hb_down (pr_hub (run k))" by blast
  from closing_comes_to_end [OF D(2,7) k(2)] obtain l where "k \<le> l" "hb_done (pr_hub (run l))" by blast
  with k(1) le_trans show ?thesis by blast
qed

text \<open>The main goroutine does not stay anywhere on its way out.\<close>

lemma endless_main_moves:
  assumes E: "endless cfg run n" and m: "n \<le> m"
  shows "\<exists>k\<ge>m. pr_main (run k) \<noteq> pr_main (run m)"
proof (rule ccontr)
  assume "\<not> ?thesis"
  then have same: "pr_main (run k) = pr_main (run m)" if "m \<le> k" for k using that by blast
  note D = endlessD [OF E]
  have canc: "pr_cancelled (run k)" if "n \<le> k" for k
    using D(8,9) [OF that] by (simp add: proc_inv_def)
  have "\<exists>l\<ge>k. can (proc_step cfg) main_moves (run l)" if k: "m \<le> k" for k
  proof (cases "pr_main (run m)")
    case Selecting
    with D(8,9) [OF m] show ?thesis by (simp add: proc_inv_def)
  next
    case WaitingForHub
    have "n \<le> k" using m k by simp
    with canc obtain l where l: "k \<le> l" "hb_done (pr_hub (run l))"
      using endless_hub_done [OF E, of k] le_trans by blast
    have w: "pr_main (run l) = WaitingForHub" using same [of l] k l(1) WaitingForHub by simp
    have "can (proc_step cfg) main_moves (run l)"
      by (rule can_proc [OF proc_step.hub_done [OF w l(2)]]) (simp add: main_moves_def w)
    with l(1) show ?thesis by blast
  next
    case ClosingServer
    then have w: "pr_main (run k) = ClosingServer" using same [OF k] by simp
    have "can (proc_step cfg) main_moves (run k)"
      by (rule can_proc [OF proc_step.server_closed [OF w, of _ None]]) (simp add: main_moves_def w on_server_closed_def)
    then show ?thesis by blast
  next
    case AwaitingServe
    then have w: "pr_main (run l) = AwaitingServe" if "k \<le> l" for l using same [of l] k that by simp
    have "\<exists>l\<ge>k. \<not> pr_listening (run l)"
    proof (rule ccontr)
      assume "\<not> ?thesis"
      then have ls: "pr_listening (run l)" if "k \<le> l" for l using that by blast
      have "can (proc_step cfg) serve_returns (run l)" if "k \<le> l" for l
        by (rule can_proc [OF proc_step.serve_closed]) (use ls [OF that] w [OF that] in \<open>simp_all add: serve_returns_def serve_ends_def\<close>)
      then obtain l where "k \<le> l" "serve_returns (run l) (run (Suc l))" using fairD [OF D(5), of k] by blast
      with ls [of "Suc l"] show False by (simp add: serve_returns_def)
    qed
    then obtain l where l: "k \<le> l" "\<not> pr_listening (run l)" by blast
    have "n \<le> l" using m k l(1) by simp
    with l obtain r where r: "pr_serve (run l) = Some r" using D(8) [of l] w [of l] by (auto simp: proc_inv_def)
    have "can (proc_step cfg) main_moves (run l)"
      by (rule can_proc [OF proc_step.serve_result [OF w [OF l(1)] r]])
        (simp add: main_moves_def w [OF l(1)] on_serve_end_def)
    with l(1) show ?thesis by blast
  next
    case (Returned r)
    with D(6) [of m] show ?thesis by simp
  qed
  then obtain k where "m \<le> k" "main_moves (run k) (run (Suc k))" using fairD [OF D(4), of m] by blast
  with same [of k] same [of "Suc k"] show False by (simp add: main_moves_def)
qed

lemma not_endless: "\<not> endless cfg run n"
proof
  assume E: "endless cfg run n"
  note D = endlessD [OF E]
  have False if "n \<le> m" for m
    using that
  proof (induction "main_left (pr_main (run m))" arbitrary: m rule: less_induct)
    case less
    obtain k where k: "m \<le> k" "pr_main (run m) \<noteq> pr_main (run k)" using endless_main_moves [OF E less.prems] by metis
    from first_change [of "\<lambda>m. pr_main (run m)", OF k(2,1)]
    obtain l where l: "m \<le> l" "pr_main (run l) = pr_main (run m)" "pr_main (run (Suc l)) \<noteq> pr_main (run m)" by blast
    have "main_left (pr_main (run (Suc l))) < main_left (pr_main (run m))"
      using main_step [OF D(1), of l] l(2,3) by simp
    moreover have "n \<le> Suc l" using less.prems l(1) by simp
    ultimately show ?case by (rule less.hyps)
  qed
  then show False by blast
qed

text \<open>The way out is there in every state, and it has code 0 if the server was listening until it was
  closed.\<close>

lemma process_can_end:
  assumes "(proc_step cfg)\<^sup>*\<^sup>* proc_start p" "pr_signalled p"
  shows "if exited (pr_main p) then rooms_closed (pr_hub p)
    else \<exists>q r. (proc_step cfg)\<^sup>*\<^sup>* p q \<and> pr_main q = Returned r \<and> rooms_closed (pr_hub q) \<and>
      (pr_listening p \<longrightarrow> exit_code r = 0)"
proof -
  have inv: "proc_inv p" using refl assms(1) by (rule proc_machine.reach_inv)
  have stays: "pr_signalled q" if "(proc_step cfg)\<^sup>*\<^sup>* p q" for q
    using that assms(2) by (induction rule: rtranclp_induct) (auto intro: signalled_step)
  show ?thesis
  proof (cases "exited (pr_main p)")
    case False
    then have "pr_main p \<in> {WaitingForHub, ClosingServer, AwaitingServe}"
      using inv assms(2) by (cases "pr_main p") (auto simp: proc_inv_def)
    then have "ends_well cfg p" using inv waiting_ends closing_ends awaiting_ends by blast
    then obtain q r where q: "(proc_step cfg)\<^sup>*\<^sup>* p q" "pr_main q = Returned r" "pr_listening p \<longrightarrow> r = None"
      unfolding ends_well_def by blast
    have "rooms_closed (pr_hub q)"
      using proc_machine.inv_steps [OF q(1) inv] stays [OF q(1)] q(2) by (intro exited_closed) simp_all
    moreover have "pr_listening p \<longrightarrow> exit_code r = 0" using q(3) by (simp add: exit_code_def)
    ultimately show ?thesis using q(1,2) False by (simp del: split_paired_Ex) blast
  qed (use exited_closed [OF inv assms(2)] in simp)
qed

text \<open>A fair run: one to the exit, where it stays.\<close>

lemma exited_still: "proc_step cfg p q \<Longrightarrow> \<not> exited (pr_main p)"
  by (erule proc_stepE) auto

lemma exits_fair:
  assumes "(proc_step cfg)\<^sup>*\<^sup>* p q" "exited (pr_main q)"
  shows "\<exists>run. fair_proc cfg run \<and> run 0 = p"
proof -
  obtain N where "(proc_step cfg ^^ N) p q" using rtranclp_imp_relpowp [OF assms(1)] by blast
  then obtain f where f: "f 0 = p" "f N = q" "\<And>i. i < N \<Longrightarrow> proc_step cfg (f i) (f (Suc i))"
    by (auto simp: relpowp_fun_conv)
  define run where "run = (\<lambda>m. f (min m N))"
  have "if exited (pr_main (run n)) then run (Suc n) = run n else proc_step cfg (run n) (run (Suc n))" for n
  proof (cases "n < N")
    case True
    with f(3) [OF True] exited_still [OF f(3) [OF True]] show ?thesis by (simp add: run_def min_def)
  next
    case False
    with f(2) assms(2) show ?thesis by (simp add: run_def min_def)
  qed
  moreover have "exited (pr_main (run N))" using f(2) assms(2) by (simp add: run_def)
  ultimately have "fair_proc cfg run" unfolding fair_proc_def by blast
  moreover have "run 0 = p" using f(1) by (simp add: run_def)
  ultimately show ?thesis by blast
qed

section \<open>Properties\<close>

text \<open>C31: the process goes down in order. After a signal, whatever the hub, its sessions and the HTTP
  server are doing: in every fair run the process exits, once and for all, and never before every room,
  with its archive, has closed. It exits with the error of the serving goroutine, if that had one, or of
  the closing of the server.\<close>

theorem signal_ends_process:
  assumes "fair_proc cfg run" "(proc_step cfg)\<^sup>*\<^sup>* proc_start (run 0)" "pr_signalled (run n)"
    and "\<not> exited (pr_main (run n))"
  shows "\<exists>m\<ge>n. \<exists>r. (\<forall>k\<ge>m. pr_main (run k) = Returned r \<and> rooms_closed (pr_hub (run k))) \<and>
    ((\<exists>l. pr_serve (run l) = Some r) \<or> (\<exists>e. r = Some (''shutdown: '' @ e)))"
proof -
  have on: "if exited (pr_main (run k)) then run (Suc k) = run k else proc_step cfg (run k) (run (Suc k))" for k
    using assms(1) unfolding fair_proc_def by blast
  have "\<exists>k. exited (pr_main (run k))" using not_endless assms(1-3) unfolding endless_def by blast
  then obtain k where k: "exited (pr_main (run k))" ..
  have stop: "run l = run m" if "m \<le> l" "exited (pr_main (run m))" for l m
    using that(1)
  proof (induction l rule: dec_induct)
    case (step j)
    with on [of j] that(2) show ?case by simp
  qed simp
  have "n \<le> k" using stop [of k n] k assms(4) by (metis nat_le_linear)
  with first_change [of "\<lambda>k. exited (pr_main (run k))" n k] k assms(4)
  obtain l where l: "n \<le> l" "\<not> exited (pr_main (run l))" "exited (pr_main (run (Suc l)))" by auto
  have go: "proc_step cfg (run l) (run (Suc l))" using on [of l] l(2) by simp
  obtain r where r: "pr_main (run (Suc l)) = Returned r" using l(3) by (cases "pr_main (run (Suc l))") auto
  from go have "pr_serve (run l) = Some r \<or> (\<exists>e. r = Some (''shutdown: '' @ e))"
    by cases (use r l(2) in \<open>auto simp: proc_moves split: option.splits\<close>)
  moreover have "pr_main (run k) = Returned r \<and> rooms_closed (pr_hub (run k))" if "Suc l \<le> k" for k
  proof -
    have "proc_inv (run (Suc l)) \<and> pr_signalled (run (Suc l))" by (rule run_facts [OF assms(1-3)]) (use l(1) in simp)
    with exited_closed l(3) have "rooms_closed (pr_hub (run (Suc l)))" by blast
    with stop [OF that l(3)] r show ?thesis by simp
  qed
  moreover have "n \<le> Suc l" using l(1) by simp
  ultimately show ?thesis by blast
qed

theorem signal_ends_process_witness:
  "\<exists>run m. fair_proc (sv_cfg sample_server) run \<and> hb_conn (pr_hub (run 0)) 1 = Ready (Some (''r'', 0)) \<and>
    pr_main (run 0) = WaitingForHub \<and> exited (pr_main (run m)) \<and> rooms_closed (pr_hub (run m))"
proof -
  let ?cfg = "sv_cfg sample_server"
  let ?p = "on_signal proc_start"
  let ?q = "?p\<lparr>pr_hub := one_in_room ?cfg\<rparr>"
  have "proc_step ?cfg proc_start ?p" by (rule proc_step.select_signal) (simp add: proc_start_def)
  moreover have "(proc_step ?cfg)\<^sup>*\<^sup>* ?p ?q"
    using one_in_room_facts(1) [of ?cfg] by (intro hub_runs) (simp_all add: on_signal_def proc_start_def)
  ultimately have reach: "(proc_step ?cfg)\<^sup>*\<^sup>* proc_start ?q" by simp
  have q: "pr_signalled ?q" "pr_main ?q = WaitingForHub" by (simp_all add: on_signal_def proc_start_def)
  then obtain t r where "(proc_step ?cfg)\<^sup>*\<^sup>* ?q t" "pr_main t = Returned r"
    using process_can_end [OF reach] by auto
  then obtain run where run: "fair_proc ?cfg run" "run 0 = ?q"
    using exits_fair [of ?cfg ?q t] q(2) by auto
  have h: "(proc_step ?cfg)\<^sup>*\<^sup>* proc_start (run 0)" "pr_signalled (run 0)" "\<not> exited (pr_main (run 0))"
    using reach q run(2) by simp_all
  have "hb_conn (pr_hub ?q) 1 = Ready (Some (''r'', 0))" by (simp add: one_in_room_def Let_def)
  moreover obtain m r' where "pr_main (run m) = Returned r'" "rooms_closed (pr_hub (run m))"
    using signal_ends_process [OF run(1) h] by blast
  then have "exited (pr_main (run m)) \<and> rooms_closed (pr_hub (run m))" by simp
  ultimately show ?thesis using run q(2) by metis
qed

end
